(* ===== verification/Urn_Prelude.thy ===== *)
theory Urn_Prelude
  imports Main "HOL-Library.Word"
begin

text \<open>
  Shared vocabulary of the development: the machine integers of the C++ sources, the ways in
  which a handler can fail to return, the sequencing of fallible steps, loops over a list of
  inputs, and the generic facts on lists that several components need.
\<close>

section \<open>Machine integers\<close>

type_synonym u8 = "8 word"
type_synonym u16 = "16 word"
type_synonym u32 = "32 word"
type_synonym u64 = "64 word"

section \<open>Faults\<close>

text \<open>
  What ends a C++ call other than a return: a read through a null pointer, an access outside
  an object, an exception (the ones the sources throw or let through), \<open>abort()\<close>, an exit with a
  status (which \<open>error(1, ...)\<close> makes), and the remaining undefined behaviour the sources can run into. The string of an exception or of
  an abort is the text of its message, where the code builds one.
\<close>

datatype fault =
    Null_deref
  | Out_of_bounds
  | Out_of_range
  | Runtime_error string
  | Abort string
  | Exit_status int
  | Undefined_behaviour

type_synonym 'a res = "fault + 'a"

named_theorems res_simps \<open>equations of sequencing\<close>

definition bindR :: "'a res \<Rightarrow> ('a \<Rightarrow> 'b res) \<Rightarrow> 'b res" where
  "bindR m f = (case m of Inl e \<Rightarrow> Inl e | Inr x \<Rightarrow> f x)"

lemma bindR_Inl [simp, res_simps]: "bindR (Inl e) f = Inl e"
  by (simp add: bindR_def)

lemma bindR_Inr [simp, res_simps]: "bindR (Inr x) f = f x"
  by (simp add: bindR_def)

lemma bindR_eq_Inr [res_simps]: "bindR m f = Inr y \<longleftrightarrow> (\<exists>x. m = Inr x \<and> f x = Inr y)"
  by (cases m) simp_all

lemma bindR_eq_Inl [res_simps]:
  "bindR m f = Inl e \<longleftrightarrow> m = Inl e \<or> (\<exists>x. m = Inr x \<and> f x = Inl e)"
  by (cases m) simp_all

lemma bindR_InrE [elim!]:
  assumes "bindR m f = Inr y"
  obtains x where "m = Inr x" and "f x = Inr y"
  using assms by (auto simp: bindR_eq_Inr)

lemma bindR_assoc: "bindR (bindR m f) g = bindR m (\<lambda>x. bindR (f x) g)"
  by (cases m) simp_all

lemma bindR_cong [fundef_cong]:
  "m = m' \<Longrightarrow> (\<And>x. m' = Inr x \<Longrightarrow> f x = f' x) \<Longrightarrow> bindR m f = bindR m' f'"
  by (cases m') simp_all

text \<open>A loop \<open>for (auto &x: xs) body(x)\<close> that stops at the first fault.\<close>

fun foldR :: "('a \<Rightarrow> 's \<Rightarrow> 's res) \<Rightarrow> 'a list \<Rightarrow> 's \<Rightarrow> 's res" where
  "foldR f [] s = Inr s"
| "foldR f (x # xs) s = bindR (f x s) (foldR f xs)"

lemma foldR_append: "foldR f (xs @ ys) s = bindR (foldR f xs s) (foldR f ys)"
  by (induction xs arbitrary: s) (simp_all add: bindR_def fun_eq_iff split: sum.split)

lemma foldR_invariant:
  assumes "foldR f xs s = Inr s'" and "P s"
    and "\<And>x s s'. x \<in> set xs \<Longrightarrow> P s \<Longrightarrow> f x s = Inr s' \<Longrightarrow> P s'"
  shows "P s'"
  using assms
proof (induction xs arbitrary: s)
  case Nil
  then show ?case by simp
next
  case (Cons x xs)
  from Cons.prems(1) obtain s1 where s1: "f x s = Inr s1" "foldR f xs s1 = Inr s'" by auto
  from Cons.prems(3) [OF _ Cons.prems(2) s1(1)] have "P s1" by simp
  moreover have "\<And>y s s'. y \<in> set xs \<Longrightarrow> P s \<Longrightarrow> f y s = Inr s' \<Longrightarrow> P s'"
    by (rule Cons.prems(3)) auto
  ultimately show ?case by (rule Cons.IH [OF s1(2)])
qed

text \<open>A loop whose body never faults on states that satisfy its invariant returns.\<close>

lemma foldR_total:
  assumes "P s" and "\<And>x s. x \<in> set xs \<Longrightarrow> P s \<Longrightarrow> \<exists>s'. f x s = Inr s' \<and> P s'"
  shows "\<exists>s'. foldR f xs s = Inr s' \<and> P s'"
  using assms
proof (induction xs arbitrary: s)
  case Nil
  then show ?case by simp
next
  case (Cons x xs)
  from Cons.prems(2) [of x s] Cons.prems(1) obtain s1 where s1: "f x s = Inr s1" "P s1" by auto
  have "\<And>y s. y \<in> set xs \<Longrightarrow> P s \<Longrightarrow> \<exists>s'. f y s = Inr s' \<and> P s'"
    using Cons.prems(2) by simp
  with Cons.IH [OF s1(2)] s1(1) show ?case by simp
qed

section \<open>Lists\<close>

lemma sum_list_update_word:
  fixes xs :: "'a::{len} word list"
  assumes "i < length xs"
  shows "sum_list (xs[i := v]) = sum_list xs - xs ! i + v"
  using assms
proof (induction xs arbitrary: i)
  case Nil
  then show ?case by simp
next
  case (Cons x xs)
  then show ?case by (cases i) (simp_all add: algebra_simps)
qed

lemma map_update_id [simp]: "i < length xs \<Longrightarrow> (map f xs)[i := f (xs ! i)] = map f xs"
  by (metis list_update_id nth_map)

lemma unat_sum_list:
  fixes ws :: "'a::{len} word list"
  assumes "sum_list (map unat ws) < 2 ^ LENGTH('a)"
  shows "unat (sum_list ws) = sum_list (map unat ws)"
  using assms
proof (induction ws)
  case Nil
  then show ?case by simp
next
  case (Cons w ws)
  then have "unat (sum_list ws) = sum_list (map unat ws)" by simp
  with Cons.prems show ?case
    by (simp add: unat_word_ariths)
qed

lemma unat_ucast_u32_u64 [simp]: "unat (ucast (x :: u32) :: u64) = unat x"
proof -
  have "unat x < 2 ^ 64" using unsigned_less [of x, where ?'a = nat] by simp
  then show ?thesis by (simp add: unsigned_ucast_eq take_bit_nat_eq_self)
qed

section \<open>Little-endian words\<close>

text \<open>
  \<open>*reinterpret_cast<const uint64_t *>(p)\<close> on the little-endian targets the sources are
  written for: byte \<open>i\<close> carries the bits from \<open>8 * i\<close>.
\<close>

fun load_le :: "u8 list \<Rightarrow> u64" where
  "load_le [] = 0"
| "load_le (b # bs) = ucast b + 256 * load_le bs"

fun store_le :: "nat \<Rightarrow> u64 \<Rightarrow> u8 list" where
  "store_le 0 x = []"
| "store_le (Suc n) x = ucast x # store_le n (drop_bit 8 x)"

lemma length_store_le [simp]: "length (store_le n x) = n"
  by (induction n arbitrary: x) simp_all

lemma byte_split: "ucast (ucast x :: u8) + 256 * drop_bit 8 x = (x :: u64)"
proof -
  have "ucast (ucast x :: u8) = take_bit 8 x"
    by (rule bit_word_eqI) (auto simp: bit_simps)
  moreover have "256 * drop_bit 8 x = push_bit 8 (drop_bit 8 x)"
    by (simp add: push_bit_eq_mult mult.commute)
  ultimately show ?thesis
    using bits_ident [of 8 x] by (simp add: add.commute)
qed

lemma load_store_le_gen: "drop_bit (8 * n) x = 0 \<Longrightarrow> load_le (store_le n x) = x"
proof (induction n arbitrary: x)
  case 0
  then show ?case by simp
next
  case (Suc n)
  from Suc.prems have "drop_bit (8 * n) (drop_bit 8 x) = 0"
    by (simp add: add.commute)
  from Suc.IH [OF this] show ?case
    by (simp add: byte_split)
qed

lemma load_store_le [simp]: "load_le (store_le 8 x) = x"
proof (rule load_store_le_gen)
  show "drop_bit (8 * 8) x = 0"
    by (rule bit_word_eqI) (auto simp: bit_drop_bit_eq dest: bit_imp_le_length)
qed

end
