(* ===== verification/Intrusive_Stack.thy ===== *)
theory Intrusive_Stack
  imports Urn_Prelude
begin

text \<open>
  The intrusive LIFO of \<^verbatim>\<open>urn/intrusive_stack.hpp\<close>. A node is an address; the hook member
  \<open>Next\<close> of all nodes is a function from addresses to pointers, which the container shares
  with the nodes' owner. A pointer is an \<open>option\<close>, \<open>None\<close> the null pointer.

  The locale \<open>lifo\<close> is the contract of a last-in-first-out pool: the buffer pool of the
  libuv experiment relies on it, and the free list of the io_uring experiment satisfies it
  with another representation.
\<close>

section \<open>The contract of a pool that hands out the last element put in\<close>

datatype 'n pool_op = Push 'n | Pop

text \<open>What a sequence of operations returns, on the list of the elements, top first.
  Pushing an element that is in the pool is outside the contract: \<open>None\<close>.\<close>

fun list_run :: "'n pool_op list \<Rightarrow> 'n list \<Rightarrow> ('n option list \<times> 'n list) option" where
  "list_run [] xs = Some ([], xs)"
| "list_run (Push x # ops) xs = (if x \<in> set xs then None else list_run ops (x # xs))"
| "list_run (Pop # ops) xs =
     (case xs of
        [] \<Rightarrow> map_option (\<lambda>(out, ys). (None # out, ys)) (list_run ops [])
      | x # xs' \<Rightarrow> map_option (\<lambda>(out, ys). (Some x # out, ys)) (list_run ops xs'))"

text \<open>The same sequence on an implementation.\<close>

fun pool_run ::
  "('n \<Rightarrow> 's \<Rightarrow> 's res) \<Rightarrow> ('s \<Rightarrow> 'n option \<times> 's) \<Rightarrow> 'n pool_op list \<Rightarrow> 's \<Rightarrow> ('n option list \<times> 's) res"
where
  "pool_run psh pop [] s = Inr ([], s)"
| "pool_run psh pop (Push x # ops) s = bindR (psh x s) (\<lambda>s'. pool_run psh pop ops s')"
| "pool_run psh pop (Pop # ops) s =
     (case pop s of (r, s') \<Rightarrow> bindR (pool_run psh pop ops s') (\<lambda>(out, t). Inr (r # out, t)))"

locale lifo =
  fixes repr :: "'s \<Rightarrow> 'n list \<Rightarrow> bool"
    and psh :: "'n \<Rightarrow> 's \<Rightarrow> 's res"
    and pop :: "'s \<Rightarrow> 'n option \<times> 's"
  assumes repr_unique: "repr s xs \<Longrightarrow> repr s ys \<Longrightarrow> xs = ys"
    and repr_distinct: "repr s xs \<Longrightarrow> distinct xs"
    and psh_repr: "repr s xs \<Longrightarrow> x \<notin> set xs \<Longrightarrow> \<exists>s'. psh x s = Inr s' \<and> repr s' (x # xs)"
    and pop_Nil: "repr s [] \<Longrightarrow> pop s = (None, s)"
    and pop_Cons: "repr s (x # xs) \<Longrightarrow> \<exists>s'. pop s = (Some x, s') \<and> repr s' xs"
begin

lemma psh_reprE:
  assumes "repr s xs" and "x \<notin> set xs"
  obtains s' where "psh x s = Inr s'" and "repr s' (x # xs)"
  using psh_repr [OF assms] by blast

lemma pop_result: "repr s xs \<Longrightarrow> fst (pop s) = (case xs of [] \<Rightarrow> None | x # _ \<Rightarrow> Some x)"
  by (cases xs) (auto simp: pop_Nil dest: pop_Cons)

lemma pop_repr: "repr s xs \<Longrightarrow> repr (snd (pop s)) (tl xs)"
  by (cases xs) (auto simp: pop_Nil dest: pop_Cons)

lemma pop_psh:
  assumes "repr s xs" and "x \<notin> set xs" and "psh x s = Inr s'"
  shows "fst (pop s') = Some x \<and> repr (snd (pop s')) xs"
proof -
  from assms have "repr s' (x # xs)" by (auto elim: psh_reprE)
  then show ?thesis using pop_result pop_repr by fastforce
qed

lemma run_refines:
  assumes "repr s xs" and "list_run ops xs = Some (out, ys)"
  shows "\<exists>t. pool_run psh pop ops s = Inr (out, t) \<and> repr t ys"
  using assms
proof (induction ops arbitrary: s xs out)
  case Nil
  then show ?case by simp
next
  case (Cons opn ops)
  show ?case
  proof (cases opn)
    case (Push x)
    with Cons.prems(2) have x: "x \<notin> set xs" and run: "list_run ops (x # xs) = Some (out, ys)"
      by (auto split: if_splits)
    from Cons.prems(1) x obtain s' where s': "psh x s = Inr s'" "repr s' (x # xs)"
      by (rule psh_reprE)
    from Cons.IH [OF s'(2) run] s'(1) Push show ?thesis by simp
  next
    case Pop
    then obtain out' where out: "out = fst (pop s) # out'"
      and run: "list_run ops (tl xs) = Some (out', ys)"
      using Cons.prems pop_result [OF Cons.prems(1)] by (auto split: list.splits)
    from Cons.IH [OF pop_repr [OF Cons.prems(1)] run]
    show ?thesis using Pop out by (cases "pop s") auto
  qed
qed

end

section \<open>The container\<close>

record 'n intrusive_stack =
  hook :: "'n \<Rightarrow> 'n option"
  top_ptr :: "'n option"

definition stack_init :: "('n \<Rightarrow> 'n option) \<Rightarrow> 'n intrusive_stack" where
  "stack_init h = \<lparr>hook = h, top_ptr = None\<rparr>"

definition stack_push :: "'n option \<Rightarrow> 'n intrusive_stack \<Rightarrow> 'n intrusive_stack res" where
  "stack_push node s =
     (case node of
        None \<Rightarrow> Inl Null_deref
      | Some n \<Rightarrow> Inr (s\<lparr>hook := (hook s)(n := top_ptr s), top_ptr := Some n\<rparr>))"

definition stack_try_pop :: "'n intrusive_stack \<Rightarrow> 'n option \<times> 'n intrusive_stack" where
  "stack_try_pop s =
     (let node = top_ptr s
      in case node of
           None \<Rightarrow> (node, s)
         | Some n \<Rightarrow> (node, s\<lparr>top_ptr := hook s n\<rparr>))"

definition stack_top :: "'n intrusive_stack \<Rightarrow> 'n option" where
  "stack_top s = top_ptr s"

definition stack_empty :: "'n intrusive_stack \<Rightarrow> bool" where
  "stack_empty s \<longleftrightarrow> top_ptr s = None"

section \<open>The list in the container\<close>

primrec chain :: "('n \<Rightarrow> 'n option) \<Rightarrow> 'n option \<Rightarrow> 'n list \<Rightarrow> bool" where
  "chain h p [] \<longleftrightarrow> p = None"
| "chain h p (x # xs) \<longleftrightarrow> p = Some x \<and> chain h (h x) xs"

definition stack_repr :: "'n intrusive_stack \<Rightarrow> 'n list \<Rightarrow> bool" where
  "stack_repr s xs \<longleftrightarrow> chain (hook s) (top_ptr s) xs"

lemma chain_None [simp]: "chain h None xs \<longleftrightarrow> xs = []"
  by (cases xs) simp_all

lemma chain_unique: "chain h p xs \<Longrightarrow> chain h p ys \<Longrightarrow> xs = ys"
proof (induction xs arbitrary: p ys)
  case Nil
  then show ?case by simp
next
  case (Cons x xs)
  then show ?case by (cases ys) auto
qed

lemma chain_suffix: "chain h p (xs @ x # ys) \<Longrightarrow> chain h (Some x) (x # ys)"
  by (induction xs arbitrary: p) auto

lemma chain_distinct: "chain h p xs \<Longrightarrow> distinct xs"
proof (induction xs arbitrary: p)
  case Nil
  then show ?case by simp
next
  case (Cons x xs)
  have "x \<notin> set xs"
  proof
    assume "x \<in> set xs"
    then obtain as bs where xs: "xs = as @ x # bs" by (auto simp: in_set_conv_decomp)
    with Cons.prems have "chain h (h x) (as @ x # bs)" by simp
    moreover from this have "chain h (h x) bs" by (auto dest: chain_suffix)
    ultimately have "as @ x # bs = bs" by (rule chain_unique)
    then show False by (auto dest: arg_cong [where f = length])
  qed
  with Cons show ?case by auto
qed

lemma chain_update: "n \<notin> set xs \<Longrightarrow> chain (h(n := q)) p xs \<longleftrightarrow> chain h p xs"
  by (induction xs arbitrary: p) auto

lemma stack_repr_init [simp]: "stack_repr (stack_init h) xs \<longleftrightarrow> xs = []"
  by (simp add: stack_repr_def stack_init_def)

lemma stack_repr_empty: "stack_repr s xs \<Longrightarrow> stack_empty s \<longleftrightarrow> xs = []"
  by (cases xs) (auto simp: stack_repr_def stack_empty_def)

lemma stack_repr_top: "stack_repr s xs \<Longrightarrow> stack_top s = (case xs of [] \<Rightarrow> None | x # _ \<Rightarrow> Some x)"
  by (cases xs) (auto simp: stack_repr_def stack_top_def)

interpretation stk: lifo stack_repr "\<lambda>n. stack_push (Some n)" stack_try_pop
proof unfold_locales
  fix s :: "'n intrusive_stack" and xs ys
  assume "stack_repr s xs" "stack_repr s ys"
  then show "xs = ys" by (auto simp: stack_repr_def intro: chain_unique)
next
  fix s :: "'n intrusive_stack" and xs
  assume "stack_repr s xs"
  then show "distinct xs" by (auto simp: stack_repr_def intro: chain_distinct)
next
  fix s :: "'n intrusive_stack" and xs x
  assume "stack_repr s xs" "x \<notin> set xs"
  then show "\<exists>s'. stack_push (Some x) s = Inr s' \<and> stack_repr s' (x # xs)"
    by (simp add: stack_repr_def stack_push_def chain_update)
next
  fix s :: "'n intrusive_stack"
  assume "stack_repr s []"
  then show "stack_try_pop s = (None, s)" by (simp add: stack_repr_def stack_try_pop_def)
next
  fix s :: "'n intrusive_stack" and x xs
  assume "stack_repr s (x # xs)"
  then show "\<exists>s'. stack_try_pop s = (Some x, s') \<and> stack_repr s' xs"
    by (simp add: stack_repr_def stack_try_pop_def)
qed

section \<open>Properties\<close>

text \<open>Pushing a null pointer dereferences it; popping never touches a hook.\<close>

lemma stack_push_null [simp]: "stack_push None s = Inl Null_deref"
  by (simp add: stack_push_def)

lemma hook_try_pop [simp]: "hook (snd (stack_try_pop s)) = hook s"
  by (simp add: stack_try_pop_def Let_def split: option.split)

lemma hook_push: "stack_push (Some n) s = Inr s' \<Longrightarrow> m \<noteq> n \<Longrightarrow> hook s' m = hook s m"
  by (auto simp: stack_push_def)

definition stack_run :: "'n pool_op list \<Rightarrow> 'n intrusive_stack \<Rightarrow> ('n option list \<times> 'n intrusive_stack) res" where
  "stack_run = pool_run (\<lambda>n. stack_push (Some n)) stack_try_pop"

text \<open>C32. Any sequence of pushes and pops on the intrusive container, starting empty and
  never pushing a node that is in it, returns exactly what the same sequence returns on a
  list, and leaves that list in the container.\<close>

theorem stack_run_refines_list:
  assumes "list_run ops [] = Some (out, ys)"
  shows "\<exists>t. stack_run ops (stack_init h) = Inr (out, t) \<and> stack_repr t ys
           \<and> (stack_empty t \<longleftrightarrow> ys = [])"
proof -
  from stk.run_refines [OF _ assms, of "stack_init h"] obtain t
    where t: "stack_run ops (stack_init h) = Inr (out, t)" "stack_repr t ys"
    by (auto simp: stack_run_def)
  with stack_repr_empty [OF t(2)] show ?thesis by blast
qed

text \<open>The interleaving of the unit test: push 1, push 2, pop, push 3, pop, push 3, pop, pop, pop.\<close>

definition test_ops :: "nat pool_op list" where
  "test_ops = [Push 1, Push 2, Pop, Push 3, Pop, Push 3, Pop, Pop, Pop]"

lemma stack_run_refines_list_witness:
  "list_run test_ops [] = Some ([Some 2, Some 3, Some 3, Some 1, None], [])
   \<and> (\<exists>t. stack_run test_ops (stack_init (\<lambda>_. None)) = Inr ([Some 2, Some 3, Some 3, Some 1, None], t)
        \<and> stack_repr t [])"
proof -
  have run: "list_run test_ops [] = Some ([Some 2, Some 3, Some 3, Some 1, None], [])"
    by (simp add: test_ops_def)
  from stack_run_refines_list [OF run, of "\<lambda>_. None"] run show ?thesis by blast
qed

text \<open>The precondition of the container's documentation matters: a node that is pushed while
  it is on top becomes its own successor, and from then on every pop returns it and the
  container never becomes empty.\<close>

theorem stack_double_push_never_empties:
  assumes "stack_top s = Some n" and "stack_push (Some n) s = Inr s'"
  shows "\<exists>t. stack_run (replicate k Pop) s' = Inr (replicate k (Some n), t) \<and> \<not> stack_empty t"
proof -
  from assms have s': "top_ptr s' = Some n" "hook s' n = Some n"
    by (auto simp: stack_push_def stack_top_def)
  then show ?thesis
  proof (induction k arbitrary: s')
    case 0
    then show ?case by (simp add: stack_run_def stack_empty_def)
  next
    case (Suc k)
    have "stack_try_pop s' = (Some n, s')"
      using Suc.prems by (cases s') (simp add: stack_try_pop_def Let_def)
    with Suc.IH [OF Suc.prems] show ?case by (auto simp: stack_run_def)
  qed
qed

lemma stack_double_push_never_empties_witness:
  "\<exists>s :: nat intrusive_stack. \<exists>s' t. stack_top s = Some 7 \<and> stack_push (Some 7) s = Inr s'
     \<and> stack_run (replicate 3 Pop) s' = Inr ([Some 7, Some 7, Some 7], t)"
proof -
  define s :: "nat intrusive_stack" where "s = \<lparr>hook = (\<lambda>_. None), top_ptr = Some 7\<rparr>"
  obtain s' where s': "stack_push (Some 7) s = Inr s'" by (simp add: stack_push_def)
  have top: "stack_top s = Some 7" by (simp add: s_def stack_top_def)
  from stack_double_push_never_empties [OF top s', of 3] top s' show ?thesis
    by (auto simp: numeral_3_eq_3)
qed

end
