(* ===== verification/Statistics.thy ===== *)
theory Statistics
  imports Urn_Prelude Complex_Main "HOL-Library.Log_Nat"
begin

text \<open>
  The traffic counters of \<^verbatim>\<open>urn/relay.hpp\<close>: the per-thread \<open>statistics\<close> structure, its
  update on every packet, the periodic collection over all threads with the ingress
  distribution, and the scaling to a readable bit rate. Counters are \<open>size_t\<close>, 64-bit words
  that wrap. The distribution is computed in the code in \<open>double\<close>: \<open>rnd53\<close> is the rounding of
  an IEEE binary64 operation (to nearest, ties to even; the values here are far from the
  limits of the exponent range), applied to the conversion, the product and the quotient.
\<close>

section \<open>Counters\<close>

record direction =
  packets :: u64
  bytes :: u64

record statistics =
  stat_in :: direction
  stat_out :: direction

definition direction_zero :: direction where
  "direction_zero = \<lparr>packets = 0, bytes = 0\<rparr>"

definition statistics_zero :: statistics where
  "statistics_zero = \<lparr>stat_in = direction_zero, stat_out = direction_zero\<rparr>"

definition update_io_statistics :: "direction \<Rightarrow> u64 \<Rightarrow> direction" where
  "update_io_statistics dir len =
     dir\<lparr>bytes := bytes dir + len, packets := packets dir + 1\<rparr>"

text \<open>\<open>get_and_reset_into\<close> returns the counters it leaves behind and the filled \<open>dest\<close>.\<close>

definition get_and_reset_into :: "statistics \<Rightarrow> statistics \<Rightarrow> statistics \<times> statistics" where
  "get_and_reset_into self dest =
     (self\<lparr>stat_in := \<lparr>packets = 0, bytes = 0\<rparr>, stat_out := \<lparr>packets = 0, bytes = 0\<rparr>\<rparr>,
      dest\<lparr>stat_in := \<lparr>packets = packets (stat_in self), bytes = bytes (stat_in self)\<rparr>,
           stat_out := \<lparr>packets = packets (stat_out self), bytes = bytes (stat_out self)\<rparr>\<rparr>)"

definition sum_into :: "statistics \<Rightarrow> statistics \<Rightarrow> statistics" where
  "sum_into self dest =
     dest\<lparr>stat_in := \<lparr>packets = packets (stat_in dest) + packets (stat_in self),
                     bytes = bytes (stat_in dest) + bytes (stat_in self)\<rparr>,
          stat_out := \<lparr>packets = packets (stat_out dest) + packets (stat_out self),
                      bytes = bytes (stat_out dest) + bytes (stat_out self)\<rparr>\<rparr>"

lemma get_and_reset_into_eq [simp]: "get_and_reset_into self dest = (statistics_zero, self)"
  by (simp add: get_and_reset_into_def statistics_zero_def direction_zero_def)

section \<open>Double arithmetic of the distribution\<close>

definition round_half_even :: "rat \<Rightarrow> int" where
  "round_half_even x =
     (let f = \<lfloor>x\<rfloor>; d = x - of_int f
      in if d < 1 / 2 then f else if d > 1 / 2 then f + 1 else if even f then f else f + 1)"

definition pow2 :: "int \<Rightarrow> rat" where
  "pow2 e = (if 0 \<le> e then 2 ^ nat e else 1 / 2 ^ nat (- e))"

text \<open>The binary exponent of a positive rational: \<open>2 ^ ilog2 x \<le> x < 2 ^ (ilog2 x + 1)\<close>.\<close>

definition ilog2 :: "rat \<Rightarrow> int" where
  "ilog2 x = (if 1 \<le> x then int (floorlog 2 (nat \<lfloor>x\<rfloor>)) - 1
              else - int (floorlog 2 (nat (\<lceil>1 / x\<rceil> - 1))))"

definition rnd53 :: "rat \<Rightarrow> rat" where
  "rnd53 x =
     (if x = 0 then 0
      else let e = ilog2 x - 52 in of_int (round_half_even (x / pow2 e)) * pow2 e)"

text \<open>\<open>(total.in.bytes ? statistics.in.bytes * 100.0 / total.in.bytes : 0.0)\<close>\<close>

definition ingress_share :: "u64 \<Rightarrow> u64 \<Rightarrow> rat" where
  "ingress_share b all =
     (if all \<noteq> 0
      then rnd53 (rnd53 (rnd53 (of_int (uint b)) * 100) / rnd53 (of_int (uint all)))
      else 0)"

fun show_nat :: "nat \<Rightarrow> string" where
  "show_nat n = (if n < 10 then [char_of (48 + n)] else show_nat (n div 10) @ [char_of (48 + n mod 10)])"

declare show_nat.simps [simp del]

text \<open>\<open>oss << std::fixed << std::setprecision(0) << d << "%/"\<close> for a non-negative \<open>d\<close>.\<close>

definition format_share :: "rat \<Rightarrow> string" where
  "format_share d = show_nat (nat (round_half_even d)) @ ''%/''"

section \<open>Collection\<close>

text \<open>The loop over the threads: it resets each thread's counters into a private copy and
  adds the copy to the total.\<close>

definition collect_step ::
  "nat \<Rightarrow> statistics list \<times> statistics list \<times> statistics \<Rightarrow> statistics list \<times> statistics list \<times> statistics"
where
  "collect_step i = (\<lambda>(shared, copy, all).
     let (rest, got) = get_and_reset_into (shared ! i) (copy ! i)
     in (shared[i := rest], copy[i := got], sum_into got all))"

definition collect :: "statistics list \<Rightarrow> statistics list \<times> statistics list \<times> statistics" where
  "collect shared =
     fold collect_step [0..<length shared]
       (shared, replicate (length shared) statistics_zero, statistics_zero)"

definition ingress_distribution :: "statistics list \<Rightarrow> statistics \<Rightarrow> string" where
  "ingress_distribution copy all =
     (let s = concat (map (\<lambda>st. format_share (ingress_share (bytes (stat_in st)) (bytes (stat_in all)))) copy)
      in if s \<noteq> [] then butlast s else s)"

text \<open>Returns the counters left in the relay, the total, and the distribution.\<close>

definition load_statistics :: "statistics list \<Rightarrow> statistics list \<times> statistics \<times> string" where
  "load_statistics per_thread =
     (let (rest, copy, all) = collect per_thread
      in (rest, all, ingress_distribution copy all))"

section \<open>Bit rate\<close>

definition units :: "string list" where
  "units = [''bps'', ''Kbps'', ''Mbps'', ''Gbps'']"

function scale_loop :: "u64 \<Rightarrow> nat \<Rightarrow> u64 \<times> nat" where
  "scale_loop v u =
     (if v > 1000 \<and> u + 1 < length units then scale_loop (v div 1000) (u + 1) else (v, u))"
  by pat_completeness auto
termination
  by (relation "measure (\<lambda>(v, u). length units - u)") auto

declare scale_loop.simps [simp del]

text \<open>\<open>interval\<close> is \<open>interval.count()\<close> after the conversion to the unsigned type of the
  dividend; a zero divisor is undefined behaviour.\<close>

definition bits_per_sec :: "u64 \<Rightarrow> u64 \<Rightarrow> (u64 \<times> string) res" where
  "bits_per_sec n interval =
     (if interval = 0 then Inl Undefined_behaviour
      else let (v, u) = scale_loop (8 * n div interval) 0 in Inr (v, units ! u))"

definition print_statistics :: "u64 \<Rightarrow> statistics list \<Rightarrow> (string \<times> statistics list) res" where
  "print_statistics interval per_thread =
     (let (rest, stats, dist) = load_statistics per_thread
      in bindR (bits_per_sec (bytes (stat_in stats)) interval) (\<lambda>(in_bps, in_unit).
         bindR (bits_per_sec (bytes (stat_out stats)) interval) (\<lambda>(out_bps, out_unit).
         Inr (''in: '' @ show_nat (unat (packets (stat_in stats) div interval)) @ ''/''
                @ show_nat (unat in_bps) @ in_unit
              @ '' | out: '' @ show_nat (unat (packets (stat_out stats) div interval)) @ ''/''
                @ show_nat (unat out_bps) @ out_unit
              @ '' | dist '' @ dist @ [char_of (10 :: nat)],
              rest))))"

section \<open>The collection resets every counter and loses nothing\<close>

lemma collect_prefix:
  assumes "k \<le> length pts"
  shows "fold collect_step [0..<k] (pts, replicate (length pts) statistics_zero, statistics_zero)
       = (replicate k statistics_zero @ drop k pts,
          take k pts @ replicate (length pts - k) statistics_zero,
          fold sum_into (take k pts) statistics_zero)"
  using assms
proof (induction k)
  case 0
  then show ?case by simp
next
  case (Suc k)
  then have k: "k < length pts" by simp
  have shared: "(replicate k statistics_zero @ drop k pts)[k := statistics_zero]
      = replicate (Suc k) statistics_zero @ drop (Suc k) pts"
    using k by (simp add: list_update_append Cons_nth_drop_Suc [symmetric] replicate_app_Cons_same)
  have copy: "(take k pts @ replicate (length pts - k) statistics_zero)[k := pts ! k]
      = take (Suc k) pts @ replicate (length pts - Suc k) statistics_zero"
    using k by (simp add: list_update_append take_Suc_conv_app_nth Suc_diff_Suc [symmetric])
  have nth: "(replicate k statistics_zero @ drop k pts) ! k = pts ! k"
    using k by (simp add: nth_append)
  show ?case
    using Suc.IH k shared copy nth
    by (simp add: collect_step_def take_Suc_conv_app_nth)
qed

lemma collect_eq:
  "collect pts = (replicate (length pts) statistics_zero, pts, fold sum_into pts statistics_zero)"
  by (simp add: collect_def collect_prefix)

lemma fold_sum_into:
  "stat_in (fold sum_into sts d) =
     \<lparr>packets = packets (stat_in d) + sum_list (map (packets \<circ> stat_in) sts),
      bytes = bytes (stat_in d) + sum_list (map (bytes \<circ> stat_in) sts)\<rparr>"
  "stat_out (fold sum_into sts d) =
     \<lparr>packets = packets (stat_out d) + sum_list (map (packets \<circ> stat_out) sts),
      bytes = bytes (stat_out d) + sum_list (map (bytes \<circ> stat_out) sts)\<rparr>"
  by (induction sts arbitrary: d) (simp_all add: sum_into_def algebra_simps)

definition total_of :: "statistics list \<Rightarrow> statistics" where
  "total_of sts =
     \<lparr>stat_in = \<lparr>packets = sum_list (map (packets \<circ> stat_in) sts),
                bytes = sum_list (map (bytes \<circ> stat_in) sts)\<rparr>,
      stat_out = \<lparr>packets = sum_list (map (packets \<circ> stat_out) sts),
                 bytes = sum_list (map (bytes \<circ> stat_out) sts)\<rparr>\<rparr>"

lemma fold_sum_into_total: "fold sum_into sts statistics_zero = total_of sts"
  by (rule statistics.equality)
    (simp_all add: fold_sum_into total_of_def statistics_zero_def direction_zero_def)

lemma load_statistics_eq:
  "load_statistics pts =
     (replicate (length pts) statistics_zero, total_of pts, ingress_distribution pts (total_of pts))"
  by (simp add: load_statistics_def collect_eq fold_sum_into_total)

section \<open>Rounding errors of the distribution\<close>

lemma round_half_even_error: "\<bar>of_int (round_half_even x) - x\<bar> \<le> 1 / 2"
proof -
  have "of_int \<lfloor>x\<rfloor> \<le> x" "x < of_int \<lfloor>x\<rfloor> + 1" by linarith+
  then show ?thesis by (auto simp: round_half_even_def Let_def abs_le_iff)
qed

lemma round_half_even_unique: "\<bar>of_int n - x\<bar> < 1 / 2 \<Longrightarrow> round_half_even x = n"
proof -
  assume n: "\<bar>of_int n - x\<bar> < 1 / 2"
  have "\<bar>of_int (round_half_even x) - of_int n :: rat\<bar> < 1"
    using n round_half_even_error [of x] by linarith
  then have "\<bar>round_half_even x - n\<bar> < 1"
    by (metis of_int_abs of_int_diff of_int_less_1_iff)
  then show ?thesis by simp
qed

lemma pow2_pos [simp]: "0 < pow2 e"
  by (simp add: pow2_def)

lemma pow2_52: "pow2 e = 2 ^ 52 * pow2 (e - 52)"
proof (cases "0 \<le> e - 52")
  case True
  then have "nat e = 52 + nat (e - 52)" by linarith
  with True show ?thesis by (simp add: pow2_def power_add)
next
  case False
  show ?thesis
  proof (cases "0 \<le> e")
    case True
    with False have "(2::rat) ^ 52 = 2 ^ nat e * 2 ^ nat (52 - e)"
      by (simp flip: power_add nat_add_distrib)
    with True False show ?thesis by (simp add: pow2_def field_simps)
  next
    case neg: False
    then have "nat (52 - e) = 52 + nat (- e)" by linarith
    then have "(2::rat) ^ nat (52 - e) = 2 ^ 52 * 2 ^ nat (- e)" by (simp add: power_add)
    with neg False show ?thesis by (simp add: pow2_def field_simps)
  qed
qed

lemma ilog2_le:
  assumes "0 < x"
  shows "pow2 (ilog2 x) \<le> x"
proof (cases "1 \<le> x")
  case True
  define n where "n = nat \<lfloor>x\<rfloor>"
  have "0 < n" using True by (simp add: n_def)
  then have "2 ^ (floorlog 2 n - 1) \<le> n" using floorlog_bounds [of n 2] by simp
  then have "(2::rat) ^ (floorlog 2 n - 1) \<le> of_nat n"
    by (metis of_nat_le_iff of_nat_numeral of_nat_power)
  also have "of_nat n \<le> x" using True by (simp add: n_def of_nat_nat)
  finally have "(2::rat) ^ (floorlog 2 n - 1) \<le> x" .
  moreover have "0 < floorlog 2 n" using \<open>0 < n\<close> by (simp add: floorlog_def)
  ultimately show ?thesis
    using True by (simp add: ilog2_def pow2_def n_def [symmetric] nat_diff_distrib)
next
  case False
  define n where "n = nat (\<lceil>1 / x\<rceil> - 1)"
  have "1 < 1 / x" using False assms by simp
  then have c: "1 < \<lceil>1 / x\<rceil>" by (metis less_ceiling_iff of_int_1)
  then have n: "0 < n" "int n = \<lceil>1 / x\<rceil> - 1" unfolding n_def by linarith+
  have "n < 2 ^ floorlog 2 n" using floorlog_bounds [of n 2] n(1) by simp
  then have "int n + 1 \<le> 2 ^ floorlog 2 n"
    by (metis Suc_eq_plus1 Suc_leI of_nat_1 of_nat_add of_nat_le_iff of_nat_numeral of_nat_power)
  then have "of_int \<lceil>1 / x\<rceil> \<le> (2::rat) ^ floorlog 2 n"
    using n(2) by (metis add.commute diff_add_cancel of_int_le_iff of_int_numeral of_int_power)
  then have "1 / x \<le> 2 ^ floorlog 2 n" by (meson le_of_int_ceiling order_trans)
  then have "1 / 2 ^ floorlog 2 n \<le> x" using assms by (simp add: field_simps)
  moreover have "0 < floorlog 2 n" using n(1) by (simp add: floorlog_def)
  ultimately show ?thesis
    using False by (simp add: ilog2_def pow2_def n_def [symmetric])
qed

lemma rnd53_error:
  assumes "0 \<le> x"
  shows "\<bar>rnd53 x - x\<bar> \<le> x / 2 ^ 53"
proof (cases "x = 0")
  case True
  then show ?thesis by (simp add: rnd53_def)
next
  case False
  define p where "p = pow2 (ilog2 x - 52)"
  have p: "0 < p" by (simp add: p_def)
  have "2 ^ 52 * p \<le> x"
    using ilog2_le [of x] pow2_52 [of "ilog2 x"] False assms by (simp add: p_def)
  moreover have "rnd53 x - x = (of_int (round_half_even (x / p)) - x / p) * p"
    using False p by (simp add: rnd53_def Let_def p_def [symmetric] left_diff_distrib)
  then have "\<bar>rnd53 x - x\<bar> = \<bar>of_int (round_half_even (x / p)) - x / p\<bar> * p"
    using p by (simp add: abs_mult)
  moreover have "\<bar>of_int (round_half_even (x / p)) - x / p\<bar> * p \<le> 1 / 2 * p"
    using round_half_even_error p by (intro mult_right_mono) auto
  ultimately show ?thesis by simp
qed

lemma rnd53_bounds:
  assumes "0 \<le> x"
  shows "x * (1 - 1 / 2 ^ 53) \<le> rnd53 x" "rnd53 x \<le> x * (1 + 1 / 2 ^ 53)"
proof -
  from rnd53_error [OF assms] have "rnd53 x - x \<le> x / 2 ^ 53" "x - rnd53 x \<le> x / 2 ^ 53"
    by linarith+
  then show "x * (1 - 1 / 2 ^ 53) \<le> rnd53 x" "rnd53 x \<le> x * (1 + 1 / 2 ^ 53)"
    by (simp_all add: right_diff_distrib distrib_left)
qed

text \<open>The displayed share is the true percentage up to the rounding to an integer.\<close>

lemma rounded_share_error:
  fixes B T :: rat
  assumes B: "0 \<le> B" and BT: "B \<le> T" and T: "0 < T"
  shows "\<bar>rnd53 (rnd53 (rnd53 B * 100) / rnd53 T) - 100 * B / T\<bar> \<le> 1 / 2 ^ 43"
proof -
  define lo hi :: rat where "lo = 1 - 1 / 2 ^ 53" and "hi = 1 + 1 / 2 ^ 53"
  define q where "q = 100 * B / T"
  define a m d where "a = rnd53 B" and "m = rnd53 (a * 100)" and "d = rnd53 T"
  have pos: "0 < lo" "0 < hi" by (simp_all add: lo_def hi_def)
  have a: "B * lo \<le> a" "a \<le> B * hi"
    unfolding a_def lo_def hi_def by (rule rnd53_bounds [OF B])+
  have a0: "0 \<le> a * 100" using a(1) B pos by (meson mult_nonneg_nonneg order_trans less_imp_le zero_le_numeral)
  have d: "T * lo \<le> d" "d \<le> T * hi"
    unfolding d_def lo_def hi_def by (rule rnd53_bounds, use T in simp)+
  have d0: "0 < d" using d(1) T pos by (meson mult_pos_pos order_less_le_trans)
  have m: "a * 100 * lo \<le> m" "m \<le> a * 100 * hi"
    unfolding m_def lo_def hi_def by (rule rnd53_bounds [OF a0])+
  have q: "0 \<le> q" "q \<le> 100" using B BT T by (simp_all add: q_def field_simps)
  have m': "100 * B * lo ^ 2 \<le> m" "m \<le> 100 * B * hi ^ 2"
  proof -
    have "B * lo * (100 * lo) \<le> a * (100 * lo)" "a * (100 * hi) \<le> B * hi * (100 * hi)"
      using a pos by (intro mult_right_mono; simp)+
    with m show "100 * B * lo ^ 2 \<le> m" "m \<le> 100 * B * hi ^ 2"
      by (simp_all add: power2_eq_square algebra_simps)
  qed
  have m0: "0 \<le> m" using m(1) a0 pos by (meson mult_nonneg_nonneg order_trans less_imp_le)
  have up: "m / d \<le> 100 * B * hi ^ 2 / (T * lo)"
    using m'(2) d(1) m0 T pos B by (intro frac_le) auto
  have low: "100 * B * lo ^ 2 / (T * hi) \<le> m / d"
    using m'(1) d(2) d0 m0 T pos B by (intro frac_le) auto
  have md: "0 \<le> m / d" using m0 d0 by simp
  have "rnd53 (m / d) \<le> m / d * hi" unfolding hi_def by (rule rnd53_bounds [OF md])
  also have "\<dots> \<le> 100 * B * hi ^ 2 / (T * lo) * hi" using up pos by (intro mult_right_mono) auto
  also have "\<dots> = q * (hi ^ 3 / lo)" by (simp add: q_def power3_eq_cube power2_eq_square)
  finally have U: "rnd53 (m / d) - q \<le> q * (hi ^ 3 / lo - 1)" by (simp add: right_diff_distrib)
  have "q * (lo ^ 3 / hi) = 100 * B * lo ^ 2 / (T * hi) * lo"
    by (simp add: q_def power3_eq_cube power2_eq_square)
  also have "\<dots> \<le> m / d * lo" using low pos by (intro mult_right_mono) auto
  also have "\<dots> \<le> rnd53 (m / d)" unfolding lo_def by (rule rnd53_bounds [OF md])
  finally have L: "q - rnd53 (m / d) \<le> q * (1 - lo ^ 3 / hi)" by (simp add: right_diff_distrib)
  have "q * (hi ^ 3 / lo - 1) \<le> 100 * (1 / 2 ^ 50)" "q * (1 - lo ^ 3 / hi) \<le> 100 * (1 / 2 ^ 50)"
    using q by (intro mult_mono; simp add: lo_def hi_def power3_eq_cube)+
  with U L have "\<bar>rnd53 (m / d) - q\<bar> \<le> 100 * (1 / 2 ^ 50)" by linarith
  then show ?thesis by (simp add: q_def a_def m_def d_def)
qed

section \<open>The unit of the bit rate\<close>

lemma scale_loop_spec:
  assumes "u < 4" and "scale_loop v u = (r, u')"
  shows "u \<le> u' \<and> u' < 4 \<and> unat r = unat v div 1000 ^ (u' - u) \<and> (r \<le> 1000 \<or> u' = 3)
       \<and> (u < u' \<longrightarrow> 1000 < unat v div 1000 ^ (u' - u - 1))"
  using assms
proof (induction v u rule: scale_loop.induct)
  case (1 v u)
  show ?case
  proof (cases "v > 1000 \<and> u + 1 < length units")
    case True
    then have u: "u + 1 < 4" and v: "1000 < unat v"
      by (simp_all add: units_def word_less_nat_alt)
    from True "1.prems"(2) have "scale_loop (v div 1000) (u + 1) = (r, u')"
      by (simp add: scale_loop.simps [of v u])
    from "1.IH" [OF True u this]
    have IH: "u + 1 \<le> u'" "u' < 4" "unat r = unat v div 1000 div 1000 ^ (u' - (u + 1))"
      "r \<le> 1000 \<or> u' = 3" "u + 1 < u' \<longrightarrow> 1000 < unat v div 1000 div 1000 ^ (u' - (u + 1) - 1)"
      by (simp_all add: unat_div)
    have e: "u' - u = Suc (u' - (u + 1))" using IH(1) by simp
    have div: "unat v div 1000 ^ Suc k = unat v div 1000 div 1000 ^ k" for k
      by (simp add: div_mult2_eq)
    have "1000 < unat v div 1000 ^ (u' - u - 1)"
    proof (cases "u' = u + 1")
      case True
      with v show ?thesis by simp
    next
      case False
      define k where "k = u' - (u + 1) - 1"
      have k: "u' - u - 1 = Suc k" using IH(1) False by (simp add: k_def)
      have "1000 < unat v div 1000 div 1000 ^ k" using IH(1,5) False by (simp add: k_def)
      then show ?thesis unfolding k div .
    qed
    with IH e div show ?thesis by auto
  next
    case False
    with "1.prems" show ?thesis
      by (auto simp: scale_loop.simps [of v u] units_def)
  qed
qed

section \<open>Properties\<close>

lemma round_half_even_nonneg: "0 \<le> x \<Longrightarrow> 0 \<le> round_half_even x"
proof -
  assume "0 \<le> x"
  with round_half_even_error [of x] have "- 1 < (of_int (round_half_even x) :: rat)" by linarith
  then show ?thesis by linarith
qed

text \<open>The integer printed for a thread with \<open>b\<close> of \<open>t\<close> bytes.\<close>

lemma displayed_share:
  assumes le: "unat b \<le> unat t"
  defines "p \<equiv> nat (round_half_even (ingress_share b t))"
  shows "p \<le> 100"
    and "t \<noteq> 0 \<Longrightarrow> \<bar>rat_of_nat p - 100 * rat_of_nat (unat b) / rat_of_nat (unat t)\<bar> \<le> 1 / 2 + 1 / 2 ^ 43"
    and "t = 0 \<Longrightarrow> p = 0"
proof -
  define B T :: rat where "B = of_int (uint b)" and "T = of_int (uint t)"
  have of_nat: "rat_of_nat (unat b) = B" "rat_of_nat (unat t) = T"
    by (simp_all add: B_def T_def)
  have B: "0 \<le> B" unfolding B_def by (rule of_int_nonneg) simp
  have BT: "B \<le> T" unfolding of_nat [symmetric] by (rule of_nat_mono [OF le])
  have zero: "t = 0 \<Longrightarrow> p = 0"
    by (simp add: p_def ingress_share_def round_half_even_def)
  have main: "\<bar>rat_of_nat p - 100 * B / T\<bar> \<le> 1 / 2 + 1 / 2 ^ 43 \<and> p \<le> 100" if t: "t \<noteq> 0"
  proof -
    have "0 < unat t" using t by (simp add: unat_gt_0)
    then have "0 < rat_of_nat (unat t)" by (rule of_nat_0_less_iff [THEN iffD2])
    then have T: "0 < T" unfolding of_nat .
    define c where "c = ingress_share b t"
    have c: "\<bar>c - 100 * B / T\<bar> \<le> 1 / 2 ^ 43"
      using rounded_share_error [OF B BT T] t by (simp add: c_def ingress_share_def B_def T_def)
    have q: "0 \<le> 100 * B / T" "100 * B / T \<le> 100" using B BT T by (simp_all add: field_simps)
    have r: "\<bar>of_int (round_half_even c) - 100 * B / T\<bar> \<le> 1 / 2 + 1 / 2 ^ 43"
      using round_half_even_error [of c] c by linarith
    have "(1 :: rat) / 2 + 1 / 2 ^ 43 < 1" by simp
    with r have "\<bar>of_int (round_half_even c) - 100 * B / T\<bar> < 1" by (rule order_le_less_trans)
    with q have "- 1 < (of_int (round_half_even c) :: rat)" "(of_int (round_half_even c) :: rat) < 101"
      by (auto simp only: abs_less_iff)
    then have "0 \<le> round_half_even c" "round_half_even c \<le> 100" by linarith+
    with r show ?thesis by (simp add: p_def c_def)
  qed
  show "p \<le> 100" using main zero by (cases "t = 0") auto
  show "t \<noteq> 0 \<Longrightarrow> \<bar>rat_of_nat p - 100 * rat_of_nat (unat b) / rat_of_nat (unat t)\<bar> \<le> 1 / 2 + 1 / 2 ^ 43"
    using main unfolding of_nat by blast
  show "t = 0 \<Longrightarrow> p = 0" by (rule zero)
qed

text \<open>C33. The distribution printed with the statistics has one integer per thread, in thread
  order, separated by \<open>%/\<close>; each is at most 100 and is the thread's true share of the ingress
  bytes up to the rounding to an integer, in spite of the double arithmetic; with no ingress
  at all every share is 0. (The byte counters must not have wrapped in sum.)\<close>

theorem ingress_distribution_accurate:
  assumes "sum_list (map (unat \<circ> bytes \<circ> stat_in) pts) < 2 ^ 64"
    and "load_statistics pts = (rest, all, distr)"
  shows "\<exists>ps. length ps = length pts \<and> distr = butlast (concat (map (\<lambda>p. show_nat p @ ''%/'') ps))
    \<and> (\<forall>i < length pts. ps ! i \<le> 100 \<and>
         (if bytes (stat_in all) = 0 then ps ! i = 0
          else \<bar>rat_of_nat (ps ! i) - 100 * rat_of_nat (unat (bytes (stat_in (pts ! i))))
                                    / rat_of_nat (unat (bytes (stat_in all)))\<bar> \<le> 1 / 2 + 1 / 2 ^ 43))"
proof -
  let ?t = "bytes (stat_in all)"
  define ps where
    "ps = map (\<lambda>st. nat (round_half_even (ingress_share (bytes (stat_in st)) ?t))) pts"
  from assms(2) have all: "all = total_of pts" and distr: "distr = ingress_distribution pts all"
    by (auto simp: load_statistics_eq)
  have t: "unat ?t = sum_list (map (unat \<circ> bytes \<circ> stat_in) pts)"
    using unat_sum_list [of "map (bytes \<circ> stat_in) pts"] assms(1)
    by (simp add: all total_of_def comp_assoc)
  have le: "unat (bytes (stat_in (pts ! i))) \<le> unat ?t" if "i < length pts" for i
    unfolding t using that by (intro member_le_sum_list) (auto intro!: image_eqI [where x = "pts ! i"])
  have "distr = butlast (concat (map (\<lambda>p. show_nat p @ ''%/'') ps))"
    by (simp add: distr ingress_distribution_def Let_def ps_def format_share_def comp_def)
  moreover have "length ps = length pts" by (simp add: ps_def)
  moreover have "ps ! i \<le> 100 \<and>
         (if ?t = 0 then ps ! i = 0
          else \<bar>rat_of_nat (ps ! i) - 100 * rat_of_nat (unat (bytes (stat_in (pts ! i)))) / rat_of_nat (unat ?t)\<bar>
               \<le> 1 / 2 + 1 / 2 ^ 43)" if i: "i < length pts" for i
    using displayed_share [OF le [OF i]] i by (simp add: ps_def)
  ultimately show ?thesis by blast
qed

lemma ingress_distribution_accurate_witness:
  "\<exists>pts rest all distr ps. length pts = 3
     \<and> sum_list (map (unat \<circ> bytes \<circ> stat_in) pts) < 2 ^ 64
     \<and> load_statistics pts = (rest, all, distr)
     \<and> length ps = length pts \<and> distr = butlast (concat (map (\<lambda>p. show_nat p @ ''%/'') ps))
     \<and> (\<forall>i < length pts. ps ! i \<le> 100)"
proof -
  define st where "st n = statistics_zero\<lparr>stat_in := \<lparr>packets = 1, bytes = n\<rparr>\<rparr>" for n
  define pts where "pts = [st 10, st 20, st 40]"
  obtain rest all distr where l: "load_statistics pts = (rest, all, distr)" by (cases "load_statistics pts")
  have s: "sum_list (map (unat \<circ> bytes \<circ> stat_in) pts) < 2 ^ 64" by (simp add: pts_def st_def)
  have "length pts = 3" by (simp add: pts_def)
  with ingress_distribution_accurate [OF s l] s l show ?thesis by blast
qed

text \<open>The bit rate: for a byte count whose number of bits fits in \<open>size_t\<close>, the result
  is the number of bits per second divided by the largest power of 1000 (at most \<open>Gbps\<close>) that
  the loop reaches: it stops at the first value not above 1000, so a scaled value is positive
  and only \<open>Gbps\<close> can show more than 1000.\<close>

theorem bits_per_sec_scaled:
  assumes "interval \<noteq> 0" and "8 * unat n < 2 ^ 64"
  shows "\<exists>r u. bits_per_sec n interval = Inr (r, units ! u) \<and> u < 4
    \<and> unat r = 8 * unat n div unat interval div 1000 ^ u
    \<and> (r \<le> 1000 \<or> u = 3)
    \<and> (0 < u \<longrightarrow> 1000 < 8 * unat n div unat interval div 1000 ^ (u - 1))"
proof -
  let ?v = "8 * n div interval"
  obtain r u where ru: "scale_loop ?v 0 = (r, u)" by (cases "scale_loop ?v 0")
  have v: "unat ?v = 8 * unat n div unat interval"
    using assms(2) by (simp add: unat_div unat_word_ariths)
  from scale_loop_spec [OF _ ru] have "u < 4" "unat r = unat ?v div 1000 ^ u"
    "r \<le> 1000 \<or> u = 3" "0 < u \<longrightarrow> 1000 < unat ?v div 1000 ^ (u - 1)" by auto
  with assms(1) ru show ?thesis
    unfolding v by (intro exI [of _ r] exI [of _ u]) (simp add: bits_per_sec_def)
qed

lemma bits_per_sec_scaled_witness:
  "\<exists>r u. bits_per_sec 1250000 5 = Inr (r, units ! u) \<and> u < 4
    \<and> unat r = 8 * 1250000 div 5 div 1000 ^ u \<and> (r \<le> 1000 \<or> u = 3)"
proof -
  have "(5 :: u64) \<noteq> 0" "8 * unat (1250000 :: u64) < 2 ^ 64" by simp_all
  from bits_per_sec_scaled [OF this] show ?thesis by auto
qed

text \<open>Without the bound the product wraps: at \<open>2 ^ 61\<close> bytes the rate shown is zero.\<close>

lemma bits_per_sec_wraps: "bits_per_sec (2 ^ 61) 5 = Inr (0, ''bps'')"
  by (simp add: bits_per_sec_def scale_loop.simps units_def)

text \<open>The line printed, when the interval is not zero.\<close>

lemma print_statistics_returns:
  "interval \<noteq> 0 \<Longrightarrow>
     \<exists>line. print_statistics interval pts = Inr (line, replicate (length pts) statistics_zero)"
  by (auto simp: print_statistics_def load_statistics_eq bits_per_sec_def split: prod.split)

end
