(* ===== verification/Relay.thy ===== *)
theory Relay
  imports Statistics
begin

text \<open>
  The business logic of \<^verbatim>\<open>urn/relay.hpp\<close>: class \<open>urn::relay<Library, MultiThreaded>\<close>. The
  template parameter \<open>Library\<close> is a record of the operations the class calls; the state of
  the library's objects (sockets, buffers, the worker the thread-local pointer designates) is
  the field \<open>lib\<close> of the relay. \<open>start_send\<close> acts on the whole relay, since a library may call
  back into it (\<open>on_session_sent\<close>) before it returns. Threads are numbers; the thread-local
  \<open>this_thread_statistics_\<close> is a map from threads to indices of \<open>per_thread_statistics_\<close>.

  The locking of \<open>sessions_mutex_\<close> is the subject of theory \<open>Session_Concurrency\<close>; here each
  operation is one step.
\<close>

section \<open>State\<close>

record 'ep session =
  client_endpoint :: 'ep

record ('ep, 'l) relay =
  sessions :: "u64 \<rightharpoonup> 'ep session"
  per_thread_statistics :: "statistics list"
  this_thread_statistics :: "nat \<rightharpoonup> nat"
  lib :: 'l

record ('ep, 'p, 'l) library =
  packet_data :: "'l \<Rightarrow> 'p \<Rightarrow> u8 list"
  packet_size :: "'p \<Rightarrow> u64"
  client_start_receive :: "'l \<Rightarrow> 'l"
  peer_start_receive :: "'l \<Rightarrow> 'l"
  session_start_send :: "nat \<Rightarrow> 'ep session \<Rightarrow> 'p \<Rightarrow> ('ep, 'l) relay \<Rightarrow> ('ep, 'l) relay res"

definition relay_init :: "u16 \<Rightarrow> 'l \<Rightarrow> ('ep, 'l) relay" where
  "relay_init thread_count l =
     \<lparr>sessions = Map.empty,
      per_thread_statistics = replicate (unat thread_count) statistics_zero,
      this_thread_statistics = Map.empty, lib = l\<rparr>"

section \<open>Operations\<close>

definition on_thread_start :: "nat \<Rightarrow> u16 \<Rightarrow> ('ep, 'l) relay \<Rightarrow> ('ep, 'l) relay res" where
  "on_thread_start t thread_index r =
     (if unat thread_index < length (per_thread_statistics r)
      then Inr (r\<lparr>this_thread_statistics := (this_thread_statistics r)(t \<mapsto> unat thread_index)\<rparr>)
      else Inl Out_of_range)"

text \<open>A write through \<open>this_thread_statistics_\<close> by thread \<open>t\<close>.\<close>

definition update_this_thread ::
  "nat \<Rightarrow> (statistics \<Rightarrow> statistics) \<Rightarrow> ('ep, 'l) relay \<Rightarrow> ('ep, 'l) relay res"
where
  "update_this_thread t f r =
     (case this_thread_statistics r t of
        None \<Rightarrow> Inl Null_deref
      | Some i \<Rightarrow>
          if i < length (per_thread_statistics r)
          then Inr (r\<lparr>per_thread_statistics :=
                        (per_thread_statistics r)[i := f (per_thread_statistics r ! i)]\<rparr>)
          else Inl Out_of_bounds)"

definition count_in :: "nat \<Rightarrow> u64 \<Rightarrow> ('ep, 'l) relay \<Rightarrow> ('ep, 'l) relay res" where
  "count_in t n = update_this_thread t (\<lambda>st. st\<lparr>stat_in := update_io_statistics (stat_in st) n\<rparr>)"

definition count_out :: "nat \<Rightarrow> u64 \<Rightarrow> ('ep, 'l) relay \<Rightarrow> ('ep, 'l) relay res" where
  "count_out t n = update_this_thread t (\<lambda>st. st\<lparr>stat_out := update_io_statistics (stat_out st) n\<rparr>)"

definition get_session_id :: "u8 list \<Rightarrow> u64 res" where
  "get_session_id bs = (if length bs < 8 then Inl Out_of_bounds else Inr (load_le (take 8 bs)))"

definition try_register_session :: "u64 \<Rightarrow> 'ep \<Rightarrow> ('ep, 'l) relay \<Rightarrow> bool \<times> ('ep, 'l) relay" where
  "try_register_session i src r =
     (case sessions r i of
        None \<Rightarrow> (True, r\<lparr>sessions := (sessions r)(i \<mapsto> \<lparr>client_endpoint = src\<rparr>)\<rparr>)
      | Some _ \<Rightarrow> (False, r))"

definition find_session :: "u64 \<Rightarrow> ('ep, 'l) relay \<Rightarrow> 'ep session option" where
  "find_session i r = sessions r i"

definition restart_peer_receive :: "('ep, 'p, 'l) library \<Rightarrow> ('ep, 'l) relay \<Rightarrow> ('ep, 'l) relay" where
  "restart_peer_receive L r = r\<lparr>lib := peer_start_receive L (lib r)\<rparr>"

definition restart_client_receive :: "('ep, 'p, 'l) library \<Rightarrow> ('ep, 'l) relay \<Rightarrow> ('ep, 'l) relay" where
  "restart_client_receive L r = r\<lparr>lib := client_start_receive L (lib r)\<rparr>"

definition on_client_received ::
  "('ep, 'p, 'l) library \<Rightarrow> nat \<Rightarrow> 'ep \<Rightarrow> 'p \<Rightarrow> ('ep, 'l) relay \<Rightarrow> ('ep, 'l) relay res"
where
  "on_client_received L t src p r =
     bindR (count_in t (packet_size L p) r) (\<lambda>r.
     bindR (if packet_size L p = 8
            then bindR (get_session_id (packet_data L (lib r) p)) (\<lambda>i.
                 case try_register_session i src r of (registered, r) \<Rightarrow>
                 Inr (if registered then restart_peer_receive L r else r))
            else Inr r) (\<lambda>r.
     Inr (restart_client_receive L r)))"

definition on_peer_received ::
  "('ep, 'p, 'l) library \<Rightarrow> nat \<Rightarrow> 'p \<Rightarrow> ('ep, 'l) relay \<Rightarrow> (bool \<times> ('ep, 'l) relay) res"
where
  "on_peer_received L t p r =
     bindR (count_in t (packet_size L p) r) (\<lambda>r.
     bindR (if 8 \<le> packet_size L p
            then bindR (get_session_id (packet_data L (lib r) p)) (\<lambda>i. Inr (find_session i r))
            else Inr None) (\<lambda>found.
     case found of
       Some session \<Rightarrow> bindR (session_start_send L t session p r) (\<lambda>r. Inr (True, r))
     | None \<Rightarrow> Inr (False, restart_peer_receive L r)))"

text \<open>The overload that takes what to do with the session.\<close>

definition on_peer_received_with ::
  "('ep, 'p, 'l) library \<Rightarrow> nat \<Rightarrow> 'p \<Rightarrow> ('ep session \<Rightarrow> ('ep, 'l) relay \<Rightarrow> ('ep, 'l) relay res)
     \<Rightarrow> ('ep, 'l) relay \<Rightarrow> (bool \<times> ('ep, 'l) relay) res"
where
  "on_peer_received_with L t p with_session r =
     bindR (count_in t (packet_size L p) r) (\<lambda>r.
     bindR (if 8 \<le> packet_size L p
            then bindR (get_session_id (packet_data L (lib r) p)) (\<lambda>i. Inr (find_session i r))
            else Inr None) (\<lambda>found.
     case found of
       Some session \<Rightarrow> bindR (with_session session r) (\<lambda>r. Inr (True, r))
     | None \<Rightarrow> Inr (False, restart_peer_receive L r)))"

text \<open>Both overloads: the session argument is not used, and only the size of the packet is
  read. The parameter is \<open>peer_.start_receive\<close>: a library whose \<open>start_send\<close> calls back gives its
  own.\<close>

definition on_session_sent ::
  "('l \<Rightarrow> 'l) \<Rightarrow> nat \<Rightarrow> u64 \<Rightarrow> ('ep, 'l) relay \<Rightarrow> ('ep, 'l) relay res"
where
  "on_session_sent start_receive t size_of_packet r =
     bindR (count_out t size_of_packet r) (\<lambda>r. Inr (r\<lparr>lib := start_receive (lib r)\<rparr>))"

definition receive_peer_data ::
  "('ep, 'p, 'l) library \<Rightarrow> nat \<Rightarrow> 'p \<Rightarrow> ('ep, 'l) relay \<Rightarrow> ('ep session option \<times> ('ep, 'l) relay) res"
where
  "receive_peer_data L t p r =
     bindR (count_in t (packet_size L p) r) (\<lambda>r.
     if 8 \<le> packet_size L p
     then bindR (get_session_id (packet_data L (lib r) p)) (\<lambda>i. Inr (find_session i r, r))
     else Inr (None, r))"

definition on_statistics_tick :: "u64 \<Rightarrow> ('ep, 'l) relay \<Rightarrow> (string \<times> ('ep, 'l) relay) res" where
  "on_statistics_tick interval r =
     bindR (print_statistics interval (per_thread_statistics r)) (\<lambda>(line, rest).
     Inr (line, r\<lparr>per_thread_statistics := rest\<rparr>))"

section \<open>Frame conditions of the counters\<close>

named_theorems frame \<open>what an operation leaves unchanged\<close>

definition thread_ok :: "nat \<Rightarrow> ('ep, 'l) relay \<Rightarrow> bool" where
  "thread_ok t r \<longleftrightarrow> this_thread_statistics r t \<noteq> None
     \<and> the (this_thread_statistics r t) < length (per_thread_statistics r)"

lemma update_this_thread_ok:
  "thread_ok t r \<Longrightarrow> \<exists>sts. update_this_thread t f r = Inr (r\<lparr>per_thread_statistics := sts\<rparr>)
                     \<and> length sts = length (per_thread_statistics r)"
  by (auto simp: thread_ok_def update_this_thread_def split: option.splits)

lemma update_this_thread_frame [frame]:
  assumes "update_this_thread t f r = Inr r'"
  shows "sessions r' = sessions r" "lib r' = lib r"
    "this_thread_statistics r' = this_thread_statistics r"
    "length (per_thread_statistics r') = length (per_thread_statistics r)"
  using assms by (auto simp: update_this_thread_def split: option.splits if_splits)

lemmas count_defs = count_in_def count_out_def

lemma count_frame [frame]:
  "count_in t n r = Inr r' \<Longrightarrow> sessions r' = sessions r \<and> lib r' = lib r
     \<and> this_thread_statistics r' = this_thread_statistics r
     \<and> length (per_thread_statistics r') = length (per_thread_statistics r)"
  "count_out t n r = Inr r' \<Longrightarrow> sessions r' = sessions r \<and> lib r' = lib r
     \<and> this_thread_statistics r' = this_thread_statistics r
     \<and> length (per_thread_statistics r') = length (per_thread_statistics r)"
  by (auto simp: count_defs dest: update_this_thread_frame)

lemma count_returns:
  "thread_ok t r \<Longrightarrow> \<exists>r'. count_in t n r = Inr r'"
  "thread_ok t r \<Longrightarrow> \<exists>r'. count_out t n r = Inr r'"
  by (auto simp: count_defs dest: update_this_thread_ok)

lemma restart_simps [simp]:
  "sessions (restart_peer_receive L r) = sessions r"
  "sessions (restart_client_receive L r) = sessions r"
  "per_thread_statistics (restart_peer_receive L r) = per_thread_statistics r"
  "per_thread_statistics (restart_client_receive L r) = per_thread_statistics r"
  "this_thread_statistics (restart_peer_receive L r) = this_thread_statistics r"
  "this_thread_statistics (restart_client_receive L r) = this_thread_statistics r"
  "lib (restart_peer_receive L r) = peer_start_receive L (lib r)"
  "lib (restart_client_receive L r) = client_start_receive L (lib r)"
  by (simp_all add: restart_peer_receive_def restart_client_receive_def)

lemma try_register_frame [simp]:
  "per_thread_statistics (snd (try_register_session i src r)) = per_thread_statistics r"
  "this_thread_statistics (snd (try_register_session i src r)) = this_thread_statistics r"
  "lib (snd (try_register_session i src r)) = lib r"
  by (simp_all add: try_register_session_def split: option.split)

lemma try_register_sessions:
  "sessions (snd (try_register_session i src r)) =
     (if sessions r i = None then (sessions r)(i \<mapsto> \<lparr>client_endpoint = src\<rparr>) else sessions r)"
  "fst (try_register_session i src r) \<longleftrightarrow> sessions r i = None"
  by (auto simp: try_register_session_def split: option.split)

lemma thread_ok_simps [simp]:
  "thread_ok t (restart_peer_receive L r) = thread_ok t r"
  "thread_ok t (restart_client_receive L r) = thread_ok t r"
  "thread_ok t (snd (try_register_session i src r)) = thread_ok t r"
  "thread_ok t (r\<lparr>lib := l\<rparr>) = thread_ok t r"
  "thread_ok t (r\<lparr>sessions := m\<rparr>) = thread_ok t r"
  by (simp_all add: thread_ok_def)

lemma thread_ok_count [frame]:
  "count_in u n r = Inr r' \<Longrightarrow> thread_ok t r' = thread_ok t r"
  "count_out u n r = Inr r' \<Longrightarrow> thread_ok t r' = thread_ok t r"
  by (auto simp: thread_ok_def dest!: count_frame split: option.split)

text \<open>The client handler with its branches laid out.\<close>

lemma on_client_received_eq:
  "on_client_received L t src p r =
     bindR (count_in t (packet_size L p) r) (\<lambda>r1.
       if packet_size L p = 8
       then bindR (get_session_id (packet_data L (lib r1) p)) (\<lambda>i.
              Inr (if sessions r1 i = None
                   then restart_client_receive L (restart_peer_receive L
                          (r1\<lparr>sessions := (sessions r1)(i \<mapsto> \<lparr>client_endpoint = src\<rparr>)\<rparr>))
                   else restart_client_receive L r1))
       else Inr (restart_client_receive L r1))"
  unfolding on_client_received_def
  by (rule bindR_cong [OF refl])
    (auto simp: bindR_def try_register_session_def split: sum.split option.split)

lemma on_session_sent_returns:
  assumes "thread_ok t r"
  shows "\<exists>sts. on_session_sent f t n r = Inr (r\<lparr>per_thread_statistics := sts, lib := f (lib r)\<rparr>)
           \<and> length sts = length (per_thread_statistics r)
           \<and> map stat_in sts = map stat_in (per_thread_statistics r)"
  using assms
  by (auto simp: on_session_sent_def count_out_def update_this_thread_def thread_ok_def map_update)

text \<open>The two overloads of \<open>on_peer_received\<close> are one operation.\<close>

lemma on_peer_received_eq_with:
  "on_peer_received L t p = on_peer_received_with L t p (\<lambda>session. session_start_send L t session p)"
  by (simp add: fun_eq_iff on_peer_received_def on_peer_received_with_def)

section \<open>Abstract specification: registrations and forwarding\<close>

text \<open>
  What the relay promises (README): a client registers a 64-bit identifier with a datagram of
  exactly eight bytes, and the first registration of an identifier stands; a peer's datagram
  that starts with a registered identifier is forwarded, whole, to the endpoint registered;
  every other datagram has no effect but on the counters.
\<close>

definition registered :: "('ep, 'l) relay \<Rightarrow> (u64 \<rightharpoonup> 'ep)" where
  "registered r = map_option client_endpoint \<circ> sessions r"

definition spec_client :: "'ep \<Rightarrow> u8 list \<Rightarrow> (u64 \<rightharpoonup> 'ep) \<Rightarrow> (u64 \<rightharpoonup> 'ep)" where
  "spec_client src bs m =
     (if length bs = 8 \<and> m (load_le bs) = None then m(load_le bs \<mapsto> src) else m)"

definition spec_peer :: "(u64 \<rightharpoonup> 'ep) \<Rightarrow> u8 list \<Rightarrow> ('ep \<times> u8 list) option" where
  "spec_peer m bs =
     (if 8 \<le> length bs then map_option (\<lambda>ep. (ep, bs)) (m (load_le (take 8 bs))) else None)"

fun spec_peers :: "(u64 \<rightharpoonup> 'ep) \<Rightarrow> u8 list list \<Rightarrow> ('ep \<times> u8 list) list" where
  "spec_peers m [] = []"
| "spec_peers m (bs # bss) =
     (case spec_peer m bs of None \<Rightarrow> [] | Some x \<Rightarrow> [x]) @ spec_peers m bss"

definition spec_clients :: "('ep \<times> u8 list) list \<Rightarrow> (u64 \<rightharpoonup> 'ep) \<Rightarrow> (u64 \<rightharpoonup> 'ep)" where
  "spec_clients = fold (\<lambda>(src, bs). spec_client src bs)"

lemma registered_frame: "sessions r' = sessions r \<Longrightarrow> registered r' = registered r"
  by (simp add: registered_def)

lemma spec_peers_append: "spec_peers m (xs @ ys) = spec_peers m xs @ spec_peers m ys"
  by (induction xs) simp_all

lemma length_spec_peers: "length (spec_peers m bss) \<le> length bss"
  by (induction bss) (auto split: option.split)

section \<open>What the relay needs of a library\<close>

text \<open>
  \<open>valid l p\<close> says that packet \<open>p\<close> is backed by the memory of \<open>l\<close>. A forwarding library
  also queues, in order, what \<open>start_send\<close> is given: \<open>outbox\<close> is the queue of endpoints and
  contents, \<open>room\<close> how many more sends it can take. A zero-copy library does not write to the
  packet memory while it queues, so a whole batch of packets can be forwarded from it.
\<close>

locale relay_library =
  fixes L :: "('ep, 'p, 'l) library"
    and valid :: "'l \<Rightarrow> 'p \<Rightarrow> bool"
  assumes data_size: "valid l p \<Longrightarrow> length (packet_data L l p) = unat (packet_size L p)"
begin

lemma size_cases:
  assumes "valid l p"
  shows "packet_size L p = 8 \<longleftrightarrow> length (packet_data L l p) = 8"
    and "8 \<le> packet_size L p \<longleftrightarrow> 8 \<le> length (packet_data L l p)"
proof -
  show "packet_size L p = 8 \<longleftrightarrow> length (packet_data L l p) = 8"
    using data_size [OF assms] by (auto simp: word_unat_eq_iff)
  show "8 \<le> packet_size L p \<longleftrightarrow> 8 \<le> length (packet_data L l p)"
    using data_size [OF assms] by (simp add: word_le_nat_alt)
qed

lemma on_client_received_refines:
  assumes ok: "thread_ok t r" and valid: "valid (lib r) p"
  shows "\<exists>r'. on_client_received L t src p r = Inr r'
    \<and> registered r' = spec_client src (packet_data L (lib r) p) (registered r)
    \<and> thread_ok t r'
    \<and> lib r' \<in> {client_start_receive L (lib r), client_start_receive L (peer_start_receive L (lib r))}"
proof -
  from count_returns(1) [OF ok] obtain r1 where r1: "count_in t (packet_size L p) r = Inr r1" by blast
  note f = count_frame(1) [OF r1]
  from ok thread_ok_count(1) [OF r1] have ok1: "thread_ok t r1" by simp
  let ?bs = "packet_data L (lib r) p"
  show ?thesis
  proof (cases "length ?bs = 8")
    case False
    then show ?thesis
      using r1 f ok1 size_cases(1) [OF valid]
      by (simp add: on_client_received_def spec_client_def registered_def)
  next
    case True
    define reg where "reg = try_register_session (load_le ?bs) src r1"
    have run: "on_client_received L t src p r =
        Inr (restart_client_receive L
              (if fst reg then restart_peer_receive L (snd reg) else snd reg))"
      using r1 f True size_cases(1) [OF valid]
      by (simp add: on_client_received_def get_session_id_def reg_def split: prod.split)
    have sess: "sessions (snd reg) = (if sessions r (load_le ?bs) = None
        then (sessions r)(load_le ?bs \<mapsto> \<lparr>client_endpoint = src\<rparr>) else sessions r)"
      using f by (simp add: reg_def try_register_sessions)
    have "registered (snd reg) = spec_client src ?bs (registered r)"
      using True sess by (auto simp: registered_def spec_client_def fun_eq_iff)
    moreover have "thread_ok t (snd reg)" using ok1 by (simp add: reg_def thread_ok_def)
    moreover have "lib (snd reg) = lib r" using f by (simp add: reg_def)
    ultimately show ?thesis
      unfolding run by (auto simp: registered_def)
  qed
qed

lemma on_peer_received_cases:
  assumes ok: "thread_ok t r" and valid: "valid (lib r) p"
  defines "bs \<equiv> packet_data L (lib r) p"
  shows "\<exists>r1. sessions r1 = sessions r \<and> lib r1 = lib r \<and> thread_ok t r1
    \<and> count_in t (packet_size L p) r = Inr r1
    \<and> on_peer_received L t p r =
        (if 8 \<le> length bs
         then case sessions r (load_le (take 8 bs)) of
                None \<Rightarrow> Inr (False, restart_peer_receive L r1)
              | Some s \<Rightarrow> bindR (session_start_send L t s p r1) (\<lambda>r'. Inr (True, r'))
         else Inr (False, restart_peer_receive L r1))"
proof -
  from count_returns(1) [OF ok] obtain r1 where r1: "count_in t (packet_size L p) r = Inr r1" by blast
  note f = count_frame(1) [OF r1]
  from ok thread_ok_count(1) [OF r1] have ok1: "thread_ok t r1" by simp
  show ?thesis
    using r1 f ok1 size_cases(2) [OF valid]
    by (intro exI [of _ r1])
      (auto simp: on_peer_received_def get_session_id_def find_session_def bs_def split: option.split)
qed

end

locale forwarding_library = relay_library L valid
  for L :: "('ep, 'p, 'l) library" and valid +
  fixes outbox :: "'l \<Rightarrow> ('ep \<times> u8 list) list"
    and room :: "'l \<Rightarrow> nat"
  assumes receive_outbox:
      "outbox (client_start_receive L l) = outbox l" "outbox (peer_start_receive L l) = outbox l"
    and receive_room:
      "room (client_start_receive L l) = room l" "room (peer_start_receive L l) = room l"
    and start_send:
      "valid (lib r) p \<Longrightarrow> 0 < room (lib r) \<Longrightarrow> thread_ok t r \<Longrightarrow>
       \<exists>r'. session_start_send L t s p r = Inr r'
         \<and> outbox (lib r') = outbox (lib r) @ [(client_endpoint s, packet_data L (lib r) p)]
         \<and> sessions r' = sessions r \<and> thread_ok t r' \<and> room (lib r) \<le> Suc (room (lib r'))"
begin

lemma on_peer_received_refines:
  assumes ok: "thread_ok t r" and valid: "valid (lib r) p" and room: "0 < room (lib r)"
  shows "\<exists>forwarded r'. on_peer_received L t p r = Inr (forwarded, r')
    \<and> registered r' = registered r \<and> thread_ok t r' \<and> room (lib r) \<le> Suc (room (lib r'))
    \<and> (case spec_peer (registered r) (packet_data L (lib r) p) of
         None \<Rightarrow> \<not> forwarded \<and> outbox (lib r') = outbox (lib r)
       | Some x \<Rightarrow> forwarded \<and> outbox (lib r') = outbox (lib r) @ [x])"
proof -
  let ?bs = "packet_data L (lib r) p"
  from on_peer_received_cases [OF ok valid] obtain r1 where
    r1: "sessions r1 = sessions r" "lib r1 = lib r" "thread_ok t r1" and
    run: "on_peer_received L t p r =
        (if 8 \<le> length ?bs
         then case sessions r (load_le (take 8 ?bs)) of
                None \<Rightarrow> Inr (False, restart_peer_receive L r1)
              | Some s \<Rightarrow> bindR (session_start_send L t s p r1) (\<lambda>r'. Inr (True, r'))
         else Inr (False, restart_peer_receive L r1))"
    by blast
  show ?thesis
  proof (cases "spec_peer (registered r) ?bs")
    case None
    then have "on_peer_received L t p r = Inr (False, restart_peer_receive L r1)"
      unfolding run by (simp add: spec_peer_def registered_def split: if_splits)
    with None r1 show ?thesis by (auto simp: registered_def receive_outbox receive_room)
  next
    case (Some x)
    then obtain s where s: "8 \<le> length ?bs" "sessions r (load_le (take 8 ?bs)) = Some s"
      "x = (client_endpoint s, ?bs)"
      by (auto simp: spec_peer_def registered_def split: if_splits)
    have "valid (lib r1) p" "0 < room (lib r1)" using valid room r1(2) by simp_all
    from start_send [OF this r1(3), of s] obtain r' where
      r': "session_start_send L t s p r1 = Inr r'" "outbox (lib r') = outbox (lib r) @ [x]"
      "sessions r' = sessions r" "thread_ok t r'" "room (lib r) \<le> Suc (room (lib r'))"
      using r1(1,2) s(3) by metis
    from r'(1) s(1,2) have "on_peer_received L t p r = Inr (True, r')" unfolding run by simp
    with r' Some show ?thesis by (auto simp: registered_def)
  qed
qed

end

text \<open>A batch of packets, one \<open>on_peer_received\<close> after the other.\<close>

definition peer_batch ::
  "('ep, 'p, 'l) library \<Rightarrow> nat \<Rightarrow> 'p list \<Rightarrow> ('ep, 'l) relay \<Rightarrow> ('ep, 'l) relay res"
where
  "peer_batch L t = foldR (\<lambda>p r. bindR (on_peer_received L t p r) (\<lambda>(_, r). Inr r))"

locale zero_copy_library = forwarding_library L valid outbox room
  for L :: "('ep, 'p, 'l) library" and valid and outbox and room +
  assumes receive_memory:
      "packet_data L (peer_start_receive L l) = packet_data L l"
      "valid (peer_start_receive L l) = valid l"
    and send_memory:
      "session_start_send L t s p r = Inr r' \<Longrightarrow>
       packet_data L (lib r') = packet_data L (lib r) \<and> valid (lib r') = valid (lib r)"
begin

lemma on_peer_received_memory:
  assumes "on_peer_received L t p r = Inr (b, r')"
  shows "packet_data L (lib r') = packet_data L (lib r) \<and> valid (lib r') = valid (lib r)"
  using assms
  by (auto simp: on_peer_received_def receive_memory dest!: count_frame(1) send_memory
      split: option.splits if_splits)

lemma peer_batch_refines:
  assumes "thread_ok t r" and "\<forall>p \<in> set ps. valid (lib r) p" and "length ps \<le> room (lib r)"
  shows "\<exists>r'. peer_batch L t ps r = Inr r' \<and> registered r' = registered r \<and> thread_ok t r'
    \<and> outbox (lib r') = outbox (lib r) @ spec_peers (registered r) (map (packet_data L (lib r)) ps)
    \<and> room (lib r) \<le> length ps + room (lib r')
    \<and> packet_data L (lib r') = packet_data L (lib r)"
  using assms
proof (induction ps arbitrary: r)
  case Nil
  then show ?case by (simp add: peer_batch_def)
next
  case (Cons p ps)
  let ?bs = "packet_data L (lib r) p"
  have "valid (lib r) p" "0 < room (lib r)" using Cons.prems by auto
  from on_peer_received_refines [OF Cons.prems(1) this] obtain b r1 where
    r1: "on_peer_received L t p r = Inr (b, r1)" "registered r1 = registered r" "thread_ok t r1"
      "room (lib r) \<le> Suc (room (lib r1))"
      "outbox (lib r1) = outbox (lib r) @ (case spec_peer (registered r) ?bs of None \<Rightarrow> [] | Some x \<Rightarrow> [x])"
    by (auto split: option.splits)
  note mem = on_peer_received_memory [OF r1(1)]
  have "\<forall>p \<in> set ps. valid (lib r1) p" "length ps \<le> room (lib r1)"
    using Cons.prems mem r1(4) by auto
  from Cons.IH [OF r1(3) this] obtain r' where
    "peer_batch L t ps r1 = Inr r'" "registered r' = registered r1" "thread_ok t r'"
    "outbox (lib r') = outbox (lib r1) @ spec_peers (registered r1) (map (packet_data L (lib r1)) ps)"
    "room (lib r1) \<le> length ps + room (lib r')" "packet_data L (lib r') = packet_data L (lib r1)"
    by blast
  then show ?case
    using r1 mem by (auto simp: peer_batch_def)
qed

end

section \<open>Sequences of calls\<close>

text \<open>Every call a library makes into the relay, with the thread that makes it.\<close>

datatype ('ep, 'p) relay_event =
    Thread_start nat u16
  | Client_received nat 'ep 'p
  | Peer_received nat 'p
  | Peer_data nat 'p
  | Session_sent nat u64
  | Statistics_tick u64

fun relay_step ::
  "('ep, 'p, 'l) library \<Rightarrow> ('ep, 'p) relay_event \<Rightarrow> ('ep, 'l) relay \<Rightarrow> ('ep, 'l) relay res"
where
  "relay_step L (Thread_start t i) r = on_thread_start t i r"
| "relay_step L (Client_received t src p) r = on_client_received L t src p r"
| "relay_step L (Peer_received t p) r = bindR (on_peer_received L t p r) (\<lambda>(_, r). Inr r)"
| "relay_step L (Peer_data t p) r = bindR (receive_peer_data L t p r) (\<lambda>(_, r). Inr r)"
| "relay_step L (Session_sent t n) r = on_session_sent (peer_start_receive L) t n r"
| "relay_step L (Statistics_tick interval) r = bindR (on_statistics_tick interval r) (\<lambda>(_, r). Inr r)"

definition relay_run ::
  "('ep, 'p, 'l) library \<Rightarrow> ('ep, 'p) relay_event list \<Rightarrow> ('ep, 'l) relay \<Rightarrow> ('ep, 'l) relay res"
where
  "relay_run L = foldR (relay_step L)"

text \<open>A library whose \<open>start_send\<close> leaves the session table and the ingress counters alone:
  all it may call back is \<open>on_session_sent\<close>.\<close>

definition send_frame :: "('ep, 'p, 'l) library \<Rightarrow> bool" where
  "send_frame L \<longleftrightarrow> (\<forall>t s p r r'. session_start_send L t s p r = Inr r' \<longrightarrow>
     sessions r' = sessions r
     \<and> map stat_in (per_thread_statistics r') = map stat_in (per_thread_statistics r))"

lemma send_frameD:
  assumes "send_frame L" and "session_start_send L t s p r = Inr r'"
  shows "sessions r' = sessions r"
    and "map stat_in (per_thread_statistics r') = map stat_in (per_thread_statistics r)"
  using assms unfolding send_frame_def by blast+

lemma on_client_received_sessions:
  assumes "on_client_received L t src p r = Inr r'"
  shows "sessions r' = sessions r
       \<or> (\<exists>i. sessions r i = None \<and> sessions r' = (sessions r)(i \<mapsto> \<lparr>client_endpoint = src\<rparr>))"
proof -
  from assms obtain r1 where r1: "count_in t (packet_size L p) r = Inr r1"
    and rest: "(if packet_size L p = 8
       then bindR (get_session_id (packet_data L (lib r1) p)) (\<lambda>i.
              Inr (if sessions r1 i = None
                   then restart_client_receive L (restart_peer_receive L
                          (r1\<lparr>sessions := (sessions r1)(i \<mapsto> \<lparr>client_endpoint = src\<rparr>)\<rparr>))
                   else restart_client_receive L r1))
       else Inr (restart_client_receive L r1)) = Inr r'"
    unfolding on_client_received_eq by (rule bindR_InrE)
  show ?thesis
  proof (cases "sessions r' = sessions r")
    case False
    with rest count_frame(1) [OF r1] obtain i where "sessions r i = None"
      "sessions r' = (sessions r)(i \<mapsto> \<lparr>client_endpoint = src\<rparr>)"
      by (auto split: if_splits)
    then show ?thesis by blast
  qed simp
qed

lemma on_peer_received_sessions:
  assumes "send_frame L" and "on_peer_received L t p r = Inr (b, r')"
  shows "sessions r' = sessions r"
  using assms(2)
  by (auto simp: on_peer_received_def dest!: count_frame(1) send_frameD(1) [OF assms(1)]
      split: option.splits)

lemma relay_step_sessions:
  assumes "send_frame L" and "relay_step L e r = Inr r'"
  shows "sessions r' = sessions r
       \<or> (\<exists>i t src p. e = Client_received t src p \<and> sessions r i = None
            \<and> sessions r' = (sessions r)(i \<mapsto> \<lparr>client_endpoint = src\<rparr>))"
proof (cases e)
  case (Client_received t src p)
  then show ?thesis using assms(2) on_client_received_sessions [of L t src p r r'] by auto
next
  case (Peer_received t p)
  then show ?thesis using assms on_peer_received_sessions by fastforce
next
  case (Peer_data t p)
  then show ?thesis using assms(2)
    by (auto simp: receive_peer_data_def dest!: count_frame(1) split: if_splits)
next
  case (Session_sent t n)
  then show ?thesis using assms(2) by (auto simp: on_session_sent_def dest!: count_frame(2))
next
  case (Thread_start t i)
  then show ?thesis using assms(2) by (auto simp: on_thread_start_def split: if_splits)
next
  case (Statistics_tick n)
  then show ?thesis using assms(2) by (auto simp: on_statistics_tick_def)
qed

section \<open>Ingress counters\<close>

definition in_packets :: "('ep, 'l) relay \<Rightarrow> u64" where
  "in_packets r = sum_list (map packets (map stat_in (per_thread_statistics r)))"

definition in_bytes :: "('ep, 'l) relay \<Rightarrow> u64" where
  "in_bytes r = sum_list (map bytes (map stat_in (per_thread_statistics r)))"

lemma in_totals_cong:
  assumes "map stat_in (per_thread_statistics r') = map stat_in (per_thread_statistics r)"
  shows "in_packets r' = in_packets r \<and> in_bytes r' = in_bytes r"
  using assms by (simp add: in_packets_def in_bytes_def)

lemma in_totals_frame [simp]:
  "in_packets (restart_peer_receive L r) = in_packets r"
  "in_bytes (restart_peer_receive L r) = in_bytes r"
  "in_packets (restart_client_receive L r) = in_packets r"
  "in_bytes (restart_client_receive L r) = in_bytes r"
  "in_packets (r\<lparr>sessions := m\<rparr>) = in_packets r"
  "in_bytes (r\<lparr>sessions := m\<rparr>) = in_bytes r"
  "in_packets (r\<lparr>lib := l\<rparr>) = in_packets r"
  "in_bytes (r\<lparr>lib := l\<rparr>) = in_bytes r"
  by (simp_all add: in_packets_def in_bytes_def)

lemma count_in_totals:
  assumes "count_in t n r = Inr r'"
  shows "in_packets r' = in_packets r + 1 \<and> in_bytes r' = in_bytes r + n"
  using assms
  by (auto simp: count_in_def update_this_thread_def in_packets_def in_bytes_def map_update
      sum_list_update_word update_io_statistics_def split: option.splits if_splits)

lemma count_out_totals:
  assumes "count_out t n r = Inr r'"
  shows "in_packets r' = in_packets r \<and> in_bytes r' = in_bytes r"
proof (rule in_totals_cong)
  show "map stat_in (per_thread_statistics r') = map stat_in (per_thread_statistics r)"
    using assms
    by (auto simp: count_out_def update_this_thread_def map_update
        split: option.splits if_splits)
qed

text \<open>The size of the datagram an event delivers.\<close>

fun received_size :: "('ep, 'p, 'l) library \<Rightarrow> ('ep, 'p) relay_event \<Rightarrow> u64 option" where
  "received_size L (Client_received t src p) = Some (packet_size L p)"
| "received_size L (Peer_received t p) = Some (packet_size L p)"
| "received_size L (Peer_data t p) = Some (packet_size L p)"
| "received_size L _ = None"

definition received_sizes :: "('ep, 'p, 'l) library \<Rightarrow> ('ep, 'p) relay_event list \<Rightarrow> u64 list" where
  "received_sizes L evs = List.map_filter (received_size L) evs"

lemma received_sizes_simps [simp]:
  "received_sizes L [] = []"
  "received_sizes L (e # evs) =
     (case received_size L e of None \<Rightarrow> [] | Some n \<Rightarrow> [n]) @ received_sizes L evs"
  by (simp_all add: received_sizes_def List.map_filter_simps split: option.split)

lemma on_client_received_totals:
  assumes "on_client_received L t src p r = Inr r'"
  shows "in_packets r' = in_packets r + 1 \<and> in_bytes r' = in_bytes r + packet_size L p"
  using assms
  by (auto simp: on_client_received_eq dest!: count_in_totals split: if_splits)

lemma on_peer_received_totals:
  assumes "send_frame L" and "on_peer_received L t p r = Inr (b, r')"
  shows "in_packets r' = in_packets r + 1 \<and> in_bytes r' = in_bytes r + packet_size L p"
  using assms(2)
  by (auto simp: on_peer_received_def dest!: count_in_totals
      in_totals_cong [OF send_frameD(2) [OF assms(1)]] split: option.splits)

lemma relay_step_totals:
  assumes "send_frame L" and "relay_step L e r = Inr r'" and "\<forall>n. e \<noteq> Statistics_tick n"
  shows "in_packets r' = in_packets r + (case received_size L e of None \<Rightarrow> 0 | Some _ \<Rightarrow> 1)
       \<and> in_bytes r' = in_bytes r + (case received_size L e of None \<Rightarrow> 0 | Some n \<Rightarrow> n)"
proof (cases e)
  case (Client_received t src p)
  then show ?thesis using assms(2) on_client_received_totals [of L t src p r r'] by simp
next
  case (Peer_received t p)
  then show ?thesis using assms(2) on_peer_received_totals [OF assms(1)] by fastforce
next
  case (Peer_data t p)
  then show ?thesis using assms(2)
    by (auto simp: receive_peer_data_def dest!: count_in_totals split: if_splits)
next
  case (Session_sent t n)
  then show ?thesis using assms(2) by (auto simp: on_session_sent_def dest!: count_out_totals)
next
  case (Thread_start t i)
  then show ?thesis using assms(2)
    by (auto simp: on_thread_start_def in_packets_def in_bytes_def split: if_splits)
next
  case (Statistics_tick n)
  with assms(3) show ?thesis by simp
qed

lemma relay_run_totals:
  assumes "send_frame L" and "relay_run L evs r = Inr r'"
    and "\<forall>e \<in> set evs. \<forall>n. e \<noteq> Statistics_tick n"
  shows "in_packets r' = in_packets r + of_nat (length (received_sizes L evs))
       \<and> in_bytes r' = in_bytes r + sum_list (received_sizes L evs)"
  using assms(2,3)
proof (induction evs arbitrary: r)
  case Nil
  then show ?case by (simp add: relay_run_def)
next
  case (Cons e evs)
  then obtain r1 where r1: "relay_step L e r = Inr r1" "relay_run L evs r1 = Inr r'"
    by (auto simp: relay_run_def)
  from Cons.IH [OF r1(2)] relay_step_totals [OF assms(1) r1(1)] Cons.prems(2) show ?case
    by (auto simp: algebra_simps split: option.splits)
qed

section \<open>The library of the unit tests\<close>

text \<open>
  \<open>test_lib\<close> of \<^verbatim>\<open>urn/relay.test.cpp\<close>: endpoints are 64-bit numbers, packets their bytes,
  and the receive and send operations record that they were invoked; the flags of the
  sessions are kept as the list of the sessions whose \<open>start_send\<close> was invoked. It is the
  concrete library of the witnesses below.
\<close>

record test_state =
  client_start_recv_invoked :: bool
  peer_start_recv_invoked :: bool
  start_send_invoked :: "u64 session list"

definition test_init :: test_state where
  "test_init = \<lparr>client_start_recv_invoked = False, peer_start_recv_invoked = False, start_send_invoked = []\<rparr>"

definition test_lib :: "(u64, u8 list, test_state) library" where
  "test_lib =
     \<lparr>packet_data = (\<lambda>_ p. p),
      packet_size = (\<lambda>p. of_nat (length p)),
      client_start_receive = (\<lambda>l. l\<lparr>client_start_recv_invoked := True\<rparr>),
      peer_start_receive = (\<lambda>l. l\<lparr>peer_start_recv_invoked := True\<rparr>),
      session_start_send = (\<lambda>t s p r.
        Inr (r\<lparr>lib := (lib r)\<lparr>start_send_invoked := s # start_send_invoked (lib r)\<rparr>\<rparr>))\<rparr>"

lemma test_lib_send_frame: "send_frame test_lib"
  by (simp add: send_frame_def test_lib_def)

interpretation tst: relay_library test_lib "\<lambda>_ p. length p < 2 ^ 64"
  by unfold_locales (simp add: test_lib_def unat_of_nat)

text \<open>One relay with one started thread, as the tests construct it.\<close>

definition test_relay :: "(u64, test_state) relay" where
  "test_relay = (relay_init 1 test_init)\<lparr>this_thread_statistics := [0 \<mapsto> 0]\<rparr>"

lemma test_relay_started: "on_thread_start 0 0 (relay_init 1 test_init) = Inr test_relay"
  by (simp add: on_thread_start_def relay_init_def test_relay_def)

lemma test_relay_ok: "thread_ok 0 test_relay"
  by (simp add: test_relay_def relay_init_def thread_ok_def)

section \<open>Properties\<close>

text \<open>C2. A client datagram is handled without a fault on any thread that has been started,
  and its effect on the registrations is the specified one: eight bytes register their
  little-endian value for the sender unless that identifier is taken; anything else changes
  nothing. The client receive is restarted in every case, the peer receive exactly when the
  registration is new.\<close>

theorem client_registration_correct:
  assumes "thread_ok t r" and "length (packet_data L (lib r) p) = unat (packet_size L p)"
  shows "\<exists>r'. on_client_received L t src p r = Inr r'
    \<and> registered r' = spec_client src (packet_data L (lib r) p) (registered r)
    \<and> lib r' = client_start_receive L
        (if registered r' = registered r then lib r else peer_start_receive L (lib r))"
proof -
  let ?bs = "packet_data L (lib r) p"
  from count_returns(1) [OF assms(1)] obtain r1 where
    r1: "count_in t (packet_size L p) r = Inr r1" by blast
  note f = count_frame(1) [OF r1]
  have size: "packet_size L p = 8 \<longleftrightarrow> length ?bs = 8"
    using assms(2) by (auto simp: word_unat_eq_iff)
  show ?thesis
  proof (cases "length ?bs = 8 \<and> sessions r (load_le ?bs) = None")
    case True
    then have new: "registered r (load_le ?bs) = None" by (simp add: registered_def)
    let ?m = "(sessions r)(load_le ?bs \<mapsto> \<lparr>client_endpoint = src\<rparr>)"
    have run: "on_client_received L t src p r = Inr (restart_client_receive L (restart_peer_receive L (r1\<lparr>sessions := ?m\<rparr>)))"
      using r1 f True size by (simp add: on_client_received_eq get_session_id_def)
    have reg: "map_option client_endpoint \<circ> ?m = (registered r)(load_le ?bs \<mapsto> src)"
      by (auto simp: registered_def fun_eq_iff)
    moreover have "(registered r)(load_le ?bs \<mapsto> src) \<noteq> registered r"
      using new by (metis fun_upd_same option.distinct(1))
    ultimately show ?thesis using run True new f
      by (auto simp: spec_client_def registered_def [of "restart_client_receive L _"])
  next
    case False
    then have run: "on_client_received L t src p r = Inr (restart_client_receive L r1)"
      using r1 f size by (auto simp: on_client_received_eq get_session_id_def)
    from False have "spec_client src ?bs (registered r) = registered r"
      by (auto simp: spec_client_def registered_def)
    with run f show ?thesis by (simp add: registered_def)
  qed
qed

lemma client_registration_correct_witness:
  "\<exists>r'. on_client_received test_lib 0 11 (store_le 8 1) test_relay = Inr r'
     \<and> registered r' = spec_client 11 (store_le 8 1) (registered test_relay)
     \<and> registered r' 1 = Some 11"
proof -
  have "length (packet_data test_lib (lib test_relay) (store_le 8 1)) = unat (packet_size test_lib (store_le 8 1))"
    by (simp add: test_lib_def)
  from client_registration_correct [OF test_relay_ok this, of 11] obtain r' where
    r': "on_client_received test_lib 0 11 (store_le 8 1) test_relay = Inr r'"
      "registered r' = spec_client 11 (store_le 8 1) (registered test_relay)"
    by (auto simp: test_lib_def)
  then have "registered r' 1 = Some 11"
    by (simp add: spec_client_def registered_def test_relay_def relay_init_def del: store_le.simps)
  with r' show ?thesis by blast
qed

text \<open>C3. The first registration stands. Over any sequence of calls into the relay, from any
  threads, a registered identifier keeps its endpoint, and an identifier is registered only
  to an endpoint that sent a client datagram itself.\<close>

theorem registrations_stand:
  assumes "send_frame L" and "relay_run L evs r = Inr r'"
  shows "sessions r \<subseteq>\<^sub>m sessions r'
    \<and> (\<forall>i ep. registered r' i = Some ep \<longrightarrow>
         registered r i = Some ep \<or> (\<exists>t p. Client_received t ep p \<in> set evs))"
  using assms(2)
proof (induction evs arbitrary: r)
  case Nil
  then show ?case by (simp add: relay_run_def map_le_refl)
next
  case (Cons e evs)
  then obtain r1 where r1: "relay_step L e r = Inr r1" "relay_run L evs r1 = Inr r'"
    by (auto simp: relay_run_def)
  from relay_step_sessions [OF assms(1) r1(1)] have step: "sessions r \<subseteq>\<^sub>m sessions r1"
    "\<And>i ep. registered r1 i = Some ep \<Longrightarrow> registered r i = Some ep \<or> (\<exists>t p. e = Client_received t ep p)"
    by (auto simp: map_le_def registered_def split: if_splits)
  note IH = Cons.IH [OF r1(2)]
  have "sessions r \<subseteq>\<^sub>m sessions r'" using step(1) IH map_le_trans by blast
  moreover have "registered r i = Some ep \<or> (\<exists>t p. Client_received t ep p \<in> set (e # evs))"
    if "registered r' i = Some ep" for i ep
    using that IH step(2) [of i ep] by (metis list.set_intros)
  ultimately show ?case by blast
qed

text \<open>Two clients register, the second also tries the first one's identifier.\<close>

definition test_events :: "(u64, u8 list) relay_event list" where
  "test_events = [Client_received 0 11 (store_le 8 1), Client_received 0 22 (store_le 8 1),
                  Client_received 0 22 (store_le 8 2)]"

definition test_run :: "(u64, test_state) relay" where
  "test_run = projr (relay_run test_lib test_events test_relay)"

lemmas test_eval = relay_run_def test_relay_def relay_init_def test_lib_def test_init_def
  on_client_received_eq on_peer_received_def find_session_def get_session_id_def
  count_defs update_this_thread_def
  update_io_statistics_def restart_peer_receive_def restart_client_receive_def statistics_zero_def
  direction_zero_def

lemma test_run_returns: "relay_run test_lib test_events test_relay = Inr test_run"
  by (simp add: test_run_def test_events_def test_eval)

lemma registrations_stand_witness:
  "sessions test_relay \<subseteq>\<^sub>m sessions test_run \<and> registered test_run 2 = Some 22
   \<and> (registered test_relay 2 = Some 22 \<or> (\<exists>t p. Client_received t 22 p \<in> set test_events))"
proof -
  have two: "registered test_run 2 = Some 22"
    by (simp add: test_run_def test_events_def test_eval registered_def)
  with registrations_stand [OF test_lib_send_frame test_run_returns] show ?thesis by blast
qed

text \<open>C23. The statistics of an interval are exact: when the counters start at zero, the next
  collection reports as ingress the number of datagrams that were received since, over all
  threads, and the sum of their sizes (as 64-bit words), whatever else the relay did in
  between, and leaves every counter at zero.\<close>

theorem interval_statistics_exact:
  assumes "send_frame L" and "per_thread_statistics r = replicate n statistics_zero"
    and "\<forall>e \<in> set evs. \<forall>k. e \<noteq> Statistics_tick k"
    and "relay_run L evs r = Inr r'"
    and "load_statistics (per_thread_statistics r') = (rest, all, distr)"
  shows "packets (stat_in all) = of_nat (length (received_sizes L evs))
    \<and> bytes (stat_in all) = sum_list (received_sizes L evs)
    \<and> set rest \<subseteq> {statistics_zero}"
proof -
  have zero: "in_packets r = 0" "in_bytes r = 0"
    using assms(2)
    by (simp_all add: in_packets_def in_bytes_def statistics_zero_def direction_zero_def sum_list_replicate)
  from assms(5) have "all = total_of (per_thread_statistics r')"
    "rest = replicate (length (per_thread_statistics r')) statistics_zero"
    by (simp_all add: load_statistics_eq)
  with relay_run_totals [OF assms(1,4,3)] zero show ?thesis
    by (auto simp: total_of_def in_packets_def in_bytes_def)
qed

lemma interval_statistics_exact_witness:
  "\<exists>rest all distr. load_statistics (per_thread_statistics test_run) = (rest, all, distr)
     \<and> packets (stat_in all) = 3 \<and> bytes (stat_in all) = 24"
proof -
  obtain rest all distr where l: "load_statistics (per_thread_statistics test_run) = (rest, all, distr)"
    by (cases "load_statistics (per_thread_statistics test_run)")
  have z: "per_thread_statistics test_relay = replicate 1 statistics_zero"
    by (simp add: test_relay_def relay_init_def)
  have e: "\<forall>e \<in> set test_events. \<forall>k. e \<noteq> Statistics_tick k" by (simp add: test_events_def)
  from interval_statistics_exact [OF test_lib_send_frame z e test_run_returns l] l show ?thesis
    by (simp add: test_events_def test_lib_def del: store_le.simps)
qed

text \<open>C1. A client that registers an identifier receives what its peer sends: after the
  registration, a peer datagram that begins with the same identifier is passed on, whole, to
  \<open>start_send\<close> of a session whose endpoint is the client's, and the handler returns true.\<close>

theorem register_then_forward:
  assumes "thread_ok t r" and "sessions r i = None"
    and "packet_data L (lib r) p = store_le 8 i" and "packet_size L p = 8"
    and "on_client_received L t src p r = Inr r'"
    and "thread_ok u r'"
    and "packet_data L (lib r') q = store_le 8 i @ payload"
    and "packet_size L q = of_nat (8 + length payload)" and "8 + length payload < 2 ^ 64"
  shows "\<exists>r1. sessions r1 = sessions r' \<and> lib r1 = lib r'
    \<and> on_peer_received L u q r' =
        bindR (session_start_send L u \<lparr>client_endpoint = src\<rparr> q r1) (\<lambda>r. Inr (True, r))"
proof -
  from assms(5) count_returns(1) [OF assms(1)] obtain r1 where
    r1: "count_in t (packet_size L p) r = Inr r1" by blast
  note f = count_frame(1) [OF r1]
  have "sessions r' i = Some \<lparr>client_endpoint = src\<rparr>"
    using assms(2-5) r1 f
    by (auto simp: on_client_received_eq get_session_id_def simp del: store_le.simps)
  moreover have "8 \<le> packet_size L q"
  proof -
    have "unat (packet_size L q) = 8 + length payload"
      unfolding assms(8) by (subst unat_of_nat) (use assms(9) in simp)
    then show ?thesis by (simp add: word_le_nat_alt)
  qed
  moreover from count_returns(1) [OF assms(6)] obtain r2 where
    r2: "count_in u (packet_size L q) r' = Inr r2" by blast
  ultimately show ?thesis
    using count_frame(1) [OF r2] assms(7)
    by (intro exI [of _ r2])
      (simp add: on_peer_received_def get_session_id_def find_session_def del: store_le.simps)
qed

lemma register_then_forward_witness:
  "\<exists>r' r''. on_client_received test_lib 0 11 (store_le 8 1) test_relay = Inr r'
     \<and> on_peer_received test_lib 0 (store_le 8 1 @ [100]) r' = Inr (True, r'')
     \<and> start_send_invoked (lib r'') = [\<lparr>client_endpoint = 11\<rparr>]"
proof -
  define r' where "r' = projr (on_client_received test_lib 0 11 (store_le 8 1) test_relay)"
  have reg: "on_client_received test_lib 0 11 (store_le 8 1) test_relay = Inr r'"
    by (simp add: r'_def test_eval)
  have free: "sessions test_relay 1 = None" by (simp add: test_relay_def relay_init_def)
  have ok: "thread_ok 0 r'" and none: "start_send_invoked (lib r') = []"
    by (simp_all add: r'_def test_eval thread_ok_def)
  have p: "packet_data test_lib (lib test_relay) (store_le 8 1) = store_le 8 1"
    "packet_size test_lib (store_le 8 1) = 8"
    "packet_data test_lib (lib r') (store_le 8 1 @ [100]) = store_le 8 1 @ [100]"
    "packet_size test_lib (store_le 8 1 @ [100]) = of_nat (8 + length [100 :: u8])"
    by (simp_all add: test_lib_def)
  from register_then_forward [OF test_relay_ok free p(1,2) reg ok p(3,4)] obtain r1 where
    "lib r1 = lib r'" "on_peer_received test_lib 0 (store_le 8 1 @ [100]) r'
       = bindR (session_start_send test_lib 0 \<lparr>client_endpoint = 11\<rparr> (store_le 8 1 @ [100]) r1) (\<lambda>r. Inr (True, r))"
    by auto
  with reg none show ?thesis by (auto simp: test_lib_def simp del: store_le.simps)
qed

text \<open>A peer datagram shorter than an identifier, or with an identifier nobody registered,
  is dropped: nothing is sent, the session table is unchanged, the datagram is counted, the
  peer receive is restarted and the handler returns false.\<close>

theorem unknown_peer_dropped:
  assumes "thread_ok t r" and "length (packet_data L (lib r) p) = unat (packet_size L p)"
    and "spec_peer (registered r) (packet_data L (lib r) p) = None"
  shows "\<exists>r'. on_peer_received L t p r = Inr (False, r')
    \<and> sessions r' = sessions r \<and> lib r' = peer_start_receive L (lib r)
    \<and> in_packets r' = in_packets r + 1 \<and> in_bytes r' = in_bytes r + packet_size L p"
proof -
  from count_returns(1) [OF assms(1)] obtain r1 where
    r1: "count_in t (packet_size L p) r = Inr r1" by blast
  note f = count_frame(1) [OF r1]
  have "8 \<le> packet_size L p \<longleftrightarrow> 8 \<le> length (packet_data L (lib r) p)"
    using assms(2) by (simp add: word_le_nat_alt)
  then have "on_peer_received L t p r = Inr (False, restart_peer_receive L r1)"
    using r1 f assms(3)
    by (auto simp: on_peer_received_def get_session_id_def find_session_def spec_peer_def registered_def)
  with f count_in_totals [OF r1] show ?thesis by simp
qed

lemma unknown_peer_dropped_witness:
  "\<exists>r'. on_peer_received test_lib 0 (store_le 8 7 @ [100]) test_run = Inr (False, r')
     \<and> sessions r' = sessions test_run \<and> start_send_invoked (lib r') = []"
proof -
  have ok: "thread_ok 0 test_run" and none: "start_send_invoked (lib test_run) = []"
    and reg: "registered test_run 7 = None"
    by (simp_all add: test_run_def test_events_def test_eval thread_ok_def registered_def)
  have len: "length (packet_data test_lib (lib test_run) (store_le 8 7 @ [100]))
      = unat (packet_size test_lib (store_le 8 7 @ [100]))"
    by (simp add: test_lib_def)
  have "spec_peer (registered test_run) (packet_data test_lib (lib test_run) (store_le 8 7 @ [100])) = None"
    using reg by (simp add: spec_peer_def test_lib_def del: store_le.simps)
  from unknown_peer_dropped [OF ok len this] none show ?thesis
    by (auto simp: test_lib_def simp del: store_le.simps)
qed

text \<open>Threads must be started before they handle datagrams: \<open>on_thread_start\<close> accepts exactly
  the indices below the thread count given to the constructor and throws
  \<open>std::out_of_range\<close> for the others; a handler on a thread that was not started
  dereferences the null thread-local pointer.\<close>

theorem thread_start_required:
  shows "(unat i < unat n \<longleftrightarrow> (\<exists>r. on_thread_start t i (relay_init n l) = Inr r \<and> thread_ok t r))
    \<and> (\<not> unat i < unat n \<longleftrightarrow> on_thread_start t i (relay_init n l) = Inl Out_of_range)
    \<and> (this_thread_statistics r t = None \<longrightarrow>
        on_client_received L t src p r = Inl Null_deref \<and> on_peer_received L t p r = Inl Null_deref
      \<and> receive_peer_data L t p r = Inl Null_deref \<and> on_session_sent (peer_start_receive L) t k r = Inl Null_deref)"
  by (auto simp: on_thread_start_def relay_init_def thread_ok_def on_client_received_def
      on_peer_received_def receive_peer_data_def on_session_sent_def count_defs update_this_thread_def)

lemma thread_start_required_witness:
  "this_thread_statistics test_relay 5 = None
   \<and> on_client_received test_lib 5 11 (store_le 8 1) test_relay = Inl Null_deref
   \<and> on_thread_start 5 1 (relay_init 1 test_init) = Inl Out_of_range"
proof -
  have none: "this_thread_statistics test_relay 5 = None" by (simp add: test_relay_def)
  then show ?thesis
    using thread_start_required [of 1 1 5 test_init test_relay test_lib 11 "store_le 8 1" 0]
    by (auto simp del: store_le.simps)
qed

end
