(* ===== verification/Mmsg.thy ===== *)
theory Mmsg
  imports Relay
begin

text \<open>
  The recvmmsg/sendmmsg experiment, \<^verbatim>\<open>mmsg/relay.hpp\<close> and \<^verbatim>\<open>mmsg/relay.cpp\<close>: one worker
  thread with its message memory, its four arrays of message headers, and its receive and send
  frames. Pointers into \<open>message_mem\<close> are offsets from its start; a pointer to an element of
  \<open>addresses\<close> or \<open>vectors\<close> is the index of the element. All four arrays are laid over the same
  memory, as the code does: a packet is forwarded from the memory it was received in.

  The system calls \<open>recvmmsg\<close>, \<open>sendmmsg\<close> and \<open>read\<close> are parameters.
\<close>

section \<open>Packets, sessions, headers\<close>

record packet =
  content :: nat
  plength :: u64

record iovec =
  iov_base :: nat
  iov_len :: nat

record mmsghdr =
  msg_name :: nat
  msg_iov :: nat
  msg_len :: u32

definition k_memory_per_packet :: int where "k_memory_per_packet = 1024"

definition k_mmsg_capacity :: int where "k_mmsg_capacity = 65536"

record 'ep io_vectors =
  capacity :: int
  packet_bytes :: int
  addresses :: "'ep list"
  vectors :: "iovec list"
  messages :: "mmsghdr list"

text \<open>Multiplication of \<open>int32_t\<close> values: overflow is undefined behaviour.\<close>

definition i32_mul :: "int \<Rightarrow> int \<Rightarrow> int res" where
  "i32_mul a b = (if - (2 ^ 31) \<le> a * b \<and> a * b < 2 ^ 31 then Inr (a * b) else Inl Undefined_behaviour)"

definition init_message :: "nat \<Rightarrow> 'ep io_vectors \<Rightarrow> 'ep io_vectors res" where
  "init_message i v =
     bindR (i32_mul (packet_bytes v) (int i)) (\<lambda>mem_offset.
     Inr (v\<lparr>vectors := (vectors v)[i := \<lparr>iov_base = nat mem_offset, iov_len = nat (packet_bytes v)\<rparr>],
           messages := (messages v)[i := (messages v ! i)\<lparr>msg_name := i, msg_iov := i\<rparr>]\<rparr>))"

text \<open>\<open>zero_ep\<close> is the endpoint whose bytes are all zero, what \<open>calloc\<close> leaves.\<close>

definition io_vectors_init :: "'ep \<Rightarrow> int \<Rightarrow> int \<Rightarrow> 'ep io_vectors res" where
  "io_vectors_init zero_ep cap psize =
     foldR init_message [0..<nat cap]
       \<lparr>capacity = cap, packet_bytes = psize,
        addresses = replicate (nat cap) zero_ep,
        vectors = replicate (nat cap) \<lparr>iov_base = 0, iov_len = 0\<rparr>,
        messages = replicate (nat cap) \<lparr>msg_name = 0, msg_iov = 0, msg_len = 0\<rparr>\<rparr>"

record 'ep io_state =
  tx_length :: nat
  rx :: "'ep io_vectors"
  tx :: "'ep io_vectors"

definition io_state_init :: "'ep \<Rightarrow> int \<Rightarrow> 'ep io_state res" where
  "io_state_init zero_ep cap =
     bindR (io_vectors_init zero_ep cap k_memory_per_packet) (\<lambda>vrx.
     bindR (io_vectors_init zero_ep cap k_memory_per_packet) (\<lambda>vtx.
     Inr \<lparr>tx_length = 0, rx = vrx, tx = vtx\<rparr>))"

record 'ep io_worker =
  peer_socket :: int
  client_socket :: int
  message_mem :: "nat \<Rightarrow> u8"
  peers_io :: "'ep io_state"
  clients_io :: "'ep io_state"
  worker_index :: nat

definition io_worker_init :: "'ep \<Rightarrow> int \<Rightarrow> nat \<Rightarrow> int \<Rightarrow> int \<Rightarrow> 'ep io_worker res" where
  "io_worker_init zero_ep cap index client_sock peer_sock =
     bindR (io_state_init zero_ep cap) (\<lambda>peers.
     bindR (io_state_init zero_ep cap) (\<lambda>clients.
     Inr \<lparr>peer_socket = peer_sock, client_socket = client_sock, message_mem = (\<lambda>_. 0),
          peers_io = peers, clients_io = clients, worker_index = index\<rparr>))"

section \<open>The library operations\<close>

definition read_mem :: "(nat \<Rightarrow> u8) \<Rightarrow> nat \<Rightarrow> nat \<Rightarrow> u8 list" where
  "read_mem mem base n = map (\<lambda>k. mem (base + k)) [0..<n]"

lemma length_read_mem [simp]: "length (read_mem mem base n) = n"
  by (simp add: read_mem_def)

text \<open>\<open>start_send\<close> puts the packet at the end of the worker's send array, without copying it,
  and reports it as sent.\<close>

definition mmsg_start_send ::
  "nat \<Rightarrow> 'ep session \<Rightarrow> packet \<Rightarrow> ('ep, 'ep io_worker) relay \<Rightarrow> ('ep, 'ep io_worker) relay res"
where
  "mmsg_start_send t s p r =
     (let io = lib r; index = tx_length (clients_io io); vtx = tx (clients_io io)
      in if index < length (addresses vtx) \<and> index < length (vectors vtx)
         then let vtx' = vtx\<lparr>addresses := (addresses vtx)[index := client_endpoint s],
                            vectors := (vectors vtx)[index :=
                              \<lparr>iov_base = content p, iov_len = unat (plength p)\<rparr>]\<rparr>;
                  io' = io\<lparr>clients_io := (clients_io io)\<lparr>tx := vtx', tx_length := index + 1\<rparr>\<rparr>
              in on_session_sent (\<lambda>l. l) t (plength p) (r\<lparr>lib := io'\<rparr>)
         else Inl Out_of_bounds)"

definition mmsg_lib :: "('ep, packet, 'ep io_worker) library" where
  "mmsg_lib =
     \<lparr>packet_data = (\<lambda>io p. read_mem (message_mem io) (content p) (unat (plength p))),
      packet_size = plength,
      client_start_receive = (\<lambda>l. l),
      peer_start_receive = (\<lambda>l. l),
      session_start_send = mmsg_start_send\<rparr>"

section \<open>Frames\<close>

definition ensure_success :: "int \<Rightarrow> unit res" where
  "ensure_success code = (if code \<ge> 0 then Inr () else Inl (Abort ''ensure_success''))"

definition io_worker_begin_frame :: "'ep io_worker \<Rightarrow> 'ep io_worker" where
  "io_worker_begin_frame io = io\<lparr>clients_io := (clients_io io)\<lparr>tx_length := 0\<rparr>\<rparr>"

text \<open>
  What one \<open>recvmmsg\<close> does: the value it returns, the source addresses, the lengths it stores
  in the headers, and the memory it leaves.
\<close>

record 'ep recv_result =
  received :: int
  from_addresses :: "'ep list"
  lengths :: "u32 list"
  memory :: "nat \<Rightarrow> u8"

type_synonym 'ep recv_call = "'ep io_vectors \<Rightarrow> (nat \<Rightarrow> u8) \<Rightarrow> 'ep recv_result"

definition store_received :: "'ep recv_result \<Rightarrow> 'ep io_vectors \<Rightarrow> 'ep io_vectors" where
  "store_received res v =
     v\<lparr>addresses := from_addresses res,
      messages := map2 (\<lambda>m n. m\<lparr>msg_len := n\<rparr>) (messages v) (lengths res)\<rparr>"

text \<open>The packet and the source that header \<open>i\<close> of a receive array describes.\<close>

definition header_packet :: "'ep io_vectors \<Rightarrow> nat \<Rightarrow> packet" where
  "header_packet v i =
     \<lparr>content = iov_base (vectors v ! msg_iov (messages v ! i)),
      plength = ucast (msg_len (messages v ! i))\<rparr>"

definition header_source :: "'ep io_vectors \<Rightarrow> nat \<Rightarrow> 'ep" where
  "header_source v i = addresses v ! msg_name (messages v ! i)"

definition io_run_peer_receive_frame ::
  "'ep recv_call \<Rightarrow> nat \<Rightarrow> ('ep, 'ep io_worker) relay \<Rightarrow> ('ep, 'ep io_worker) relay res"
where
  "io_run_peer_receive_frame recvmmsg t r =
     (let io = lib r; res = recvmmsg (rx (peers_io io)) (message_mem io);
          io' = io\<lparr>peers_io := (peers_io io)\<lparr>rx := store_received res (rx (peers_io io))\<rparr>,
                  message_mem := memory res\<rparr>
      in bindR (ensure_success (received res)) (\<lambda>_.
         foldR (\<lambda>i r. bindR (on_peer_received mmsg_lib t (header_packet (rx (peers_io (lib r))) i) r)
                        (\<lambda>(_, r). Inr r))
           [0..<nat (received res)] (r\<lparr>lib := io'\<rparr>)))"

definition io_run_client_receive_frame ::
  "'ep recv_call \<Rightarrow> nat \<Rightarrow> ('ep, 'ep io_worker) relay \<Rightarrow> ('ep, 'ep io_worker) relay res"
where
  "io_run_client_receive_frame recvmmsg t r =
     (let io = lib r; res = recvmmsg (rx (clients_io io)) (message_mem io);
          io' = io\<lparr>clients_io := (clients_io io)\<lparr>rx := store_received res (rx (clients_io io))\<rparr>,
                  message_mem := memory res\<rparr>
      in bindR (ensure_success (received res)) (\<lambda>_.
         foldR (\<lambda>i r. on_client_received mmsg_lib t (header_source (rx (clients_io (lib r))) i)
                        (header_packet (rx (clients_io (lib r))) i) r)
           [0..<nat (received res)] (r\<lparr>lib := io'\<rparr>)))"

text \<open>What \<open>sendmmsg\<close> transmits for header \<open>i\<close> of the send array.\<close>

definition tx_message :: "'ep io_worker \<Rightarrow> nat \<Rightarrow> 'ep \<times> u8 list" where
  "tx_message io i =
     (let v = tx (clients_io io); m = messages v ! i; iov = vectors v ! msg_iov m
      in (addresses v ! msg_name m, read_mem (message_mem io) (iov_base iov) (iov_len iov)))"

text \<open>
  The send loop. \<open>sendmmsg k vlen\<close> is the outcome of the \<open>k\<close>-th call, with \<open>vlen\<close> messages
  offered: the number of messages sent, or the error. The result lists what was transmitted,
  in order, with the number of calls made; \<open>None\<close> is a loop that has not ended within the fuel.
\<close>

datatype send_outcome = Sent int | Interrupted | Would_block | Send_error

fun send_loop ::
  "nat \<Rightarrow> (nat \<Rightarrow> int \<Rightarrow> send_outcome) \<Rightarrow> 'ep io_worker \<Rightarrow> nat \<Rightarrow> int \<Rightarrow> int \<Rightarrow> ('ep \<times> u8 list) list res option"
where
  "send_loop fuel sendmmsg io k remaining offset =
     (if remaining > 0
      then case fuel of
          0 \<Rightarrow> None
        | Suc fuel' \<Rightarrow>
           (case sendmmsg k remaining of
              Interrupted \<Rightarrow> send_loop fuel' sendmmsg io (Suc k) remaining offset
            | Would_block \<Rightarrow> send_loop fuel' sendmmsg io (Suc k) remaining offset
            | Send_error \<Rightarrow> Some (Inl (Abort ''sendmmsg error''))
            | Sent sent \<Rightarrow>
                map_option (\<lambda>res. bindR res (\<lambda>out.
                    Inr (map (tx_message io) [nat offset..<nat (offset + sent)] @ out)))
                  (send_loop fuel' sendmmsg io (Suc k) (remaining - sent) (offset + sent)))
      else Some (Inr []))"

declare send_loop.simps [simp del]

definition io_run_client_send_frame ::
  "nat \<Rightarrow> (nat \<Rightarrow> int \<Rightarrow> send_outcome) \<Rightarrow> 'ep io_worker \<Rightarrow> ('ep \<times> u8 list) list res option"
where
  "io_run_client_send_frame fuel sendmmsg io =
     send_loop fuel sendmmsg io 0 (int (tx_length (clients_io io))) 0"

section \<open>One iteration of the worker loop\<close>

text \<open>What the kernel does in one iteration: which descriptors \<open>poll\<close> reports readable, and
  the outcomes of the calls.\<close>

record 'ep kernel =
  client_ready :: bool
  peer_ready :: bool
  timer_ready :: bool
  client_recvmmsg :: "'ep recv_call"
  peer_recvmmsg :: "'ep recv_call"
  timer_read :: int
  sendmmsg :: "nat \<Rightarrow> int \<Rightarrow> send_outcome"

definition statistics_print_interval :: u64 where "statistics_print_interval = 5"

definition receive_phase ::
  "'ep kernel \<Rightarrow> nat \<Rightarrow> ('ep, 'ep io_worker) relay \<Rightarrow> (string \<times> ('ep, 'ep io_worker) relay) res"
where
  "receive_phase k t r =
     bindR (if client_ready k then io_run_client_receive_frame (client_recvmmsg k) t r else Inr r) (\<lambda>r.
     bindR (if peer_ready k then io_run_peer_receive_frame (peer_recvmmsg k) t r else Inr r) (\<lambda>r.
     if timer_ready k
     then bindR (ensure_success (timer_read k)) (\<lambda>_. on_statistics_tick statistics_print_interval r)
     else Inr ([], r)))"

text \<open>Returns what was transmitted on the client socket, the line printed (empty when the
  timer is not due) and the state at the end of the iteration.\<close>

definition worker_iteration ::
  "nat \<Rightarrow> 'ep kernel \<Rightarrow> nat \<Rightarrow> ('ep, 'ep io_worker) relay
     \<Rightarrow> (('ep \<times> u8 list) list \<times> string \<times> ('ep, 'ep io_worker) relay) res option"
where
  "worker_iteration fuel k t r =
     (case receive_phase k t (r\<lparr>lib := io_worker_begin_frame (lib r)\<rparr>) of
        Inl e \<Rightarrow> Some (Inl e)
      | Inr (line, r') \<Rightarrow>
          map_option (\<lambda>res. bindR res (\<lambda>out. Inr (out, line, r')))
            (io_run_client_send_frame fuel (sendmmsg k) (lib r')))"

section \<open>Well-formed arrays\<close>

text \<open>Header \<open>i\<close> points to address \<open>i\<close> and to vector \<open>i\<close>; in a receive array vector \<open>i\<close> is the
  \<open>i\<close>-th slot of the message memory.\<close>

definition arrays_ok :: "nat \<Rightarrow> 'ep io_vectors \<Rightarrow> bool" where
  "arrays_ok n v \<longleftrightarrow> length (addresses v) = n \<and> length (vectors v) = n \<and> length (messages v) = n
     \<and> (\<forall>i < n. msg_name (messages v ! i) = i \<and> msg_iov (messages v ! i) = i)"

definition slots :: "nat \<Rightarrow> nat \<Rightarrow> iovec list" where
  "slots n size_of_slot = map (\<lambda>i. \<lparr>iov_base = size_of_slot * i, iov_len = size_of_slot\<rparr>) [0..<n]"

definition worker_ok :: "nat \<Rightarrow> 'ep io_worker \<Rightarrow> bool" where
  "worker_ok n io \<longleftrightarrow>
     arrays_ok n (rx (peers_io io)) \<and> arrays_ok n (rx (clients_io io)) \<and> arrays_ok n (tx (clients_io io))
     \<and> vectors (rx (peers_io io)) = slots n 1024 \<and> vectors (rx (clients_io io)) = slots n 1024"

lemma length_slots [simp]: "length (slots n k) = n"
  by (simp add: slots_def)

lemma slots_nth [simp]: "i < n \<Longrightarrow> slots n k ! i = \<lparr>iov_base = k * i, iov_len = k\<rparr>"
  by (simp add: slots_def)

lemma i32_mul_ok: "0 \<le> a \<Longrightarrow> 0 \<le> b \<Longrightarrow> a * b < 2 ^ 31 \<Longrightarrow> i32_mul a b = Inr (a * b)"
  by (simp add: i32_mul_def mult_nonneg_nonneg order_trans [of _ 0])

lemma io_vectors_init_prefix:
  assumes "k \<le> n" and "0 \<le> psize" and "psize * int k \<le> 2 ^ 31"
  shows "foldR init_message [0..<k]
       \<lparr>capacity = int n, packet_bytes = psize, addresses = replicate n z,
        vectors = replicate n \<lparr>iov_base = 0, iov_len = 0\<rparr>,
        messages = replicate n \<lparr>msg_name = 0, msg_iov = 0, msg_len = 0\<rparr>\<rparr>
     = Inr \<lparr>capacity = int n, packet_bytes = psize, addresses = replicate n z,
        vectors = slots k (nat psize) @ replicate (n - k) \<lparr>iov_base = 0, iov_len = 0\<rparr>,
        messages = map (\<lambda>i. \<lparr>msg_name = i, msg_iov = i, msg_len = 0\<rparr>) [0..<k]
          @ replicate (n - k) \<lparr>msg_name = 0, msg_iov = 0, msg_len = 0\<rparr>\<rparr>"
  using assms(1,3)
proof (induction k)
  case 0
  then show ?case by (simp add: slots_def)
next
  case (Suc k)
  have le: "psize * int k \<le> 2 ^ 31"
    using Suc.prems(2) assms(2) by (simp add: algebra_simps)
  have mul: "i32_mul psize (int k) = Inr (psize * int k)"
  proof (cases "psize = 0")
    case False
    then show ?thesis using assms(2) Suc.prems(2) by (intro i32_mul_ok) (auto simp: algebra_simps)
  qed (simp add: i32_mul_def)
  have n: "n - k = Suc (n - Suc k)" using Suc.prems by simp
  have off: "nat (psize * int k) = nat psize * k" by (simp add: nat_mult_distrib assms(2))
  show ?case
    using Suc le mul off
    by (simp add: foldR_append init_message_def n slots_def list_update_append nth_append)
qed

lemma io_vectors_init_eq:
  assumes "0 \<le> psize" and "psize * int n \<le> 2 ^ 31"
  shows "io_vectors_init z (int n) psize =
    Inr \<lparr>capacity = int n, packet_bytes = psize, addresses = replicate n z,
         vectors = slots n (nat psize),
         messages = map (\<lambda>i. \<lparr>msg_name = i, msg_iov = i, msg_len = 0\<rparr>) [0..<n]\<rparr>"
  using io_vectors_init_prefix [OF order_refl assms, of z]
  by (simp add: io_vectors_init_def)

lemma io_vectors_init_overflow:
  assumes "k < n" and "0 \<le> psize" and "psize * int k = 2 ^ 31"
  shows "io_vectors_init z (int n) psize = Inl Undefined_behaviour"
proof -
  have split: "[0..<nat (int n)] = [0..<k] @ k # [Suc k..<n]"
    using assms(1) by (metis le_add_diff_inverse less_imp_le nat_int upt_add_eq_append upt_conv_Cons zero_le)
  have "i32_mul psize (int k) = Inl Undefined_behaviour" using assms(3) by (simp add: i32_mul_def)
  with io_vectors_init_prefix [of k n psize z] assms show ?thesis
    unfolding io_vectors_init_def split foldR_append by (simp add: init_message_def)
qed

lemma slots_cover:
  "concat (map (\<lambda>iov. [iov_base iov..<iov_base iov + iov_len iov]) (slots n k)) = [0..<k * n]"
proof (induction n)
  case (Suc n)
  then show ?case using upt_add_eq_append [of 0 "k * n" k] by (simp add: slots_def add.commute)
qed (simp add: slots_def)

lemma io_worker_init_ok:
  assumes "1024 * int n \<le> 2 ^ 31"
  shows "\<exists>io. io_worker_init z (int n) i c p = Inr io \<and> worker_ok n io
           \<and> worker_index io = i \<and> client_socket io = c \<and> peer_socket io = p
           \<and> tx_length (clients_io io) = 0"
  using io_vectors_init_eq [OF _ assms, of z]
  by (simp add: io_worker_init_def io_state_init_def k_memory_per_packet_def worker_ok_def arrays_ok_def)

section \<open>The library satisfies the forwarding contract\<close>

definition mmsg_outbox :: "'ep io_worker \<Rightarrow> ('ep \<times> u8 list) list" where
  "mmsg_outbox io = map (tx_message io) [0..<tx_length (clients_io io)]"

definition mmsg_valid :: "'ep io_worker \<Rightarrow> packet \<Rightarrow> bool" where
  "mmsg_valid io p \<longleftrightarrow> arrays_ok (length (addresses (tx (clients_io io)))) (tx (clients_io io))"

definition mmsg_room :: "'ep io_worker \<Rightarrow> nat" where
  "mmsg_room io = length (addresses (tx (clients_io io))) - tx_length (clients_io io)"

lemma mmsg_lib_simps [simp]:
  "packet_data mmsg_lib io p = read_mem (message_mem io) (content p) (unat (plength p))"
  "packet_size mmsg_lib p = plength p"
  "client_start_receive mmsg_lib l = l" "peer_start_receive mmsg_lib l = l"
  "session_start_send mmsg_lib = mmsg_start_send"
  by (simp_all add: mmsg_lib_def)

text \<open>The worker after a send: only its send array and the counter differ.\<close>

definition queued :: "'ep \<Rightarrow> packet \<Rightarrow> 'ep io_worker \<Rightarrow> 'ep io_worker" where
  "queued ep p io =
     (let c = clients_io io; i = tx_length c
      in io\<lparr>clients_io := c\<lparr>tx := (tx c)\<lparr>addresses := (addresses (tx c))[i := ep],
            vectors := (vectors (tx c))[i := \<lparr>iov_base = content p, iov_len = unat (plength p)\<rparr>]\<rparr>,
            tx_length := i + 1\<rparr>\<rparr>)"

lemma mmsg_start_send_Inr:
  assumes "mmsg_start_send t s p r = Inr r'"
  shows "lib r' = queued (client_endpoint s) p (lib r) \<and> sessions r' = sessions r
    \<and> map stat_in (per_thread_statistics r') = map stat_in (per_thread_statistics r)
    \<and> (thread_ok t r' \<longleftrightarrow> thread_ok t r)"
  using assms
  by (auto simp: mmsg_start_send_def on_session_sent_def queued_def Let_def count_out_def
      update_this_thread_def map_update thread_ok_def split: if_splits option.splits)

lemma mmsg_start_send_returns:
  assumes "mmsg_valid (lib r) p" and "0 < mmsg_room (lib r)" and "thread_ok t r"
  shows "\<exists>r'. mmsg_start_send t s p r = Inr r'"
proof -
  let ?c = "clients_io (lib r)"
  have "tx_length ?c < length (addresses (tx ?c))" "length (vectors (tx ?c)) = length (addresses (tx ?c))"
    using assms(1,2) by (simp_all add: mmsg_valid_def mmsg_room_def arrays_ok_def)
  then show ?thesis
    using assms(3) on_session_sent_returns [of t "r\<lparr>lib := queued (client_endpoint s) p (lib r)\<rparr>" "\<lambda>l. l" "plength p"]
    by (auto simp: mmsg_start_send_def queued_def Let_def)
qed

lemma queued_simps [simp]:
  "message_mem (queued ep p io) = message_mem io" "peers_io (queued ep p io) = peers_io io"
  "rx (clients_io (queued ep p io)) = rx (clients_io io)"
  "tx_length (clients_io (queued ep p io)) = Suc (tx_length (clients_io io))"
  "length (addresses (tx (clients_io (queued ep p io)))) = length (addresses (tx (clients_io io)))"
  "messages (tx (clients_io (queued ep p io))) = messages (tx (clients_io io))"
  "arrays_ok n (tx (clients_io (queued ep p io))) = arrays_ok n (tx (clients_io io))"
  by (simp_all add: queued_def Let_def arrays_ok_def)

lemma tx_message_queued:
  assumes "mmsg_valid io p" and "tx_length (clients_io io) < length (addresses (tx (clients_io io)))"
    and "j \<le> tx_length (clients_io io)"
  shows "tx_message (queued ep p io) j =
    (if j = tx_length (clients_io io)
     then (ep, read_mem (message_mem io) (content p) (unat (plength p))) else tx_message io j)"
  using assms
  by (simp add: tx_message_def queued_def Let_def mmsg_valid_def arrays_ok_def)

lemma mmsg_outbox_queued:
  assumes "mmsg_valid io p" and "0 < mmsg_room io"
  shows "mmsg_outbox (queued ep p io)
    = mmsg_outbox io @ [(ep, read_mem (message_mem io) (content p) (unat (plength p)))]"
  using assms tx_message_queued [OF assms(1)]
  by (simp add: mmsg_outbox_def mmsg_room_def)

interpretation mm: zero_copy_library mmsg_lib mmsg_valid mmsg_outbox mmsg_room
proof unfold_locales
  fix r :: "('ep, 'ep io_worker) relay" and p t s
  assume "mmsg_valid (lib r) p" "0 < mmsg_room (lib r)" "thread_ok t r"
  from mmsg_start_send_returns [OF this] obtain r' where r': "mmsg_start_send t s p r = Inr r'" by blast
  note eq = mmsg_start_send_Inr [OF r']
  show "\<exists>r'. session_start_send mmsg_lib t s p r = Inr r'
      \<and> mmsg_outbox (lib r') = mmsg_outbox (lib r) @ [(client_endpoint s, packet_data mmsg_lib (lib r) p)]
      \<and> sessions r' = sessions r \<and> thread_ok t r' \<and> mmsg_room (lib r) \<le> Suc (mmsg_room (lib r'))"
    using r' eq mmsg_outbox_queued [OF \<open>mmsg_valid (lib r) p\<close> \<open>0 < mmsg_room (lib r)\<close>] \<open>thread_ok t r\<close>
    by (auto simp: mmsg_room_def)
next
  fix t s p and r r' :: "('ep, 'ep io_worker) relay"
  assume "session_start_send mmsg_lib t s p r = Inr r'"
  then have "lib r' = queued (client_endpoint s) p (lib r)" using mmsg_start_send_Inr [of t s p r r'] by simp
  then show "packet_data mmsg_lib (lib r') = packet_data mmsg_lib (lib r) \<and> mmsg_valid (lib r') = mmsg_valid (lib r)"
    by (simp add: fun_eq_iff mmsg_valid_def)
qed simp_all

lemma mmsg_send_frame: "send_frame mmsg_lib"
  unfolding send_frame_def mmsg_lib_simps using mmsg_start_send_Inr by blast

section \<open>Receive frames\<close>

text \<open>What the code relies on from \<open>recvmmsg\<close>: on a worker's array it reports at most as many
  messages as the array has, and keeps the arrays' lengths; a negative result is an error.\<close>

definition recv_ok :: "nat \<Rightarrow> 'ep recv_call \<Rightarrow> bool" where
  "recv_ok n recvmmsg \<longleftrightarrow> (\<forall>v mem. arrays_ok n v \<longrightarrow>
     (let res = recvmmsg v mem
      in 0 \<le> received res \<and> received res \<le> int n
         \<and> length (from_addresses res) = n \<and> length (lengths res) = n))"

lemma recv_okD:
  assumes "recv_ok n recvmmsg" and "arrays_ok n v"
  shows "0 \<le> received (recvmmsg v mem)" "nat (received (recvmmsg v mem)) \<le> n"
    "length (from_addresses (recvmmsg v mem)) = n" "length (lengths (recvmmsg v mem)) = n"
proof -
  have "0 \<le> received (recvmmsg v mem) \<and> received (recvmmsg v mem) \<le> int n
      \<and> length (from_addresses (recvmmsg v mem)) = n \<and> length (lengths (recvmmsg v mem)) = n"
    using assms by (simp add: recv_ok_def Let_def)
  then show "0 \<le> received (recvmmsg v mem)" "nat (received (recvmmsg v mem)) \<le> n"
    "length (from_addresses (recvmmsg v mem)) = n" "length (lengths (recvmmsg v mem)) = n"
    by linarith+
qed

text \<open>The datagrams a call delivered into the slots.\<close>

definition delivered :: "'ep recv_result \<Rightarrow> ('ep \<times> u8 list) list" where
  "delivered res =
     map (\<lambda>i. (from_addresses res ! i, read_mem (memory res) (1024 * i) (unat (lengths res ! i))))
       [0..<nat (received res)]"

lemma store_received_ok:
  assumes "arrays_ok n v" and "length (from_addresses res) = n" and "length (lengths res) = n"
  shows "arrays_ok n (store_received res v)" "vectors (store_received res v) = vectors v"
    "i < n \<Longrightarrow> header_source (store_received res v) i = from_addresses res ! i"
    "i < n \<Longrightarrow> header_packet (store_received res v) i =
       \<lparr>content = iov_base (vectors v ! i), plength = ucast (lengths res ! i)\<rparr>"
  using assms
  by (auto simp: arrays_ok_def store_received_def header_source_def header_packet_def)

lemma mmsg_on_peer_received_peers:
  assumes "on_peer_received mmsg_lib t p r = Inr (b, r')"
  shows "peers_io (lib r') = peers_io (lib r) \<and> rx (clients_io (lib r')) = rx (clients_io (lib r))
    \<and> (\<forall>n. arrays_ok n (tx (clients_io (lib r'))) = arrays_ok n (tx (clients_io (lib r))))"
  using assms
  by (auto simp: on_peer_received_def dest!: count_frame(1) mmsg_start_send_Inr split: option.splits)

lemma peer_loop_eq_batch:
  assumes "rx (peers_io (lib r)) = v"
  shows "foldR (\<lambda>i r. bindR (on_peer_received mmsg_lib t (header_packet (rx (peers_io (lib r))) i) r)
             (\<lambda>(_, r). Inr r)) is r
       = peer_batch mmsg_lib t (map (header_packet v) is) r"
  using assms
proof (induction "is" arbitrary: r)
  case Nil
  then show ?case by (simp add: peer_batch_def)
next
  case (Cons i "is")
  show ?case
  proof (cases "on_peer_received mmsg_lib t (header_packet v i) r")
    case (Inl e)
    with Cons.prems show ?thesis by (simp add: peer_batch_def)
  next
    case (Inr br)
    obtain b r1 where br: "br = (b, r1)" by (cases br)
    from mmsg_on_peer_received_peers [OF Inr [unfolded br]] Cons.prems
    have "rx (peers_io (lib r1)) = v" by simp
    from Cons.IH [OF this] Inr br Cons.prems show ?thesis by (simp add: peer_batch_def)
  qed
qed

lemma mmsg_peer_batch_frame:
  assumes "peer_batch mmsg_lib t ps r = Inr r'"
  shows "peers_io (lib r') = peers_io (lib r) \<and> rx (clients_io (lib r')) = rx (clients_io (lib r))
    \<and> (\<forall>n. arrays_ok n (tx (clients_io (lib r'))) = arrays_ok n (tx (clients_io (lib r))))"
  using assms
proof (induction ps arbitrary: r)
  case Nil
  then show ?case by (simp add: peer_batch_def)
next
  case (Cons p ps)
  then obtain b r1 where r1: "on_peer_received mmsg_lib t p r = Inr (b, r1)"
    "peer_batch mmsg_lib t ps r1 = Inr r'"
    by (auto simp: peer_batch_def split: prod.splits)
  from Cons.IH [OF r1(2)] mmsg_on_peer_received_peers [OF r1(1)] show ?case by simp
qed

lemma peer_frame_refines:
  assumes w: "worker_ok n (lib r)" and t: "thread_ok t r" and k: "recv_ok n recvmmsg"
    and start: "tx_length (clients_io (lib r)) = 0"
  defines "res \<equiv> recvmmsg (rx (peers_io (lib r))) (message_mem (lib r))"
  shows "\<exists>r'. io_run_peer_receive_frame recvmmsg t r = Inr r'
    \<and> registered r' = registered r \<and> thread_ok t r' \<and> worker_ok n (lib r')
    \<and> mmsg_outbox (lib r') = spec_peers (registered r) (map snd (delivered res))"
proof -
  let ?v = "store_received res (rx (peers_io (lib r)))"
  let ?m = "nat (received res)"
  define r0 where "r0 = r\<lparr>lib := (lib r)\<lparr>peers_io := (peers_io (lib r))\<lparr>rx := ?v\<rparr>, message_mem := memory res\<rparr>\<rparr>"
  define ps where "ps = map (header_packet ?v) [0..<?m]"
  have v: "arrays_ok n (rx (peers_io (lib r)))" using w by (simp add: worker_ok_def)
  note res = recv_okD [OF k v, of "message_mem (lib r)", folded res_def]
  note st = store_received_ok [OF v res(3,4)]
  have tx: "arrays_ok n (tx (clients_io (lib r0)))" using w by (simp add: r0_def worker_ok_def)
  then have len: "length (addresses (tx (clients_io (lib r0)))) = n" by (simp add: arrays_ok_def)
  have "thread_ok t r0" using t by (simp add: r0_def)
  moreover have "\<forall>p \<in> set ps. mmsg_valid (lib r0) p" using tx len by (simp add: mmsg_valid_def)
  moreover have "length ps \<le> mmsg_room (lib r0)"
    using res(2) len start by (simp add: ps_def mmsg_room_def r0_def)
  ultimately obtain r' where r': "peer_batch mmsg_lib t ps r0 = Inr r'" "registered r' = registered r0"
    "thread_ok t r'"
    "mmsg_outbox (lib r') = mmsg_outbox (lib r0) @ spec_peers (registered r0) (map (packet_data mmsg_lib (lib r0)) ps)"
    using mm.peer_batch_refines [of t r0 ps] by blast
  have run: "io_run_peer_receive_frame recvmmsg t r = Inr r'"
    using r'(1) res(1) peer_loop_eq_batch [of r0 ?v t "[0..<?m]"]
    by (simp add: io_run_peer_receive_frame_def Let_def ensure_success_def r0_def ps_def
        res_def [symmetric])
  have slot: "vectors (rx (peers_io (lib r))) = slots n 1024" using w by (simp add: worker_ok_def)
  have data: "map (packet_data mmsg_lib (lib r0)) ps = map snd (delivered res)"
    using res(2) st(4) slot
    by (auto simp: ps_def delivered_def r0_def)
  have empty: "mmsg_outbox (lib r0) = []" using start by (simp add: mmsg_outbox_def r0_def)
  have "worker_ok n (lib r')"
    using mmsg_peer_batch_frame [OF r'(1)] w st(1,2) by (simp add: worker_ok_def r0_def)
  with run r' data empty show ?thesis by (auto simp: r0_def registered_def)
qed

lemma client_loop_refines:
  assumes "thread_ok t r" and "rx (clients_io (lib r)) = v" and "\<forall>p. mmsg_valid (lib r) p"
  shows "\<exists>r'. foldR (\<lambda>i r. on_client_received mmsg_lib t (header_source (rx (clients_io (lib r))) i)
                        (header_packet (rx (clients_io (lib r))) i) r) is r = Inr r'
    \<and> registered r' = spec_clients (map (\<lambda>i. (header_source v i,
          packet_data mmsg_lib (lib r) (header_packet v i))) is) (registered r)
    \<and> thread_ok t r' \<and> lib r' = lib r"
  using assms
proof (induction "is" arbitrary: r)
  case Nil
  then show ?case by (simp add: spec_clients_def)
next
  case (Cons i "is")
  from mm.on_client_received_refines [OF Cons.prems(1) Cons.prems(3) [rule_format],
      of "header_source v i" "header_packet v i"] obtain r1 where
    r1: "on_client_received mmsg_lib t (header_source v i) (header_packet v i) r = Inr r1"
      "registered r1 = spec_client (header_source v i) (packet_data mmsg_lib (lib r) (header_packet v i)) (registered r)"
      "lib r1 = lib r" "thread_ok t r1"
    by auto
  with Cons.IH [of r1] Cons.prems(2,3) show ?case
    by (auto simp: spec_clients_def)
qed

lemma client_frame_refines:
  assumes w: "worker_ok n (lib r)" and t: "thread_ok t r" and k: "recv_ok n recvmmsg"
  defines "res \<equiv> recvmmsg (rx (clients_io (lib r))) (message_mem (lib r))"
  shows "\<exists>r'. io_run_client_receive_frame recvmmsg t r = Inr r'
    \<and> registered r' = spec_clients (delivered res) (registered r)
    \<and> thread_ok t r' \<and> worker_ok n (lib r')
    \<and> tx_length (clients_io (lib r')) = tx_length (clients_io (lib r))
    \<and> rx (peers_io (lib r')) = rx (peers_io (lib r)) \<and> message_mem (lib r') = memory res"
proof -
  let ?v = "store_received res (rx (clients_io (lib r)))"
  let ?m = "nat (received res)"
  define r0 where "r0 = r\<lparr>lib := (lib r)\<lparr>clients_io := (clients_io (lib r))\<lparr>rx := ?v\<rparr>, message_mem := memory res\<rparr>\<rparr>"
  have v: "arrays_ok n (rx (clients_io (lib r)))" using w by (simp add: worker_ok_def)
  note res = recv_okD [OF k v, of "message_mem (lib r)", folded res_def]
  note st = store_received_ok [OF v res(3,4)]
  have "thread_ok t r0" "rx (clients_io (lib r0)) = ?v" "\<forall>p. mmsg_valid (lib r0) p"
    using t w by (auto simp: r0_def mmsg_valid_def worker_ok_def arrays_ok_def)
  from client_loop_refines [OF this, of "[0..<?m]"] obtain r' where
    r': "foldR (\<lambda>i r. on_client_received mmsg_lib t (header_source (rx (clients_io (lib r))) i)
                        (header_packet (rx (clients_io (lib r))) i) r) [0..<?m] r0 = Inr r'"
      "registered r' = spec_clients (map (\<lambda>i. (header_source ?v i,
          packet_data mmsg_lib (lib r0) (header_packet ?v i))) [0..<?m]) (registered r0)"
      "thread_ok t r'" "lib r' = lib r0"
    by blast
  have run: "io_run_client_receive_frame recvmmsg t r = Inr r'"
    using r'(1) res(1)
    by (simp add: io_run_client_receive_frame_def Let_def ensure_success_def r0_def res_def [symmetric])
  have slot: "vectors (rx (clients_io (lib r))) = slots n 1024" using w by (simp add: worker_ok_def)
  have data: "map (\<lambda>i. (header_source ?v i, packet_data mmsg_lib (lib r0) (header_packet ?v i))) [0..<?m]
      = delivered res"
    using res(2) st(3,4) slot by (auto simp: delivered_def r0_def)
  have "worker_ok n (lib r')" using w st(1,2) r'(4) by (simp add: worker_ok_def r0_def)
  with run r' data show ?thesis by (auto simp: r0_def registered_def)
qed

section \<open>The send loop\<close>

text \<open>What the code relies on from \<open>sendmmsg\<close>: offered at least one message it sends at least
  one and at most all, or fails in a way the loop retries; and it does not fail forever.\<close>

definition send_ok :: "(nat \<Rightarrow> int \<Rightarrow> send_outcome) \<Rightarrow> bool" where
  "send_ok f \<longleftrightarrow>
     (\<forall>k vlen. 0 < vlen \<longrightarrow> f k vlen \<noteq> Send_error \<and> (\<forall>n. f k vlen = Sent n \<longrightarrow> 0 < n \<and> n \<le> vlen))
     \<and> (\<forall>k. \<exists>j \<ge> k. \<forall>vlen > 0. \<exists>n. f j vlen = Sent n)"

lemma send_loop_sent:
  assumes sent: "f k remaining = Sent n" and n: "0 < n" "n \<le> remaining" and "0 \<le> offset"
    and rest: "send_loop fuel f io (Suc k) (remaining - n) (offset + n) =
      Some (Inr (map (tx_message io) [nat (offset + n)..<nat (offset + remaining)]))"
  shows "send_loop (Suc fuel) f io k remaining offset =
    Some (Inr (map (tx_message io) [nat offset..<nat (offset + remaining)]))"
proof -
  have "[nat offset..<nat (offset + remaining)]
      = [nat offset..<nat (offset + n)] @ [nat (offset + n)..<nat (offset + remaining)]"
    using n assms(4) upt_add_eq_append [of "nat offset" "nat (offset + n)" "nat (offset + remaining) - nat (offset + n)"]
    by simp
  then show ?thesis using n sent rest by (simp add: send_loop.simps [of "Suc fuel"])
qed

text \<open>Weaker: a call may also fail for good.\<close>

definition sends_progress :: "(nat \<Rightarrow> int \<Rightarrow> send_outcome) \<Rightarrow> bool" where
  "sends_progress f \<longleftrightarrow>
     (\<forall>k vlen n. 0 < vlen \<longrightarrow> f k vlen = Sent n \<longrightarrow> 0 < n \<and> n \<le> vlen)
     \<and> (\<forall>k. \<exists>j \<ge> k. \<forall>vlen > 0. f j vlen \<noteq> Interrupted \<and> f j vlen \<noteq> Would_block)"

lemma send_ok_progress: "send_ok f \<Longrightarrow> sends_progress f"
  unfolding send_ok_def sends_progress_def by (metis send_outcome.distinct(1,3))

text \<open>Induction along the calls of the loop: a call is retried, fails, or sends some messages.\<close>

lemma send_loop_rule [consumes 3, case_names base retry failed sent]:
  assumes f: "sends_progress f" and "0 \<le> remaining" and "0 \<le> offset"
    and base: "\<And>k offset. P k 0 offset"
    and retry: "\<And>k v offset. 0 < v \<Longrightarrow> f k v = Interrupted \<or> f k v = Would_block \<Longrightarrow> P (Suc k) v offset \<Longrightarrow> P k v offset"
    and failed: "\<And>k v offset. 0 < v \<Longrightarrow> 0 \<le> offset \<Longrightarrow> f k v = Send_error \<Longrightarrow> P k v offset"
    and sent: "\<And>k v offset n. f k v = Sent n \<Longrightarrow> 0 < n \<Longrightarrow> n \<le> v \<Longrightarrow> 0 \<le> offset
      \<Longrightarrow> P (Suc k) (v - n) (offset + n) \<Longrightarrow> P k v offset"
  shows "P k remaining offset"
  using assms(2,3)
proof (induction "nat remaining" arbitrary: k remaining offset rule: less_induct)
  case less
  show ?case
  proof (cases "remaining = 0")
    case True
    with base show ?thesis by simp
  next
    case False
    then have pos: "0 < remaining" using less.prems by simp
    from f obtain j where j: "k \<le> j" "\<forall>vlen > 0. f j vlen \<noteq> Interrupted \<and> f j vlen \<noteq> Would_block"
      unfolding sends_progress_def by blast
    from j(1) show ?thesis
    proof (induction "j - k" arbitrary: k rule: less_induct)
      case calls: less
      show ?case
      proof (cases "f k remaining = Interrupted \<or> f k remaining = Would_block")
        case True
        then have "k \<noteq> j" using j(2) pos by blast
        with calls.prems have "j - Suc k < j - k" "Suc k \<le> j" by simp_all
        from retry [OF pos True calls.hyps [OF this]] show ?thesis .
      next
        case False
        then consider n where "f k remaining = Sent n" | "f k remaining = Send_error" by (cases "f k remaining") auto
        then show ?thesis
        proof cases
          case (1 n)
          then have n: "0 < n" "n \<le> remaining" using f pos by (auto simp: sends_progress_def)
          then have "nat (remaining - n) < nat remaining" by simp
          from less.hyps [OF this, of "offset + n" "Suc k"] n less.prems show ?thesis by (auto intro: sent [OF 1])
        next
          case 2
          with failed pos less.prems show ?thesis by blast
        qed
      qed
    qed
  qed
qed

lemma send_loop_retry:
  assumes "f k remaining = Interrupted \<or> f k remaining = Would_block" and "0 < remaining"
  shows "send_loop (Suc fuel) f io k remaining offset = send_loop fuel f io (Suc k) remaining offset"
  using assms by (auto simp: send_loop.simps [of "Suc fuel"])

lemma send_loop_complete:
  assumes ok: "send_ok f" and "0 \<le> remaining" and "0 \<le> offset"
  shows "\<exists>fuel. send_loop fuel f io k remaining offset =
    Some (Inr (map (tx_message io) [nat offset..<nat (offset + remaining)]))"
  using send_ok_progress [OF ok] assms(2,3)
proof (induction k remaining offset rule: send_loop_rule)
  case (retry k v offset)
  then show ?case by (metis send_loop_retry)
next
  case (failed k v offset)
  with ok show ?case by (auto simp: send_ok_def)
next
  case (sent k v offset n)
  then show ?case by (auto intro: send_loop_sent [where n = n])
qed (simp add: send_loop.simps)

text \<open>More fuel does not change the result.\<close>

lemma send_loop_mono:
  "send_loop fuel f io k remaining offset = Some res \<Longrightarrow>
   send_loop (Suc fuel) f io k remaining offset = Some res"
proof (induction fuel arbitrary: k remaining offset res)
  case 0
  then show ?case by (auto simp: send_loop.simps [of 0] send_loop.simps [of "Suc 0"] split: if_splits)
next
  case (Suc fuel)
  show ?case
  proof (cases "0 < remaining")
    case False
    with Suc.prems show ?thesis by (simp add: send_loop.simps)
  next
    case True
    with Suc show ?thesis
      by (cases "f k remaining")
        (auto simp: send_loop.simps [of "Suc fuel" f io k remaining offset]
          send_loop.simps [of "Suc (Suc fuel)" f io k remaining offset])
  qed
qed

lemma worker_ok_begin [simp]:
  "worker_ok n (io_worker_begin_frame io) = worker_ok n io"
  "rx (clients_io (io_worker_begin_frame io)) = rx (clients_io io)"
  "rx (peers_io (io_worker_begin_frame io)) = rx (peers_io io)"
  "message_mem (io_worker_begin_frame io) = message_mem io"
  "tx_length (clients_io (io_worker_begin_frame io)) = 0"
  by (simp_all add: io_worker_begin_frame_def worker_ok_def)

lemma statistics_tick_returns:
  "\<exists>line. on_statistics_tick statistics_print_interval r
     = Inr (line, r\<lparr>per_thread_statistics := replicate (length (per_thread_statistics r)) statistics_zero\<rparr>)"
  using print_statistics_returns [of statistics_print_interval "per_thread_statistics r"]
  by (auto simp: on_statistics_tick_def statistics_print_interval_def)

text \<open>The part of an iteration after the client frame.\<close>

lemma peer_and_timer_phase:
  assumes "worker_ok n (lib r)" and "thread_ok t r" and "recv_ok n (peer_recvmmsg k)"
    and "0 \<le> timer_read k" and "tx_length (clients_io (lib r)) = 0"
  shows "\<exists>line r'. bindR (if peer_ready k then io_run_peer_receive_frame (peer_recvmmsg k) t r else Inr r) (\<lambda>r.
       if timer_ready k
       then bindR (ensure_success (timer_read k)) (\<lambda>_. on_statistics_tick statistics_print_interval r)
       else Inr ([], r)) = Inr (line, r')
    \<and> registered r' = registered r \<and> worker_ok n (lib r') \<and> thread_ok t r'
    \<and> mmsg_outbox (lib r') = spec_peers (registered r)
        (if peer_ready k then map snd (delivered (peer_recvmmsg k (rx (peers_io (lib r))) (message_mem (lib r)))) else [])"
proof -
  obtain r2 where r2: "(if peer_ready k then io_run_peer_receive_frame (peer_recvmmsg k) t r else Inr r) = Inr r2"
    "registered r2 = registered r" "thread_ok t r2" "worker_ok n (lib r2)"
    "mmsg_outbox (lib r2) = spec_peers (registered r)
        (if peer_ready k then map snd (delivered (peer_recvmmsg k (rx (peers_io (lib r))) (message_mem (lib r)))) else [])"
    using peer_frame_refines [OF assms(1,2,3,5)] assms by (cases "peer_ready k") (auto simp: mmsg_outbox_def)
  obtain line where "on_statistics_tick statistics_print_interval r2
     = Inr (line, r2\<lparr>per_thread_statistics := replicate (length (per_thread_statistics r2)) statistics_zero\<rparr>)"
    using statistics_tick_returns by blast
  with r2 assms(4) show ?thesis
    by (auto simp: ensure_success_def registered_def thread_ok_def)
qed

section \<open>One iteration\<close>

lemma receive_phase_refines:
  assumes "worker_ok n (lib r)" and "thread_ok t r"
    and "recv_ok n (client_recvmmsg k)" and "recv_ok n (peer_recvmmsg k)" and "0 \<le> timer_read k"
  shows "let mem = message_mem (lib r);
             cres = client_recvmmsg k (rx (clients_io (lib r))) mem;
             mem' = (if client_ready k then memory cres else mem);
             pres = peer_recvmmsg k (rx (peers_io (lib r))) mem';
             table = spec_clients (if client_ready k then delivered cres else []) (registered r);
             arrived = (if peer_ready k then map snd (delivered pres) else [])
    in \<exists>line r'. receive_phase k t (r\<lparr>lib := io_worker_begin_frame (lib r)\<rparr>) = Inr (line, r')
         \<and> registered r' = table \<and> worker_ok n (lib r') \<and> thread_ok t r'
         \<and> mmsg_outbox (lib r') = spec_peers table arrived"
proof -
  define r0 where "r0 = r\<lparr>lib := io_worker_begin_frame (lib r)\<rparr>"
  define cres where "cres = client_recvmmsg k (rx (clients_io (lib r))) (message_mem (lib r))"
  define mem' where "mem' = (if client_ready k then memory cres else message_mem (lib r))"
  define table where "table = spec_clients (if client_ready k then delivered cres else []) (registered r)"
  have r0: "worker_ok n (lib r0)" "thread_ok t r0" "registered r0 = registered r"
    using assms(1,2) by (simp_all add: r0_def registered_def)
  obtain r1 where r1: "(if client_ready k then io_run_client_receive_frame (client_recvmmsg k) t r0 else Inr r0) = Inr r1"
    "registered r1 = table" "thread_ok t r1" "worker_ok n (lib r1)" "tx_length (clients_io (lib r1)) = 0"
    "rx (peers_io (lib r1)) = rx (peers_io (lib r))" "message_mem (lib r1) = mem'"
    using client_frame_refines [OF r0(1,2) assms(3)] r0
    by (cases "client_ready k") (auto simp: r0_def table_def mem'_def cres_def spec_clients_def)
  show ?thesis
    using peer_and_timer_phase [OF r1(4,3) assms(4,5) r1(5)] r1(1)
    unfolding receive_phase_def r1(1,2,6,7) Let_def table_def [symmetric] cres_def [symmetric]
      mem'_def [symmetric] r0_def [symmetric] by auto
qed

text \<open>The rest of an iteration, after its receive phase.\<close>

lemma worker_iteration_sends:
  assumes "receive_phase k t (r\<lparr>lib := io_worker_begin_frame (lib r)\<rparr>) = Inr (line, r')"
  shows "worker_iteration fuel k t r =
    map_option (\<lambda>res. bindR res (\<lambda>out. Inr (out, line, r'))) (io_run_client_send_frame fuel (sendmmsg k) (lib r'))"
  using assms by (simp add: worker_iteration_def)

lemma send_frame_complete:
  assumes "send_ok f"
  shows "\<exists>fuel. io_run_client_send_frame fuel f io = Some (Inr (mmsg_outbox io))"
  using send_loop_complete [OF assms, of "int (tx_length (clients_io io))" 0 io 0]
  by (auto simp: io_run_client_send_frame_def mmsg_outbox_def)

lemma worker_iteration_returns:
  assumes "worker_ok n (lib r)" and "thread_ok t r"
    and "recv_ok n (client_recvmmsg k)" and "recv_ok n (peer_recvmmsg k)" and "send_ok (sendmmsg k)"
    and "0 \<le> timer_read k"
  shows "let mem = message_mem (lib r);
             cres = client_recvmmsg k (rx (clients_io (lib r))) mem;
             mem' = (if client_ready k then memory cres else mem);
             pres = peer_recvmmsg k (rx (peers_io (lib r))) mem';
             table = spec_clients (if client_ready k then delivered cres else []) (registered r);
             arrived = (if peer_ready k then map snd (delivered pres) else [])
    in \<exists>fuel line r'. worker_iteration fuel k t r = Some (Inr (spec_peers table arrived, line, r'))
         \<and> registered r' = table \<and> worker_ok n (lib r') \<and> thread_ok t r'"
  using receive_phase_refines [OF assms(1-4,6)] send_frame_complete [OF assms(5)]
  unfolding Let_def by (fastforce simp: worker_iteration_sends)

section \<open>Properties\<close>

text \<open>C4. One iteration of the worker loop is the abstract relay: it registers the client
  datagrams that arrived and then transmits, each exactly once, in the order of arrival, to the
  registered endpoint, and with the contents in which they arrived, the peer datagrams whose
  identifier is registered, and nothing else; although receive and send arrays share one
  memory and a packet is never copied. No array is overrun, and the worker is well-formed again.\<close>

theorem worker_iteration_forwards:
  assumes "worker_ok n (lib r)" and "thread_ok t r"
    and "recv_ok n (client_recvmmsg k)" and "recv_ok n (peer_recvmmsg k)" and "send_ok (sendmmsg k)"
    and "0 \<le> timer_read k"
  shows "let mem = message_mem (lib r);
             cres = client_recvmmsg k (rx (clients_io (lib r))) mem;
             mem' = (if client_ready k then memory cres else mem);
             pres = peer_recvmmsg k (rx (peers_io (lib r))) mem';
             table = spec_clients (if client_ready k then delivered cres else []) (registered r);
             arrived = (if peer_ready k then map snd (delivered pres) else [])
    in \<exists>fuel line r'. worker_iteration fuel k t r = Some (Inr (spec_peers table arrived, line, r'))
         \<and> registered r' = table \<and> worker_ok n (lib r') \<and> thread_ok t r'"
  by (rule worker_iteration_returns [OF assms])

text \<open>A worker with two slots; a registration of identifier 1 by endpoint 11, then a peer
  datagram for identifier 1, in the same iteration.\<close>

definition mem_of :: "u8 list \<Rightarrow> nat \<Rightarrow> u8" where
  "mem_of bs a = (if a < length bs then bs ! a else 0)"

lemma read_mem_of [simp]: "n \<le> length bs \<Longrightarrow> read_mem (mem_of bs) 0 n = take n bs"
  by (auto simp: read_mem_def mem_of_def intro: nth_equalityI)

definition demo_relay :: "(u64, u64 io_worker) relay" where
  "demo_relay = (relay_init 1 (projr (io_worker_init 0 2 0 3 4)))\<lparr>this_thread_statistics := [0 \<mapsto> 0]\<rparr>"

definition demo_kernel :: "u64 kernel" where
  "demo_kernel =
     \<lparr>client_ready = True, peer_ready = True, timer_ready = False,
      client_recvmmsg = (\<lambda>v mem. \<lparr>received = 1, from_addresses = [11, 0], lengths = [8, 0],
        memory = mem_of (store_le 8 1)\<rparr>),
      peer_recvmmsg = (\<lambda>v mem. \<lparr>received = 1, from_addresses = [12, 0], lengths = [9, 0],
        memory = mem_of (store_le 8 1 @ [100])\<rparr>),
      timer_read = 8, sendmmsg = (\<lambda>_ vlen. Sent vlen)\<rparr>"

lemma demo_relay_ok: "worker_ok 2 (lib demo_relay)" "thread_ok 0 demo_relay"
proof -
  from io_worker_init_ok [of 2 "0 :: u64" 0 3 4] obtain io :: "u64 io_worker" where
    "io_worker_init 0 2 0 3 4 = Inr io" "worker_ok 2 io" by auto
  then show "worker_ok 2 (lib demo_relay)" by (simp add: demo_relay_def relay_init_def)
  show "thread_ok 0 demo_relay" by (simp add: demo_relay_def relay_init_def thread_ok_def)
qed

lemma demo_kernel_ok:
  "recv_ok 2 (client_recvmmsg demo_kernel)" "recv_ok 2 (peer_recvmmsg demo_kernel)"
  "send_ok (sendmmsg demo_kernel)" "0 \<le> timer_read demo_kernel"
  by (auto simp: demo_kernel_def recv_ok_def send_ok_def)

lemma demo_delivered:
  "delivered (client_recvmmsg demo_kernel v mem) = [(11, store_le 8 1)]"
  "delivered (peer_recvmmsg demo_kernel v mem) = [(12, store_le 8 1 @ [100])]"
  by (simp_all add: demo_kernel_def delivered_def del: store_le.simps)

lemma worker_iteration_forwards_witness:
  "\<exists>fuel line r'. worker_iteration fuel demo_kernel 0 demo_relay
     = Some (Inr ([(11, store_le 8 1 @ [100])], line, r'))"
proof -
  have ready: "client_ready demo_kernel" "peer_ready demo_kernel" by (simp_all add: demo_kernel_def)
  have "registered demo_relay = Map.empty"
    by (simp add: demo_relay_def relay_init_def registered_def fun_eq_iff)
  then have "spec_peers (spec_clients [(11, store_le 8 1)] (registered demo_relay)) [store_le 8 1 @ [100]]
      = [(11, store_le 8 1 @ [100])]"
    by (simp add: spec_clients_def spec_client_def spec_peer_def del: store_le.simps)
  with worker_iteration_forwards [OF demo_relay_ok demo_kernel_ok] ready show ?thesis
    by (auto simp: Let_def demo_delivered simp del: store_le.simps)
qed

lemma send_frame_mono:
  "io_run_client_send_frame fuel f io = Some res \<Longrightarrow> io_run_client_send_frame (fuel + n) f io = Some res"
  by (induction n) (auto simp: io_run_client_send_frame_def intro: send_loop_mono)

text \<open>C20. The send loop transmits everything exactly once and ends: however \<open>sendmmsg\<close> splits the
  work and however often it is interrupted, with enough fuel the messages transmitted are those
  queued, in order, and a longer run changes nothing.\<close>

theorem send_frame_exactly_once:
  assumes "send_ok f"
  shows "\<exists>fuel. \<forall>more. io_run_client_send_frame (fuel + more) f io = Some (Inr (mmsg_outbox io))"
  using send_frame_complete [OF assms] send_frame_mono by metis

text \<open>A kernel that is interrupted at every other call and otherwise takes one message.\<close>

definition slow_sendmmsg :: "nat \<Rightarrow> int \<Rightarrow> send_outcome" where
  "slow_sendmmsg k vlen = (if even k then Interrupted else Sent 1)"

lemma slow_sendmmsg_ok: "send_ok slow_sendmmsg"
  unfolding send_ok_def
proof (intro conjI allI impI)
  fix k
  show "\<exists>j \<ge> k. \<forall>vlen > 0. \<exists>n. slow_sendmmsg j vlen = Sent n"
    by (rule exI [of _ "2 * k + 1"]) (simp add: slow_sendmmsg_def)
qed (auto simp: slow_sendmmsg_def split: if_splits)

definition demo_queue :: "u64 io_worker" where
  "demo_queue = queued 22 \<lparr>content = 8, plength = 1\<rparr>
     (queued 11 \<lparr>content = 0, plength = 2\<rparr> (lib demo_relay\<lparr>message_mem := mem_of [1, 2, 3, 4, 5, 6, 7, 8, 9]\<rparr>))"

lemma send_frame_exactly_once_witness:
  "\<exists>fuel. io_run_client_send_frame fuel slow_sendmmsg demo_queue = Some (Inr [(11, [1, 2]), (22, [9])])"
proof -
  obtain io :: "u64 io_worker" where io: "io_worker_init 0 2 0 3 4 = Inr io" "worker_ok 2 io"
    "tx_length (clients_io io) = 0"
    using io_worker_init_ok [of 2 "0 :: u64" 0 3 4] by auto
  then have demo: "lib demo_relay = io" by (simp add: demo_relay_def relay_init_def)
  have array: "arrays_ok 2 (tx (clients_io io))" "length (addresses (tx (clients_io io))) = 2"
    using io(2) by (simp_all add: worker_ok_def arrays_ok_def)
  let ?io = "io\<lparr>message_mem := mem_of [1, 2, 3, 4, 5, 6, 7, 8, 9]\<rparr>"
  have ok: "mmsg_valid ?io p" "mmsg_room ?io = 2" "mmsg_outbox ?io = []"
    "mmsg_valid (queued a b ?io) p" "mmsg_room (queued a b ?io) = 1" for p a b
    using array io(3) by (simp_all add: mmsg_valid_def mmsg_room_def mmsg_outbox_def)
  have "mmsg_outbox demo_queue = [(11, [1, 2]), (22, [9])]"
    unfolding demo_queue_def demo
    using ok by (simp add: mmsg_outbox_queued) (simp add: read_mem_def mem_of_def upt_rec)
  with send_frame_exactly_once [OF slow_sendmmsg_ok, of demo_queue] show ?thesis
    by (metis add_0_right)
qed

text \<open>The worker's arrays can be set up exactly up to a capacity of 2^21 messages: the offset of
  a slot is computed in \<open>int32_t\<close>, and beyond that the multiplication overflows. At the capacity
  the code uses, set-up succeeds, header \<open>i\<close> of each array designates address \<open>i\<close> and
  vector \<open>i\<close>, and the receive slots are disjoint and fill the allocated memory.\<close>

theorem worker_setup_bounds:
  "((\<exists>io. io_worker_init z (int n) i c p = Inr io) \<longleftrightarrow> n \<le> 2 ^ 21)
   \<and> (\<exists>io. io_worker_init z k_mmsg_capacity i c p = Inr io \<and> worker_ok 65536 io
        \<and> concat (map (\<lambda>iov. [iov_base iov..<iov_base iov + iov_len iov]) (vectors (rx (peers_io io))))
            = [0..<nat (k_mmsg_capacity * k_memory_per_packet)])"
proof (intro conjI iffI)
  assume "n \<le> 2 ^ 21"
  then show "\<exists>io. io_worker_init z (int n) i c p = Inr io"
    using io_worker_init_ok [of n z i c p] by auto
next
  assume returns: "\<exists>io. io_worker_init z (int n) i c p = Inr io"
  show "n \<le> 2 ^ 21"
  proof (rule ccontr)
    assume "\<not> n \<le> 2 ^ 21"
    then have "io_vectors_init z (int n) 1024 = Inl Undefined_behaviour"
      by (intro io_vectors_init_overflow [of "2 ^ 21"]) simp_all
    with returns show False by (simp add: io_worker_init_def io_state_init_def k_memory_per_packet_def)
  qed
next
  from io_worker_init_ok [of 65536 z i c p] obtain io where
    "io_worker_init z k_mmsg_capacity i c p = Inr io" "worker_ok 65536 io"
    by (auto simp: k_mmsg_capacity_def)
  moreover from this(2) have "vectors (rx (peers_io io)) = slots 65536 1024" by (simp add: worker_ok_def)
  ultimately show "\<exists>io. io_worker_init z k_mmsg_capacity i c p = Inr io \<and> worker_ok 65536 io
      \<and> concat (map (\<lambda>iov. [iov_base iov..<iov_base iov + iov_len iov]) (vectors (rx (peers_io io))))
          = [0..<nat (k_mmsg_capacity * k_memory_per_packet)]"
    using slots_cover [of 65536 1024]
    by (auto simp del: upt_rec_numeral simp: k_mmsg_capacity_def k_memory_per_packet_def)
qed

end
