(* ===== verification/Sockets.thy ===== *)
theory Sockets
  imports Urn_Prelude
begin

text \<open>
  The set-up code of the experiments: \<open>ensure_success\<close>, \<open>bindable_address\<close>, the creation and the
  binding of UDP sockets, in \<^verbatim>\<open>mmsg/relay.cpp\<close> and \<^verbatim>\<open>uring/relay.cpp\<close>. A program is a function of
  the operating system and of the calls made so far; it returns its result, or the fault that ended
  it, and the calls made by then. The operating system is a parameter: the value a call returns may
  depend on every earlier call.
\<close>

section \<open>Programs that make system calls\<close>

datatype sockopt = SO_RCVBUF | SO_SNDBUF | SO_REUSEADDR | SO_REUSEPORT | SO_INCOMING_CPU
  | SO_ATTACH_REUSEPORT_CBPF

text \<open>The calls of the libuv experiment; \<open>nat\<close> is the index of the thread whose loop, sockets
  and system thread they are about.\<close>

datatype uv_socket = Client_socket | Peer_socket

datatype uv_call =
    Uv_timer_init
  | Uv_timer_start int int
  | Uv_run_main
  | Uv_loop_init nat
  | Uv_udp_init_ex nat uv_socket int
  | Uv_fileno nat uv_socket
  | Uv_setsockopt nat uv_socket string
  | Wsa_ioctl nat uv_socket nat
  | Uv_ip4_addr string "16 word"
  | Uv_udp_bind nat uv_socket string "16 word" int
  | Uv_udp_recv_start nat uv_socket
  | Start_sys_thread nat

text \<open>An address is named by the port it was resolved from; the calls that start a worker carry
  the worker's index and the client and the peer socket it is given.\<close>

type_synonym addrinfo = string

datatype syscall =
    Getaddrinfo string
  | Print_address addrinfo
  | Socket addrinfo
  | Fcntl_getfl int
  | Fcntl_setfl int int
  | Setsockopt int sockopt int
  | Bind int addrinfo
  | Print string
  | Ring_init nat
  | Register_files "int list"
  | Register_buffers nat nat
  | Set_affinity nat
  | Latch_wait
  | Timerfd_create
  | Timerfd_settime int int
  | Signal_sigint
  | Spawn_worker nat int int
  | Run_worker nat int int
  | Join_workers
  | Uv uv_call

type_synonym os = "syscall list \<Rightarrow> syscall \<Rightarrow> int"

type_synonym 'a prog = "os \<Rightarrow> syscall list \<Rightarrow> 'a res \<times> syscall list"

definition returnP :: "'a \<Rightarrow> 'a prog" where
  "returnP x = (\<lambda>os tr. (Inr x, tr))"

definition failP :: "fault \<Rightarrow> 'a prog" where
  "failP e = (\<lambda>os tr. (Inl e, tr))"

definition callP :: "syscall \<Rightarrow> int prog" where
  "callP c = (\<lambda>os tr. (Inr (os tr c), tr @ [c]))"

definition bindP :: "'a prog \<Rightarrow> ('a \<Rightarrow> 'b prog) \<Rightarrow> 'b prog" where
  "bindP m f = (\<lambda>os tr. case m os tr of (Inl e, tr') \<Rightarrow> (Inl e, tr') | (Inr x, tr') \<Rightarrow> f x os tr')"

definition lift_res :: "'a res \<Rightarrow> 'a prog" where
  "lift_res x = (case x of Inl e \<Rightarrow> failP e | Inr y \<Rightarrow> returnP y)"

definition thenP :: "'a prog \<Rightarrow> 'b prog \<Rightarrow> 'b prog" where
  "thenP m n = bindP m (\<lambda>_. n)"

fun mapP :: "('x \<Rightarrow> 'a prog) \<Rightarrow> 'x list \<Rightarrow> 'a list prog" where
  "mapP f [] = returnP []"
| "mapP f (x # xs) = bindP (f x) (\<lambda>y. bindP (mapP f xs) (\<lambda>ys. returnP (y # ys)))"

named_theorems prog_defs \<open>the program combinators\<close>

lemmas [prog_defs] = returnP_def failP_def callP_def bindP_def thenP_def

lemma bindP_simps [simp]:
  "bindP (returnP x) f = f x" "bindP (failP e) f = failP e"
  "bindP (callP c) g os tr = g (os tr c) os (tr @ [c])"
  "thenP (callP c) n os tr = n os (tr @ [c])"
  by (simp_all add: prog_defs)

lemma bindP_apply [simp]:
  "m os tr = (Inl e, tr') \<Longrightarrow> bindP m f os tr = (Inl e, tr')"
  "m os tr = (Inr x, tr') \<Longrightarrow> bindP m f os tr = f x os tr'"
  "m os tr = (Inr x, tr') \<Longrightarrow> thenP m n os tr = n os tr'"
  by (simp_all add: bindP_def thenP_def)

section \<open>Helpers of the experiments\<close>

definition ensure_successP :: "syscall \<Rightarrow> int prog" where
  "ensure_successP c = bindP (callP c) (\<lambda>code. if code \<ge> 0 then returnP code else failP (Abort ''ensure_success''))"

definition bindable_address :: "string \<Rightarrow> addrinfo prog" where
  "bindable_address port = bindP (ensure_successP (Getaddrinfo port)) (\<lambda>_. returnP port)"

definition O_NONBLOCK :: int where "O_NONBLOCK = 2048"

definition set_nonblocking :: "int \<Rightarrow> unit prog" where
  "set_nonblocking sfd =
     bindP (callP (Fcntl_getfl sfd)) (\<lambda>flags.
     if flags = -1 then failP (Abort [])
     else bindP (callP (Fcntl_setfl sfd (or flags O_NONBLOCK))) (\<lambda>n.
       if n = -1 then failP (Abort []) else returnP ()))"

definition socket_buffer_size :: int where "socket_buffer_size = 4129920"

text \<open>The four options both experiments set.\<close>

definition set_udp_options :: "int \<Rightarrow> int prog" where
  "set_udp_options fd =
     thenP (ensure_successP (Setsockopt fd SO_RCVBUF socket_buffer_size))
    (thenP (ensure_successP (Setsockopt fd SO_SNDBUF socket_buffer_size))
    (thenP (ensure_successP (Setsockopt fd SO_REUSEADDR 1))
    (thenP (ensure_successP (Setsockopt fd SO_REUSEPORT 1))
    (returnP fd))))"

definition create_udp_socket_mmsg :: "addrinfo \<Rightarrow> int prog" where
  "create_udp_socket_mmsg address =
     bindP (ensure_successP (Socket address)) (\<lambda>fd.
     thenP (set_nonblocking fd) (set_udp_options fd))"

definition create_udp_socket_uring :: "addrinfo \<Rightarrow> int prog" where
  "create_udp_socket_uring address = bindP (ensure_successP (Socket address)) set_udp_options"

definition bind_socket :: "int \<Rightarrow> addrinfo \<Rightarrow> unit prog" where
  "bind_socket fd address =
     bindP (callP (Bind fd address)) (\<lambda>bind_status.
     if bind_status = 0 then returnP () else failP (Abort ''error binding socket''))"

text \<open>\<open>error(1, errno, ...)\<close> prints its message and exits with status 1 when the option is refused.\<close>

definition attach_bpf :: "int \<Rightarrow> unit prog" where
  "attach_bpf fd =
     bindP (callP (Setsockopt fd SO_ATTACH_REUSEPORT_CBPF 2)) (\<lambda>n.
     if n \<noteq> 0 then failP (Exit_status 1) else returnP ())"

lemmas [prog_defs] = ensure_successP_def bindable_address_def set_nonblocking_def
  set_udp_options_def create_udp_socket_mmsg_def create_udp_socket_uring_def bind_socket_def
  attach_bpf_def

section \<open>Reasoning about traces\<close>

text \<open>\<open>emits m P\<close>: whatever was called before, \<open>m\<close> either returns some \<open>x\<close> having made
  the calls \<open>cs\<close> with \<open>P x cs\<close>, or ends the process having started no worker: by an abort, or with
  status 1 after the system has refused to attach the filter.\<close>

fun starts_worker :: "syscall \<Rightarrow> bool" where
  "starts_worker (Spawn_worker i c p) = True"
| "starts_worker (Run_worker i c p) = True"
| "starts_worker _ = False"

definition quiet :: "syscall list \<Rightarrow> bool" where
  "quiet cs \<longleftrightarrow> (\<forall>c \<in> set cs. \<not> starts_worker c)"

lemma quiet_simps [simp]:
  "quiet []" "quiet (c # cs) \<longleftrightarrow> \<not> starts_worker c \<and> quiet cs"
  "quiet (cs @ ds) \<longleftrightarrow> quiet cs \<and> quiet ds"
  by (auto simp: quiet_def)

definition ended_by :: "fault \<Rightarrow> syscall list \<Rightarrow> bool" where
  "ended_by e cs \<longleftrightarrow> (\<exists>s. e = Abort s)
     \<or> e = Exit_status 1 \<and> (\<exists>ds fd. cs = ds @ [Setsockopt fd SO_ATTACH_REUSEPORT_CBPF 2])"

lemma ended_by_append: "ended_by e cs \<Longrightarrow> ended_by e (ds @ cs)"
  unfolding ended_by_def by (metis append_assoc)

lemma ended_by_Abort [simp]: "ended_by (Abort s) cs"
  by (simp add: ended_by_def)

definition emits :: "'a prog \<Rightarrow> ('a \<Rightarrow> syscall list \<Rightarrow> bool) \<Rightarrow> bool" where
  "emits m P \<longleftrightarrow> (\<forall>os tr. \<exists>cs. snd (m os tr) = tr @ cs
     \<and> (case fst (m os tr) of Inl e \<Rightarrow> quiet cs \<and> ended_by e cs | Inr x \<Rightarrow> P x cs))"

named_theorems emits_intros \<open>the traces of the helpers\<close>

lemma emits_return: "P x [] \<Longrightarrow> emits (returnP x) P"
  by (simp add: emits_def returnP_def)

lemma emits_fail [emits_intros]: "emits (failP (Abort s)) P"
  by (simp add: emits_def failP_def)

lemma emits_call: "(\<And>n. P n [c]) \<Longrightarrow> emits (callP c) P"
  by (simp add: emits_def callP_def)

lemma emits_bind:
  assumes m: "emits m P"
    and k: "\<And>x cs. P x cs \<Longrightarrow> quiet cs \<and> emits (k x) (\<lambda>y ds. Q y (cs @ ds))"
  shows "emits (bindP m k) Q"
  unfolding emits_def
proof (intro allI)
  fix os tr
  from m obtain cs where cs: "snd (m os tr) = tr @ cs"
    "case fst (m os tr) of Inl e \<Rightarrow> quiet cs \<and> ended_by e cs | Inr x \<Rightarrow> P x cs"
    unfolding emits_def by blast
  show "\<exists>cs. snd (bindP m k os tr) = tr @ cs
     \<and> (case fst (bindP m k os tr) of Inl e \<Rightarrow> quiet cs \<and> ended_by e cs | Inr x \<Rightarrow> Q x cs)"
  proof (cases "m os tr")
    case (Pair res tr')
    show ?thesis
    proof (cases res)
      case (Inl e)
      with Pair cs show ?thesis by (auto simp: bindP_def)
    next
      case (Inr x)
      with Pair cs have "P x cs" "tr' = tr @ cs" by auto
      with k have "quiet cs" "emits (k x) (\<lambda>y ds. Q y (cs @ ds))" by auto
      then obtain ds where "snd (k x os tr') = tr' @ ds"
        "case fst (k x os tr') of Inl e \<Rightarrow> quiet ds \<and> ended_by e ds | Inr y \<Rightarrow> Q y (cs @ ds)"
        unfolding emits_def by blast
      with Pair Inr \<open>quiet cs\<close> \<open>tr' = tr @ cs\<close> show ?thesis
        by (intro exI [of _ "cs @ ds"]) (auto simp: bindP_def ended_by_append split: sum.splits)
    qed
  qed
qed

lemma emits_conseq:
  assumes "emits m P" and "\<And>x cs. P x cs \<Longrightarrow> Q x cs"
  shows "emits m Q"
  unfolding emits_def
proof (intro allI)
  fix os tr
  from assms(1) obtain cs where "snd (m os tr) = tr @ cs"
    "case fst (m os tr) of Inl e \<Rightarrow> quiet cs \<and> ended_by e cs | Inr x \<Rightarrow> P x cs"
    unfolding emits_def by blast
  then show "\<exists>cs. snd (m os tr) = tr @ cs
      \<and> (case fst (m os tr) of Inl e \<Rightarrow> quiet cs \<and> ended_by e cs | Inr x \<Rightarrow> Q x cs)"
    using assms(2) by (intro exI [of _ cs]) (cases "fst (m os tr)", auto)
qed

text \<open>The form of the helpers below: the calls are determined by the result.\<close>

lemma emits_bind_exact:
  assumes "emits m (\<lambda>x cs. cs = f x)" and "\<And>x. quiet (f x)"
    and "\<And>x. emits (k x) (\<lambda>y ds. Q y (f x @ ds))"
  shows "emits (bindP m k) Q"
  by (rule emits_bind [OF assms(1)]) (use assms(2,3) in simp)

lemma emits_ensure_success:
  "emits (ensure_successP c) (\<lambda>n cs. cs = [c])" if "\<not> starts_worker c"
  unfolding ensure_successP_def
  by (rule emits_bind_exact [OF emits_call [of _ "c"]])
    (use that in \<open>auto intro: emits_return emits_fail\<close>)

text \<open>A loop over \<open>xs\<close>: the calls are those of the iterations, in order.\<close>

lemma emits_mapP:
  assumes "\<And>x. x \<in> set xs \<Longrightarrow> emits (f x) (G x)" and "\<And>x y cs. G x y cs \<Longrightarrow> quiet cs"
  shows "emits (mapP f xs) (\<lambda>ys cs. \<exists>css. cs = concat css \<and> quiet cs
    \<and> length ys = length xs \<and> length css = length xs
    \<and> (\<forall>i < length xs. G (xs ! i) (ys ! i) (css ! i)))"
  using assms(1)
proof (induction xs)
  case Nil
  then show ?case by (simp add: emits_return)
next
  case (Cons x xs)
  let ?I = "\<lambda>ys cs. \<exists>css. cs = concat css \<and> quiet cs \<and> length ys = length xs
    \<and> length css = length xs \<and> (\<forall>i < length xs. G (xs ! i) (ys ! i) (css ! i))"
  let ?J = "\<lambda>ys cs. \<exists>css. cs = concat css \<and> quiet cs \<and> length ys = length (x # xs)
    \<and> length css = length (x # xs) \<and> (\<forall>i < length (x # xs). G ((x # xs) ! i) (ys ! i) (css ! i))"
  have IH: "emits (mapP f xs) ?I" using Cons by simp
  have tail: "emits (bindP (mapP f xs) (\<lambda>ys. returnP (y # ys))) (\<lambda>zs ds. ?J zs (cs @ ds))"
    if first: "G x y cs" for y cs
  proof (rule emits_bind [OF IH])
    fix ys ds assume "?I ys ds"
    then obtain css where css: "ds = concat css" "quiet ds" "length ys = length xs"
      "length css = length xs" "\<forall>i < length xs. G (xs ! i) (ys ! i) (css ! i)" by blast
    have "?J (y # ys) (cs @ ds)"
      using css first assms(2) [OF first] by (intro exI [of _ "cs # css"]) (auto simp: nth_Cons split: nat.split)
    then show "quiet ds \<and> emits (returnP (y # ys)) (\<lambda>zs es. ?J zs (cs @ ds @ es))"
      using css(2) by (simp add: emits_return)
  qed
  show ?case
    unfolding mapP.simps
    by (rule emits_bind [OF Cons.prems [of x]]) (use assms(2) tail in auto)
qed

text \<open>The calls that create one socket, given the descriptor.\<close>

definition option_calls :: "int \<Rightarrow> syscall list" where
  "option_calls fd = [Setsockopt fd SO_RCVBUF socket_buffer_size, Setsockopt fd SO_SNDBUF socket_buffer_size,
     Setsockopt fd SO_REUSEADDR 1, Setsockopt fd SO_REUSEPORT 1]"

lemma quiet_option_calls [simp]: "quiet (option_calls fd)"
  by (simp add: option_calls_def)

lemma emits_thenP_ensure:
  assumes "\<not> starts_worker c" and "emits m (\<lambda>y ds. Q y (c # ds))"
  shows "emits (thenP (ensure_successP c) m) Q"
  unfolding thenP_def
  by (rule emits_bind_exact [OF emits_ensure_success [OF assms(1)]]) (use assms in simp_all)

lemma emits_set_udp_options: "emits (set_udp_options fd) (\<lambda>fd' cs. fd' = fd \<and> cs = option_calls fd)"
  unfolding set_udp_options_def
  by (intro emits_thenP_ensure emits_return) (simp_all add: option_calls_def)

lemma emits_create_udp_socket_uring:
  "emits (create_udp_socket_uring a) (\<lambda>fd cs. cs = Socket a # option_calls fd)"
  unfolding create_udp_socket_uring_def
  by (rule emits_bind_exact [OF emits_ensure_success])
    (auto intro: emits_conseq [OF emits_set_udp_options])

text \<open>In nonblocking mode the flags set are those read, with one more bit.\<close>

lemma emits_set_nonblocking:
  "emits (set_nonblocking fd) (\<lambda>_ cs. \<exists>flags. cs = [Fcntl_getfl fd, Fcntl_setfl fd (or flags O_NONBLOCK)])"
  unfolding set_nonblocking_def
proof (rule emits_bind_exact [OF emits_call [of _ "Fcntl_getfl fd"]])
  fix flags
  let ?P = "\<lambda>_ ds. \<exists>flags. [Fcntl_getfl fd] @ ds = [Fcntl_getfl fd, Fcntl_setfl fd (or flags O_NONBLOCK)]"
  have "emits (bindP (callP (Fcntl_setfl fd (or flags O_NONBLOCK)))
      (\<lambda>n. if n = -1 then failP (Abort []) else returnP ())) ?P"
    by (rule emits_bind_exact [OF emits_call [of _ "Fcntl_setfl fd (or flags O_NONBLOCK)"]])
      (auto intro: emits_return emits_fail)
  then show "emits (if flags = -1 then failP (Abort [])
      else bindP (callP (Fcntl_setfl fd (or flags O_NONBLOCK)))
        (\<lambda>n. if n = -1 then failP (Abort []) else returnP ())) ?P"
    by (simp add: emits_fail)
qed simp_all

lemma emits_bindable_address:
  "emits (bindable_address port) (\<lambda>a cs. a = port \<and> cs = [Getaddrinfo port])"
  unfolding bindable_address_def
  by (rule emits_bind_exact [OF emits_ensure_success]) (auto intro: emits_return)

lemma emits_bind_socket: "emits (bind_socket fd a) (\<lambda>_ cs. cs = [Bind fd a])"
  unfolding bind_socket_def
  by (rule emits_bind_exact [OF emits_call [of _ "Bind fd a"]]) (auto intro: emits_return emits_fail)

lemma emits_attach_bpf: "emits (attach_bpf fd) (\<lambda>_ cs. cs = [Setsockopt fd SO_ATTACH_REUSEPORT_CBPF 2])"
  by (auto simp: emits_def attach_bpf_def bindP_def callP_def failP_def returnP_def ended_by_def)

lemmas [emits_intros] = emits_create_udp_socket_uring emits_bindable_address emits_bind_socket
  emits_attach_bpf

end
