(* ===== verification/Setup.thy ===== *)
theory Setup
  imports Sockets Mmsg
begin

text \<open>
  \<open>relay::run\<close> of \<^verbatim>\<open>mmsg/relay.cpp\<close> up to the start of the worker loops, \<open>relay::run\<close> of
  \<^verbatim>\<open>uring/relay.cpp\<close>, and the part of the mmsg worker that runs before its loop. Starting a thread
  is the call \<open>Spawn_worker\<close>, running the worker on the calling thread the call \<open>Run_worker\<close>;
  what the started workers then do is modelled in theories \<open>Mmsg\<close> and \<open>Uring\<close>.
\<close>

section \<open>The mmsg experiment\<close>

definition client_port :: string where "client_port = ''3478''"

definition peer_port :: string where "peer_port = ''3479''"

text \<open>The two sockets of one worker, the client's first.\<close>

definition create_sockets :: "addrinfo \<Rightarrow> addrinfo \<Rightarrow> nat \<Rightarrow> (int \<times> int) prog" where
  "create_sockets client_address peer_address i =
     bindP (create_udp_socket_mmsg client_address) (\<lambda>c.
     bindP (create_udp_socket_mmsg peer_address) (\<lambda>p.
     thenP (attach_bpf c) (thenP (attach_bpf p) (returnP (c, p)))))"

definition bind_sockets :: "addrinfo \<Rightarrow> addrinfo \<Rightarrow> int \<times> int \<Rightarrow> unit prog" where
  "bind_sockets client_address peer_address = (\<lambda>(c, p).
     thenP (bind_socket c client_address) (bind_socket p peer_address))"

definition spawn_mmsg :: "(int \<times> int) list \<Rightarrow> nat \<Rightarrow> int prog" where
  "spawn_mmsg sockets i = callP (Spawn_worker i (fst (sockets ! i)) (snd (sockets ! i)))"

definition run_mmsg :: "u16 \<Rightarrow> int prog" where
  "run_mmsg threads =
     (let thread_count = max 1 (unat threads)
      in bindP (bindable_address client_port) (\<lambda>ca.
         bindP (bindable_address peer_port) (\<lambda>pa.
         thenP (callP (Print_address ca))
        (thenP (callP (Print_address pa))
        (bindP (mapP (create_sockets ca pa) [0..<thread_count]) (\<lambda>sockets.
         thenP (mapP (\<lambda>i. bind_sockets ca pa (sockets ! i)) [0..<thread_count])
        (thenP (mapP (spawn_mmsg sockets) [1..<thread_count])
        (thenP (callP (Run_worker 0 (fst (sockets ! 0)) (snd (sockets ! 0))))
        (returnP 0)))))))))"

text \<open>The worker before its loop: affinity (a failure is only printed), the start-up latch, the
  statistics timer, which only worker 0 arms, and \<open>on_thread_start\<close>.\<close>

definition is_main_worker :: "nat \<Rightarrow> bool" where
  "is_main_worker i \<longleftrightarrow> i = 0"

definition mmsg_worker_start ::
  "nat \<Rightarrow> nat \<Rightarrow> ('ep, 'l) relay \<Rightarrow> (int \<times> ('ep, 'l) relay) prog"
where
  "mmsg_worker_start t index r =
     bindP (callP (Set_affinity index)) (\<lambda>affinity.
     thenP (if affinity \<noteq> 0 then callP (Print ''thread affinity failed'') else returnP 0)
    (thenP (callP Latch_wait)
    (bindP (ensure_successP Timerfd_create) (\<lambda>timer_fd.
     thenP (if is_main_worker index
            then ensure_successP (Timerfd_settime timer_fd 5) else returnP 0)
    (case on_thread_start t (of_nat index) r of
       Inl e \<Rightarrow> failP e
     | Inr r' \<Rightarrow> returnP (timer_fd, r'))))))"

section \<open>The uring experiment\<close>

definition run_uring :: "u16 \<Rightarrow> int prog" where
  "run_uring threads =
     (let thread_count = max 1 (unat threads)
      in thenP (callP Signal_sigint)
        (bindP (bindable_address client_port) (\<lambda>ca.
         bindP (bindable_address peer_port) (\<lambda>pa.
         thenP (callP (Print_address ca))
        (thenP (callP (Print_address pa))
        (thenP (mapP (\<lambda>i. callP (Spawn_worker i (-1) (-1))) [1..<thread_count])
        (thenP (callP (Run_worker 0 (-1) (-1)))
        (thenP (callP (Print ''joining''))
        (thenP (callP Join_workers)
        (thenP (callP (Print ''joined''))
        (returnP 0)))))))))))"

section \<open>Traces\<close>

definition socket_calls :: "addrinfo \<Rightarrow> int \<Rightarrow> int \<Rightarrow> syscall list" where
  "socket_calls address fd flags =
     Socket address # Fcntl_getfl fd # Fcntl_setfl fd (or flags O_NONBLOCK) # option_calls fd"

lemma quiet_socket_calls [simp]: "quiet (socket_calls a fd flags)"
  by (simp add: socket_calls_def)

lemma emits_create_udp_socket_mmsg:
  "emits (create_udp_socket_mmsg a) (\<lambda>fd cs. \<exists>flags. cs = socket_calls a fd flags)"
  unfolding create_udp_socket_mmsg_def thenP_def
  by (rule emits_bind_exact [OF emits_ensure_success])
    (auto simp: socket_calls_def intro!: emits_bind [OF emits_set_nonblocking] emits_conseq [OF emits_set_udp_options])

definition pair_calls :: "int \<times> int \<Rightarrow> syscall list \<Rightarrow> bool" where
  "pair_calls s cs \<longleftrightarrow> (\<exists>f g. cs =
     socket_calls client_port (fst s) f @ socket_calls peer_port (snd s) g
     @ [Setsockopt (fst s) SO_ATTACH_REUSEPORT_CBPF 2, Setsockopt (snd s) SO_ATTACH_REUSEPORT_CBPF 2])"

lemma quiet_pair_calls: "pair_calls s cs \<Longrightarrow> quiet cs"
  by (auto simp: pair_calls_def)

lemma emits_create_sockets:
  "emits (create_sockets client_port peer_port i) pair_calls"
proof -
  have "emits (create_sockets client_port peer_port i)
    (\<lambda>s cs. \<exists>f g. cs = socket_calls client_port (fst s) f @ socket_calls peer_port (snd s) g
     @ [Setsockopt (fst s) SO_ATTACH_REUSEPORT_CBPF 2, Setsockopt (snd s) SO_ATTACH_REUSEPORT_CBPF 2])"
    unfolding create_sockets_def thenP_def
    by (auto intro!: emits_bind [OF emits_create_udp_socket_mmsg]
        emits_bind [OF emits_create_udp_socket_mmsg] emits_bind_exact [OF emits_attach_bpf] emits_return)
      blast+
  then show ?thesis by (simp add: pair_calls_def [abs_def])
qed

lemma emits_bind_sockets:
  "emits (bind_sockets ca pa s) (\<lambda>_ cs. cs = [Bind (fst s) ca, Bind (snd s) pa])"
  unfolding bind_sockets_def thenP_def
  by (cases s) (auto intro!: emits_bind_exact [OF emits_bind_socket] emits_conseq [OF emits_bind_socket])

lemma mapP_callP: "\<exists>ys. mapP (\<lambda>x. callP (c x)) xs os tr = (Inr ys, tr @ map c xs)"
proof (induction xs arbitrary: tr)
  case (Cons x xs)
  from Cons [of "tr @ [c x]"] obtain ys where
    "mapP (\<lambda>x. callP (c x)) xs os (tr @ [c x]) = (Inr ys, (tr @ [c x]) @ map c xs)" by blast
  then show ?case by (simp add: returnP_def)
qed (simp add: returnP_def)

definition start_calls :: "(int \<times> int) list \<Rightarrow> syscall list" where
  "start_calls sockets =
     map (\<lambda>i. Spawn_worker i (fst (sockets ! i)) (snd (sockets ! i))) [1..<length sockets]
     @ [Run_worker 0 (fst (sockets ! 0)) (snd (sockets ! 0))]"

lemma emits_start:
  assumes "length sockets = n"
  shows "emits (thenP (mapP (spawn_mmsg sockets) [1..<n])
        (thenP (callP (Run_worker 0 (fst (sockets ! 0)) (snd (sockets ! 0)))) (returnP 0)))
     (\<lambda>x cs. x = (0 :: int) \<and> cs = start_calls sockets)"
  unfolding emits_def
proof (intro allI)
  fix os tr
  let ?c = "\<lambda>i. Spawn_worker i (fst (sockets ! i)) (snd (sockets ! i))"
  let ?m = "thenP (mapP (spawn_mmsg sockets) [1..<n])
        (thenP (callP (Run_worker 0 (fst (sockets ! 0)) (snd (sockets ! 0)))) (returnP 0)) :: int prog"
  obtain ys where "mapP (\<lambda>x. callP (?c x)) [1..<n] os tr = (Inr ys, tr @ map ?c [1..<n])"
    using mapP_callP [of ?c] by blast
  then have "?m os tr = (Inr 0, tr @ start_calls sockets)"
    using assms by (simp add: spawn_mmsg_def [abs_def] start_calls_def returnP_def del: One_nat_def)
  then show "\<exists>cs. snd (?m os tr) = tr @ cs \<and> (case fst (?m os tr) of
      Inl e \<Rightarrow> quiet cs \<and> ended_by e cs | Inr x \<Rightarrow> x = 0 \<and> cs = start_calls sockets)"
    by (simp del: One_nat_def)
qed

definition bind_calls :: "(int \<times> int) list \<Rightarrow> syscall list" where
  "bind_calls sockets = concat (map (\<lambda>s. [Bind (fst s) client_port, Bind (snd s) peer_port]) sockets)"

lemma quiet_bind_calls [simp]: "quiet (bind_calls sockets)"
  by (auto simp: bind_calls_def quiet_def)

lemma emits_bind_all:
  assumes "length sockets = n"
  shows "emits (mapP (\<lambda>i. bind_sockets client_port peer_port (sockets ! i)) [0..<n])
     (\<lambda>_ cs. cs = bind_calls sockets)"
proof (rule emits_conseq [OF emits_mapP])
  fix i show "emits (bind_sockets client_port peer_port (sockets ! i))
    (\<lambda>_ cs. cs = [Bind (fst (sockets ! i)) client_port, Bind (snd (sockets ! i)) peer_port])"
    by (rule emits_bind_sockets)
next
  fix ys cs
  assume "\<exists>css. cs = concat css \<and> quiet cs \<and> length ys = length [0..<n] \<and> length css = length [0..<n]
    \<and> (\<forall>i < length [0..<n]. css ! i = [Bind (fst (sockets ! ([0..<n] ! i))) client_port,
          Bind (snd (sockets ! ([0..<n] ! i))) peer_port])"
  then obtain css where css: "cs = concat css" "length css = n"
    "\<forall>i < n. css ! i = [Bind (fst (sockets ! i)) client_port, Bind (snd (sockets ! i)) peer_port]" by auto
  then have "css = map (\<lambda>s. [Bind (fst s) client_port, Bind (snd s) peer_port]) sockets"
    using assms by (intro nth_equalityI) auto
  then show "cs = bind_calls sockets" using css(1) by (simp add: bind_calls_def)
qed simp

definition run_trace :: "nat \<Rightarrow> syscall list \<Rightarrow> bool" where
  "run_trace n cs \<longleftrightarrow> (\<exists>sockets css. length sockets = n \<and> length css = n
     \<and> (\<forall>i < n. pair_calls (sockets ! i) (css ! i))
     \<and> cs = [Getaddrinfo client_port, Getaddrinfo peer_port, Print_address client_port,
             Print_address peer_port] @ concat css @ bind_calls sockets @ start_calls sockets)"

lemma emits_create_all:
  "emits (mapP (create_sockets client_port peer_port) [0..<n]) (\<lambda>sockets cs. \<exists>css. cs = concat css \<and> quiet cs
    \<and> length sockets = n \<and> length css = n \<and> (\<forall>i < n. pair_calls (sockets ! i) (css ! i)))"
  by (rule emits_conseq [OF emits_mapP [OF emits_create_sockets quiet_pair_calls]]) auto

lemma emits_run_mmsg:
  "emits (run_mmsg threads) (\<lambda>x cs. x = 0 \<and> run_trace (max 1 (unat threads)) cs)"
proof -
  let ?n = "max 1 (unat threads)"
  have rest: "emits (thenP (mapP (\<lambda>i. bind_sockets client_port peer_port (sockets ! i)) [0..<?n])
        (thenP (mapP (spawn_mmsg sockets) [1..<?n])
        (thenP (callP (Run_worker 0 (fst (sockets ! 0)) (snd (sockets ! 0)))) (returnP 0))))
     (\<lambda>x cs. x = (0 :: int) \<and> cs = bind_calls sockets @ start_calls sockets)"
    if "length sockets = ?n" for sockets
    unfolding thenP_def [of "mapP (\<lambda>i. bind_sockets client_port peer_port (sockets ! i)) [0..<?n]"]
    by (rule emits_bind_exact [OF emits_bind_all [OF that]])
      (auto intro: emits_conseq [OF emits_start [OF that]] simp del: One_nat_def)
  have "emits (bindP (mapP (create_sockets client_port peer_port) [0..<?n]) (\<lambda>sockets.
         thenP (mapP (\<lambda>i. bind_sockets client_port peer_port (sockets ! i)) [0..<?n])
        (thenP (mapP (spawn_mmsg sockets) [1..<?n])
        (thenP (callP (Run_worker 0 (fst (sockets ! 0)) (snd (sockets ! 0)))) (returnP 0)))))
     (\<lambda>x ds. x = (0 :: int) \<and> run_trace ?n ([Getaddrinfo client_port, Getaddrinfo peer_port,
         Print_address client_port, Print_address peer_port] @ ds))"
    by (rule emits_bind [OF emits_create_all])
      (auto intro!: emits_conseq [OF rest] simp: run_trace_def simp del: One_nat_def)
  then show ?thesis
    unfolding run_mmsg_def Let_def thenP_def [of "callP (Print_address _)"]
    by (auto intro!: emits_bind [OF emits_bindable_address] emits_bind_exact [OF emits_call [OF refl]]
        simp del: One_nat_def)
qed

section \<open>Properties\<close>

text \<open>C38. \<open>run\<close> starts no worker before every worker's sockets are created, configured and bound,
  whatever the operating system answers: either a call fails and the process ends with no worker
  started, by an abort or, when the last call was to attach the filter, with status 1; or the calls made are exactly these, in this order: two address look-ups,
  for the ports 3478 and 3479, a client and a peer socket per thread, each made nonblocking
  with its other flags kept and attached to the CPU filter, the binds on the main thread, and then
  the workers, the \<open>i\<close>-th with the \<open>i\<close>-th pair of sockets, the calling thread's last.\<close>

theorem mmsg_run_order:
  "case run_mmsg threads os [] of
     (Inl e, calls) \<Rightarrow> ended_by e calls \<and> quiet calls
   | (Inr x, calls) \<Rightarrow> x = 0 \<and> run_trace (max 1 (unat threads)) calls"
proof -
  from emits_run_mmsg [of threads] obtain cs where "snd (run_mmsg threads os []) = [] @ cs"
    "case fst (run_mmsg threads os []) of Inl e \<Rightarrow> quiet cs \<and> ended_by e cs
      | Inr x \<Rightarrow> x = 0 \<and> run_trace (max 1 (unat threads)) cs"
    unfolding emits_def by blast
  then show ?thesis by (auto split: prod.split sum.splits simp del: One_nat_def)
qed

text \<open>A worker whose index is below the thread count gets its own counters: it waits for all the
  workers before it creates its timer, arms the timer only if it is the main worker, and reaches its
  loop ready to handle datagrams; the only way not to is that a timer call fails, which aborts.\<close>

theorem mmsg_worker_starts:
  assumes "i < unat threads"
  shows "case mmsg_worker_start t i (relay_init threads l) os tr of
      (Inl e, calls) \<Rightarrow> e = Abort ''ensure_success''
    | (Inr (fd, r), calls) \<Rightarrow> thread_ok t r \<and> this_thread_statistics r t = Some i \<and> 0 \<le> fd
        \<and> (\<exists>printed. calls = tr @ [Set_affinity i] @ printed @ [Latch_wait, Timerfd_create]
              @ (if i = 0 then [Timerfd_settime fd 5] else [])
            \<and> set printed \<subseteq> {Print ''thread affinity failed''})"
proof -
  have "i < 2 ^ 16" using assms unsigned_less [of threads, where ?'a = nat] by simp
  then have "unat (of_nat i :: u16) = i" by (simp add: unat_of_nat)
  then show ?thesis
    using assms
    by (auto simp: mmsg_worker_start_def on_thread_start_def relay_init_def thread_ok_def is_main_worker_def
        prog_defs split: prod.splits)
qed

lemma mmsg_worker_starts_witness:
  "case mmsg_worker_start 5 1 (relay_init 2 (0 :: nat) :: (nat, nat) relay) (\<lambda>_ _. 3) [] of
      (Inl e, calls) \<Rightarrow> False
    | (Inr (fd, r), calls) \<Rightarrow> thread_ok 5 r \<and> this_thread_statistics r 5 = Some 1 \<and> fd = 3"
proof -
  obtain fd r calls where "mmsg_worker_start 5 1 (relay_init 2 (0 :: nat) :: (nat, nat) relay) (\<lambda>_ _. 3) []
      = (Inr (fd, r), calls)" "fd = 3"
    by (simp add: mmsg_worker_start_def on_thread_start_def relay_init_def prog_defs is_main_worker_def)
  with mmsg_worker_starts [where i = 1 and threads = 2 and t = 5 and l = "0 :: nat"
      and os = "\<lambda>_ _. 3" and tr = "[]" and ?'a = nat] show ?thesis
    by simp
qed

end
