(* ===== verification/Uring.thy ===== *)
theory Uring
  imports Setup Intrusive_Stack "HOL-Library.Multiset"
begin

text \<open>
  The io_uring experiment, \<^verbatim>\<open>uring/relay.hpp\<close> and \<^verbatim>\<open>uring/relay.cpp\<close>: one worker with its ring, its
  pool of sixteen events and the memory their datagrams live in. An event is designated by its
  index in \<open>io_events\<close>, a pointer into \<open>messages_buffer\<close> by its offset; an endpoint is its address
  (the \<open>user_data\<close> of a \<open>uring::endpoint\<close> is stored and never read).
\<close>

section \<open>State\<close>

datatype ring_event_type =
    Type_invalid
  | Type_client_rx
  | Type_peer_rx
  | Type_peer_tx
  | Type_timer

text \<open>\<open>rx.iov\<close> and \<open>timeout\<close> are members of a union and share their sixteen bytes.\<close>

datatype overlay =
    Rx_iov nat nat
  | Timeout_spec int int

text \<open>\<open>rx_message\<close> is the event whose address and vector the message header points to.\<close>

record 'ep ring_event =
  event_type :: ring_event_type
  event_index :: nat
  event_overlay :: overlay
  rx_address :: 'ep
  rx_message :: "nat option"

datatype opcode = Op_recvmsg | Op_sendmsg | Op_timeout

record sqe =
  op :: opcode
  sqe_fd :: int
  sqe_event :: nat
  sqe_data :: nat
  fixed_file :: bool
  buf_index :: nat

record 'ep listen_context =
  ring_peer_socket :: int
  ring_client_socket :: int
  submission :: "sqe list"
  messages_buffer :: "nat \<Rightarrow> u8"
  io_events :: "'ep ring_event list"
  free_event_ids :: "nat list"
  peer_socket_fd :: int
  client_socket_fd :: int
  thread_index :: nat

definition num_events :: nat where "num_events = 16"

definition memory_per_packet :: nat where "memory_per_packet = 1024"

definition ring_entries :: nat where "ring_entries = 4096"

definition k_statistics_timeout_ms :: int where "k_statistics_timeout_ms = 5000"

section \<open>Events\<close>

definition alloc_event :: "ring_event_type \<Rightarrow> 'ep listen_context \<Rightarrow> (nat \<times> 'ep listen_context) res" where
  "alloc_event ty io =
     (if free_event_ids io = [] then Inl (Abort ''out of free events'')
      else let free_id = last (free_event_ids io)
           in if free_id < length (io_events io)
              then Inr (free_id, io\<lparr>free_event_ids := butlast (free_event_ids io),
                     io_events := (io_events io)[free_id := (io_events io ! free_id)
                       \<lparr>event_type := ty, event_index := free_id,
                        event_overlay := Rx_iov (free_id * memory_per_packet) memory_per_packet,
                        rx_message := Some free_id\<rparr>]\<rparr>)
              else Inl Out_of_bounds)"

definition release_event :: "nat \<Rightarrow> 'ep listen_context \<Rightarrow> 'ep listen_context" where
  "release_event ev io = io\<lparr>free_event_ids := free_event_ids io @ [event_index (io_events io ! ev)]\<rparr>"

section \<open>The submission queue\<close>

text \<open>\<open>io_uring_get_sqe\<close> returns null when the queue is full; the code then aborts.\<close>

definition add_sqe :: "sqe \<Rightarrow> 'ep listen_context \<Rightarrow> 'ep listen_context res" where
  "add_sqe s io =
     (if length (submission io) < ring_entries then Inr (io\<lparr>submission := submission io @ [s]\<rparr>)
      else Inl (Abort []))"

definition add_recvmsg :: "nat \<Rightarrow> int \<Rightarrow> 'ep listen_context \<Rightarrow> 'ep listen_context res" where
  "add_recvmsg ev socket_id =
     add_sqe \<lparr>op = Op_recvmsg, sqe_fd = socket_id, sqe_event = ev, sqe_data = ev, fixed_file = True, buf_index = 0\<rparr>"

definition add_sendmsg :: "nat \<Rightarrow> int \<Rightarrow> 'ep listen_context \<Rightarrow> 'ep listen_context res" where
  "add_sendmsg ev socket_id =
     add_sqe \<lparr>op = Op_sendmsg, sqe_fd = socket_id, sqe_event = ev, sqe_data = ev, fixed_file = True, buf_index = 0\<rparr>"

definition create_timeout :: "int \<Rightarrow> overlay" where
  "create_timeout milliseconds = Timeout_spec (milliseconds div 1000) ((milliseconds mod 1000) * 1000000)"

definition add_timeout :: "nat \<Rightarrow> int \<Rightarrow> 'ep listen_context \<Rightarrow> 'ep listen_context res" where
  "add_timeout ev milliseconds io =
     add_sqe \<lparr>op = Op_timeout, sqe_fd = -1, sqe_event = ev, sqe_data = ev, fixed_file = False, buf_index = 0\<rparr>
       (io\<lparr>io_events := (io_events io)[ev := (io_events io ! ev)\<lparr>event_overlay := create_timeout milliseconds\<rparr>]\<rparr>)"

section \<open>The library operations\<close>

definition write_mem :: "nat \<Rightarrow> u8 list \<Rightarrow> (nat \<Rightarrow> u8) \<Rightarrow> nat \<Rightarrow> u8" where
  "write_mem base bs mem a = (if base \<le> a \<and> a < base + length bs then bs ! (a - base) else mem a)"

text \<open>\<open>iov_base\<close> and \<open>iov_len\<close> of an event's vector; read through the timeout member they are
  not a vector.\<close>

definition event_iov :: "nat \<Rightarrow> 'ep listen_context \<Rightarrow> (nat \<times> nat) res" where
  "event_iov ev io =
     (case event_overlay (io_events io ! ev) of
        Rx_iov b n \<Rightarrow> Inr (b, n)
      | Timeout_spec _ _ \<Rightarrow> Inl Undefined_behaviour)"

text \<open>\<open>event->rx.message.msg_iov\<close>, dereferenced.\<close>

definition message_iov :: "nat \<Rightarrow> 'ep listen_context \<Rightarrow> (nat \<times> nat) res" where
  "message_iov ev io =
     (case rx_message (io_events io ! ev) of None \<Rightarrow> Inl Null_deref | Some m \<Rightarrow> event_iov m io)"

text \<open>\<open>memcpy\<close> into the buffer: outside the allocation it faults, and overlapping objects are
  undefined behaviour.\<close>

definition copy_packet :: "nat \<Rightarrow> packet \<Rightarrow> 'ep listen_context \<Rightarrow> 'ep listen_context res" where
  "copy_packet dst p io =
     (let n = unat (plength p)
      in if dst + n > num_events * memory_per_packet \<or> content p + n > num_events * memory_per_packet
         then Inl Out_of_bounds
         else if dst < content p + n \<and> content p < dst + n then Inl Undefined_behaviour
         else Inr (io\<lparr>messages_buffer :=
                write_mem dst (read_mem (messages_buffer io) (content p) n) (messages_buffer io)\<rparr>))"

definition set_event :: "nat \<Rightarrow> ('ep ring_event \<Rightarrow> 'ep ring_event) \<Rightarrow> 'ep listen_context \<Rightarrow> 'ep listen_context" where
  "set_event ev f io = io\<lparr>io_events := (io_events io)[ev := f (io_events io ! ev)]\<rparr>"

definition queue_send :: "'ep \<Rightarrow> packet \<Rightarrow> 'ep listen_context \<Rightarrow> 'ep listen_context res" where
  "queue_send address p io =
     bindR (alloc_event Type_peer_tx io) (\<lambda>(tx_event, io).
     let io = set_event tx_event (\<lambda>e. e\<lparr>rx_address := address\<rparr>) io
     in bindR (event_iov tx_event io) (\<lambda>(iov_base, _).
        bindR (copy_packet iov_base p io) (\<lambda>io.
        let io = set_event tx_event (\<lambda>e. e\<lparr>event_overlay := Rx_iov iov_base (unat (plength p))\<rparr>) io
        in add_sendmsg tx_event (ring_client_socket io) io)))"

definition uring_start_send ::
  "nat \<Rightarrow> 'ep session \<Rightarrow> packet \<Rightarrow> ('ep, 'ep listen_context) relay \<Rightarrow> ('ep, 'ep listen_context) relay res"
where
  "uring_start_send t s p r =
     bindR (queue_send (client_endpoint s) p (lib r)) (\<lambda>io. Inr (r\<lparr>lib := io\<rparr>))"

definition uring_lib :: "('ep, packet, 'ep listen_context) library" where
  "uring_lib =
     \<lparr>packet_data = (\<lambda>io p. read_mem (messages_buffer io) (content p) (unat (plength p))),
      packet_size = plength,
      client_start_receive = (\<lambda>l. l),
      peer_start_receive = (\<lambda>l. l),
      session_start_send = uring_start_send\<rparr>"

section \<open>Completions\<close>

record cqe =
  cqe_data :: nat
  cqe_res :: int

definition cqe_size :: "int \<Rightarrow> u64" where
  "cqe_size n = ucast (of_int n :: u32)"

definition with_lib ::
  "('l \<Rightarrow> 'l res) \<Rightarrow> ('ep, 'l) relay \<Rightarrow> ('ep, 'l) relay res"
where
  "with_lib f r = bindR (f (lib r)) (\<lambda>l. Inr (r\<lparr>lib := l\<rparr>))"

text \<open>Release the event, allocate one for the next datagram and queue its receive.\<close>

definition rearm :: "nat \<Rightarrow> ring_event_type \<Rightarrow> int \<Rightarrow> 'ep listen_context \<Rightarrow> 'ep listen_context res" where
  "rearm ev ty socket_id io =
     bindR (alloc_event ty (release_event ev io)) (\<lambda>(rx_event, io). add_recvmsg rx_event socket_id io)"

definition handle_cqe ::
  "nat \<Rightarrow> cqe \<Rightarrow> ('ep, 'ep listen_context) relay \<Rightarrow> ('ep, 'ep listen_context) relay res"
where
  "handle_cqe t cqe r =
     (let event = cqe_data cqe; ty = event_type (io_events (lib r) ! event)
      in case ty of
        Type_peer_rx \<Rightarrow>
          if cqe_res cqe < 0 then Inl (Abort ''peer rx'')
          else bindR (message_iov event (lib r)) (\<lambda>(iov_base, _).
               bindR (on_peer_received uring_lib t \<lparr>content = iov_base, plength = cqe_size (cqe_res cqe)\<rparr> r) (\<lambda>(_, r).
               with_lib (\<lambda>io. rearm event Type_peer_rx (ring_peer_socket io) io) r))
      | Type_peer_tx \<Rightarrow>
          bindR (message_iov event (lib r)) (\<lambda>_.
          bindR (on_session_sent (\<lambda>l. l) t (cqe_size (cqe_res cqe)) r) (\<lambda>r.
          with_lib (\<lambda>io. Inr (release_event event io)) r))
      | Type_client_rx \<Rightarrow>
          if cqe_res cqe < 0 then Inl (Abort ''client rx'')
          else bindR (message_iov event (lib r)) (\<lambda>(iov_base, _).
               bindR (on_client_received uring_lib t (rx_address (io_events (lib r) ! event))
                        \<lparr>content = iov_base, plength = cqe_size (cqe_res cqe)\<rparr> r) (\<lambda>r.
               with_lib (\<lambda>io. rearm event Type_client_rx (ring_client_socket io) io) r))
      | Type_timer \<Rightarrow>
          bindR (on_statistics_tick statistics_print_interval r) (\<lambda>(_, r).
          with_lib (add_timeout event k_statistics_timeout_ms) r)
      | Type_invalid \<Rightarrow> with_lib (\<lambda>io. Inr (release_event event io)) r)"

section \<open>Start of a worker\<close>

text \<open>\<open>zero_ep\<close> is the address whose bytes are all zero.\<close>

definition listen_context_initialize :: "'ep \<Rightarrow> nat \<Rightarrow> 'ep listen_context prog" where
  "listen_context_initialize zero_ep index =
     thenP (ensure_successP (Ring_init ring_entries))
    (thenP (if is_main_worker index then callP (Print ''supported features'') else returnP 0)
    (bindP (create_udp_socket_uring client_port) (\<lambda>client_fd.
     bindP (create_udp_socket_uring peer_port) (\<lambda>peer_fd.
     thenP (callP (Print ''sockets''))
    (thenP (ensure_successP (Register_files [peer_fd, client_fd]))
    (thenP (callP (Print ''using fixed files''))
    (thenP (ensure_successP (Register_buffers 0 (num_events * memory_per_packet)))
    (thenP (callP (Print ''using fixed buffers''))
    (returnP
      \<lparr>ring_peer_socket = 0, ring_client_socket = 1, submission = [],
       messages_buffer = (\<lambda>_. 0),
       io_events = replicate num_events
         \<lparr>event_type = Type_invalid, event_index = 0, event_overlay = Rx_iov 0 0,
          rx_address = zero_ep, rx_message = None\<rparr>,
       free_event_ids = [0..<num_events],
       peer_socket_fd = peer_fd, client_socket_fd = client_fd, thread_index = index\<rparr>)))))))))"

text \<open>What is queued before the loop.\<close>

definition arm_worker :: "'ep listen_context \<Rightarrow> 'ep listen_context res" where
  "arm_worker io =
     bindR (alloc_event Type_client_rx io) (\<lambda>(ev, io).
     bindR (add_recvmsg ev (ring_client_socket io) io) (\<lambda>io.
     bindR (alloc_event Type_peer_rx io) (\<lambda>(ev, io).
     bindR (add_recvmsg ev (ring_peer_socket io) io) (\<lambda>io.
     if is_main_worker (thread_index io)
     then bindR (alloc_event Type_timer io) (\<lambda>(ev, io). add_timeout ev k_statistics_timeout_ms io)
     else Inr io))))"

definition uring_worker_start ::
  "'ep \<Rightarrow> nat \<Rightarrow> nat \<Rightarrow> ('ep, 'l) relay \<Rightarrow> ('ep, 'ep listen_context) relay prog"
where
  "uring_worker_start zero_ep t index r =
     bindP (listen_context_initialize zero_ep index) (\<lambda>io.
     thenP (callP Latch_wait)
    (thenP (bind_socket (client_socket_fd io) client_port)
    (thenP (bind_socket (peer_socket_fd io) peer_port)
    (bindP (lift_res (on_thread_start t (of_nat index) r)) (\<lambda>r.
     bindP (lift_res (arm_worker io)) (\<lambda>io.
     returnP \<lparr>sessions = sessions r, per_thread_statistics = per_thread_statistics r,
       this_thread_statistics = this_thread_statistics r, lib = io\<rparr>))))))"

section \<open>The ring: what the kernel does and what the worker handles\<close>

text \<open>
  \<open>pending\<close> are the operations submitted and not completed, \<open>completed\<close> the completions not yet
  handled. The kernel may complete any pending operation at any time; the worker handles the
  completions in order and submits what it has queued. This allows every interleaving of the
  code's loop and more.
\<close>

record 'ep ring_world =
  urelay :: "('ep, 'ep listen_context) relay"
  pending :: "sqe list"
  completed :: "cqe list"

datatype 'ep datagram = Client_dgram 'ep "u8 list" | Peer_dgram "u8 list"

datatype 'ep ring_label =
    Internal
  | Deliver "'ep datagram"
  | Handle "'ep datagram"
  | Transmit 'ep "u8 list"
  | Lose 'ep "u8 list"

abbreviation ctx :: "'ep ring_world \<Rightarrow> 'ep listen_context" where
  "ctx w \<equiv> lib (urelay w)"

definition set_ctx :: "'ep listen_context \<Rightarrow> 'ep ring_world \<Rightarrow> 'ep ring_world" where
  "set_ctx io w = w\<lparr>urelay := (urelay w)\<lparr>lib := io\<rparr>\<rparr>"

text \<open>A datagram is written to the vector of the header the operation was prepared with, and its
  source to the address; it is never longer than the vector.\<close>

definition kernel_receive :: "nat \<Rightarrow> 'ep \<Rightarrow> u8 list \<Rightarrow> 'ep listen_context \<Rightarrow> 'ep listen_context res" where
  "kernel_receive ev src bs io =
     bindR (message_iov ev io) (\<lambda>(iov_base, iov_len).
     if length bs \<le> iov_len
     then Inr (set_event ev (\<lambda>e. e\<lparr>rx_address := src\<rparr>)
                 (io\<lparr>messages_buffer := write_mem iov_base bs (messages_buffer io)\<rparr>))
     else Inl Undefined_behaviour)"

definition kernel_send :: "nat \<Rightarrow> 'ep listen_context \<Rightarrow> ('ep \<times> u8 list) res" where
  "kernel_send ev io =
     bindR (message_iov ev io) (\<lambda>(iov_base, iov_len).
     Inr (rx_address (io_events io ! ev), read_mem (messages_buffer io) iov_base iov_len))"

definition complete :: "sqe \<Rightarrow> int \<Rightarrow> 'ep ring_world \<Rightarrow> 'ep ring_world" where
  "complete s n w = w\<lparr>pending := remove1 s (pending w),
                      completed := completed w @ [\<lparr>cqe_data = sqe_data s, cqe_res = n\<rparr>]\<rparr>"

text \<open>The datagram a completion is about, if it is a receive that succeeded.\<close>

definition cqe_datagram :: "'ep listen_context \<Rightarrow> cqe \<Rightarrow> 'ep datagram option" where
  "cqe_datagram io c =
     (let e = io_events io ! cqe_data c
      in if cqe_res c < 0 then None
         else case event_overlay e of
             Timeout_spec _ _ \<Rightarrow> None
           | Rx_iov b _ \<Rightarrow>
              (case event_type e of
                 Type_client_rx \<Rightarrow> Some (Client_dgram (rx_address e) (read_mem (messages_buffer io) b (nat (cqe_res c))))
               | Type_peer_rx \<Rightarrow> Some (Peer_dgram (read_mem (messages_buffer io) b (nat (cqe_res c))))
               | _ \<Rightarrow> None))"

inductive ring_step :: "nat \<Rightarrow> 'ep ring_world \<Rightarrow> 'ep ring_label \<Rightarrow> 'ep ring_world \<Rightarrow> bool"
  for t :: nat
where
  submit: "ring_step t w Internal
     (set_ctx ((ctx w)\<lparr>submission := []\<rparr>) (w\<lparr>pending := pending w @ submission (ctx w)\<rparr>))"
| receive: "s \<in> set (pending w) \<Longrightarrow> op s = Op_recvmsg \<Longrightarrow>
     kernel_receive (sqe_event s) src bs (ctx w) = Inr io \<Longrightarrow>
     ring_step t w (Deliver (if sqe_fd s = ring_client_socket io then Client_dgram src bs else Peer_dgram bs))
       (set_ctx io (complete s (int (length bs)) w))"
| receive_error: "s \<in> set (pending w) \<Longrightarrow> op s = Op_recvmsg \<Longrightarrow> n < 0 \<Longrightarrow>
     ring_step t w Internal (complete s n w)"
| transmit: "s \<in> set (pending w) \<Longrightarrow> op s = Op_sendmsg \<Longrightarrow>
     kernel_send (sqe_event s) (ctx w) = Inr (ep, bs) \<Longrightarrow>
     ring_step t w (Transmit ep bs) (complete s (int (length bs)) w)"
| transmit_error: "s \<in> set (pending w) \<Longrightarrow> op s = Op_sendmsg \<Longrightarrow>
     kernel_send (sqe_event s) (ctx w) = Inr (ep, bs) \<Longrightarrow> n < 0 \<Longrightarrow>
     ring_step t w (Lose ep bs) (complete s n w)"
| expire: "s \<in> set (pending w) \<Longrightarrow> op s = Op_timeout \<Longrightarrow> n < 0 \<Longrightarrow>
     ring_step t w Internal (complete s n w)"
| handle: "completed w = c # cs \<Longrightarrow> handle_cqe t c (urelay w) = Inr r \<Longrightarrow>
     ring_step t w (case cqe_datagram (ctx w) c of None \<Rightarrow> Internal | Some d \<Rightarrow> Handle d)
       (w\<lparr>urelay := r, completed := cs\<rparr>)"

section \<open>The free list is a pool\<close>

definition ids_push :: "nat \<Rightarrow> nat list \<Rightarrow> nat list res" where
  "ids_push i ids = Inr (ids @ [i])"

definition ids_pop :: "nat list \<Rightarrow> nat option \<times> nat list" where
  "ids_pop ids = (if ids = [] then (None, ids) else (Some (last ids), butlast ids))"

interpretation ids: lifo "\<lambda>ids xs. ids = rev xs \<and> distinct xs" ids_push ids_pop
  by unfold_locales (auto simp: ids_push_def ids_pop_def)

lemma alloc_event_pool:
  "alloc_event ty io =
     (case ids_pop (free_event_ids io) of
        (None, _) \<Rightarrow> Inl (Abort ''out of free events'')
      | (Some i, ids) \<Rightarrow>
          if i < length (io_events io)
          then Inr (i, set_event i (\<lambda>e. e\<lparr>event_type := ty, event_index := i,
                 event_overlay := Rx_iov (i * memory_per_packet) memory_per_packet, rx_message := Some i\<rparr>)
                 (io\<lparr>free_event_ids := ids\<rparr>))
          else Inl Out_of_bounds)"
  by (simp add: alloc_event_def ids_pop_def Let_def set_event_def)

lemma release_event_pool:
  "Inr (free_event_ids (release_event ev io)) = ids_push (event_index (io_events io ! ev)) (free_event_ids io)"
  by (simp add: release_event_def ids_push_def)

section \<open>The invariant of the ring\<close>

text \<open>A slot in use: its event knows its own index, and its vector is within its own kilobyte.\<close>

definition slot_ok :: "'ep listen_context \<Rightarrow> nat \<Rightarrow> bool" where
  "slot_ok io i \<longleftrightarrow> (let e = io_events io ! i
     in i < 16 \<and> event_index e = i \<and> rx_message e = Some i
      \<and> (event_type e \<noteq> Type_timer \<longrightarrow> (\<exists>n \<le> 1024. event_overlay e = Rx_iov (i * 1024) n)))"

text \<open>An operation fits the type of its event, and names its socket by the index of a registered file.\<close>

definition sqe_ok :: "'ep listen_context \<Rightarrow> sqe \<Rightarrow> bool" where
  "sqe_ok io s \<longleftrightarrow> slot_ok io (sqe_data s) \<and> sqe_event s = sqe_data s
     \<and> (fixed_file s \<longleftrightarrow> op s \<noteq> Op_timeout)
     \<and> (case event_type (io_events io ! sqe_data s) of
          Type_client_rx \<Rightarrow> op s = Op_recvmsg \<and> sqe_fd s = ring_client_socket io
        | Type_peer_rx \<Rightarrow> op s = Op_recvmsg \<and> sqe_fd s = ring_peer_socket io
        | Type_peer_tx \<Rightarrow> op s = Op_sendmsg \<and> sqe_fd s = ring_client_socket io
        | Type_timer \<Rightarrow> op s = Op_timeout
        | Type_invalid \<Rightarrow> False)"

definition cqe_ok :: "'ep listen_context \<Rightarrow> cqe \<Rightarrow> bool" where
  "cqe_ok io c \<longleftrightarrow> slot_ok io (cqe_data c) \<and> event_type (io_events io ! cqe_data c) \<noteq> Type_invalid
     \<and> cqe_res c \<le> 1024"

definition in_flight :: "sqe list \<Rightarrow> cqe list \<Rightarrow> nat list" where
  "in_flight sqes cqes = map sqe_data sqes @ map cqe_data cqes"

definition ops_ok :: "'ep listen_context \<Rightarrow> sqe list \<Rightarrow> cqe list \<Rightarrow> bool" where
  "ops_ok io sqes cqes \<longleftrightarrow> length (io_events io) = 16 \<and> ring_client_socket io = 1 \<and> ring_peer_socket io = 0
     \<and> mset (free_event_ids io @ in_flight sqes cqes) = mset [0..<16]
     \<and> (\<forall>s \<in> set sqes. sqe_ok io s) \<and> (\<forall>c \<in> set cqes. cqe_ok io c)"

definition types_of :: "'ep listen_context \<Rightarrow> nat list \<Rightarrow> ring_event_type multiset" where
  "types_of io is = image_mset (\<lambda>i. event_type (io_events io ! i)) (mset is)"

text \<open>Exactly one receive per socket, and the timer of the main worker; the rest are sends.\<close>

definition census_ok :: "'ep listen_context \<Rightarrow> nat list \<Rightarrow> bool" where
  "census_ok io is \<longleftrightarrow> filter_mset (\<lambda>ty. ty \<noteq> Type_peer_tx) (types_of io is)
     = {#Type_client_rx, Type_peer_rx#} + (if is_main_worker (thread_index io) then {#Type_timer#} else {#})"

definition operations :: "'ep ring_world \<Rightarrow> sqe list" where
  "operations w = pending w @ submission (ctx w)"

definition ring_ok :: "nat \<Rightarrow> 'ep ring_world \<Rightarrow> bool" where
  "ring_ok t w \<longleftrightarrow> thread_ok t (urelay w) \<and> ops_ok (ctx w) (operations w) (completed w)
     \<and> census_ok (ctx w) (in_flight (operations w) (completed w))"

section \<open>Frame lemmas\<close>

lemma write_mem_apart:
  assumes "i \<noteq> j" and "length bs \<le> 1024" and "n \<le> 1024"
  shows "read_mem (write_mem (i * 1024) bs mem) (j * 1024) n = read_mem mem (j * 1024) n"
proof -
  have "write_mem (i * 1024) bs mem (j * 1024 + k) = mem (j * 1024 + k)" if "k < n" for k
  proof -
    have "\<not> (i * 1024 \<le> j * 1024 + k \<and> j * 1024 + k < i * 1024 + length bs)"
      using assms that by (cases i j rule: linorder_cases) auto
    then show ?thesis by (auto simp: write_mem_def)
  qed
  then show ?thesis by (simp add: read_mem_def)
qed

lemma read_write_mem [simp]: "n \<le> length bs \<Longrightarrow> read_mem (write_mem b bs mem) b n = take n bs"
  by (auto simp: read_mem_def write_mem_def intro: nth_equalityI)

text \<open>Two contexts agree on a slot: its event, and its kilobyte of memory.\<close>

definition agree :: "nat set \<Rightarrow> 'ep listen_context \<Rightarrow> 'ep listen_context \<Rightarrow> bool" where
  "agree X io io' \<longleftrightarrow> ring_client_socket io' = ring_client_socket io
     \<and> ring_peer_socket io' = ring_peer_socket io
     \<and> (\<forall>i \<in> X. io_events io' ! i = io_events io ! i
          \<and> (\<forall>n \<le> 1024. read_mem (messages_buffer io') (i * 1024) n = read_mem (messages_buffer io) (i * 1024) n))"

lemma agree_refl [simp]: "agree X io io" by (simp add: agree_def)

lemma agree_trans: "agree X io io1 \<Longrightarrow> agree X io1 io2 \<Longrightarrow> agree X io io2"
  by (simp add: agree_def)

lemma agree_subset: "agree X io io' \<Longrightarrow> Y \<subseteq> X \<Longrightarrow> agree Y io io'"
  by (auto simp: agree_def)

lemma set_event_simps [simp]:
  "i \<noteq> j \<Longrightarrow> io_events (set_event i f io) ! j = io_events io ! j"
  "i < length (io_events io) \<Longrightarrow> io_events (set_event i f io) ! i = f (io_events io ! i)"
  "length (io_events (set_event i f io)) = length (io_events io)"
  "free_event_ids (set_event i f io) = free_event_ids io"
  "submission (set_event i f io) = submission io"
  "messages_buffer (set_event i f io) = messages_buffer io"
  "ring_client_socket (set_event i f io) = ring_client_socket io"
  "ring_peer_socket (set_event i f io) = ring_peer_socket io"
  "thread_index (set_event i f io) = thread_index io"
  by (simp_all add: set_event_def)

lemma agree_set_event:
  assumes "i \<notin> X" shows "agree X io (set_event i f io)"
proof -
  have "i \<noteq> j" if "j \<in> X" for j using assms that by blast
  then show ?thesis by (simp add: agree_def)
qed

lemma agree_sqe_ok: "agree X io io' \<Longrightarrow> sqe_data s \<in> X \<Longrightarrow> sqe_ok io' s = sqe_ok io s"
  by (simp add: agree_def sqe_ok_def slot_ok_def split: ring_event_type.split)

lemma agree_cqe_ok: "agree X io io' \<Longrightarrow> cqe_data c \<in> X \<Longrightarrow> cqe_ok io' c = cqe_ok io c"
  by (simp add: agree_def cqe_ok_def slot_ok_def)

lemma agree_types: "agree X io io' \<Longrightarrow> set is \<subseteq> X \<Longrightarrow> types_of io' is = types_of io is"
  unfolding types_of_def by (intro image_mset_cong) (auto simp: agree_def)

lemma slot_okE:
  assumes "slot_ok io i" and "event_type (io_events io ! i) \<noteq> Type_timer"
  obtains n where "i < 16" "event_index (io_events io ! i) = i" "rx_message (io_events io ! i) = Some i"
    "n \<le> 1024" "event_overlay (io_events io ! i) = Rx_iov (i * 1024) n"
  using assms unfolding slot_ok_def Let_def by blast

text \<open>The message a send operation will transmit.\<close>

definition sqe_message :: "'ep listen_context \<Rightarrow> sqe \<Rightarrow> 'ep \<times> u8 list" where
  "sqe_message io s =
     (let e = io_events io ! sqe_data s
      in (rx_address e, case event_overlay e of Rx_iov b n \<Rightarrow> read_mem (messages_buffer io) b n | Timeout_spec _ _ \<Rightarrow> []))"

lemma agree_sqe_message:
  assumes "agree X io io'" and "sqe_data s \<in> X" and "sqe_ok io s" and "op s = Op_sendmsg"
  shows "sqe_message io' s = sqe_message io s"
proof -
  have "event_type (io_events io ! sqe_data s) \<noteq> Type_timer"
    using assms(3,4) by (auto simp: sqe_ok_def)
  moreover have "slot_ok io (sqe_data s)" using assms(3) by (simp add: sqe_ok_def)
  ultimately obtain n where "n \<le> 1024" "event_overlay (io_events io ! sqe_data s) = Rx_iov (sqe_data s * 1024) n"
    by (auto elim: slot_okE)
  with assms(1,2) show ?thesis by (simp add: agree_def sqe_message_def)
qed

lemma agree_cqe_datagram:
  assumes "agree X io io'" and "cqe_data c \<in> X" and "cqe_ok io c"
  shows "cqe_datagram io' c = cqe_datagram io c"
proof (cases "event_type (io_events io ! cqe_data c) = Type_timer \<or> cqe_res c < 0")
  case True
  with assms show ?thesis
    by (auto simp: agree_def cqe_datagram_def Let_def split: overlay.split)
next
  case False
  have "slot_ok io (cqe_data c)" "nat (cqe_res c) \<le> 1024" using assms(3) by (auto simp: cqe_ok_def)
  moreover from this(1) False obtain n where
    "event_overlay (io_events io ! cqe_data c) = Rx_iov (cqe_data c * 1024) n"
    by (auto elim: slot_okE)
  ultimately show ?thesis using assms(1,2)
    by (simp add: agree_def cqe_datagram_def Let_def split: ring_event_type.split)
qed

definition outgoing :: "'ep listen_context \<Rightarrow> sqe list \<Rightarrow> ('ep \<times> u8 list) multiset" where
  "outgoing io sqes = mset (map (sqe_message io) (filter (\<lambda>s. op s = Op_sendmsg) sqes))"

definition inbox :: "'ep listen_context \<Rightarrow> cqe list \<Rightarrow> 'ep datagram list" where
  "inbox io cqes = List.map_filter (cqe_datagram io) cqes"

lemma inbox_simps [simp]:
  "inbox io [] = []"
  "inbox io (c # cs) = (case cqe_datagram io c of None \<Rightarrow> [] | Some d \<Rightarrow> [d]) @ inbox io cs"
  "inbox io (cs @ ds) = inbox io cs @ inbox io ds"
  by (simp_all add: inbox_def List.map_filter_def split: option.split)

lemma agree_outgoing:
  assumes "agree X io io'" and "sqe_data ` set sqes \<subseteq> X" and "\<forall>s \<in> set sqes. sqe_ok io s"
  shows "outgoing io' sqes = outgoing io sqes"
proof -
  have "map (sqe_message io') (filter (\<lambda>s. op s = Op_sendmsg) sqes)
      = map (sqe_message io) (filter (\<lambda>s. op s = Op_sendmsg) sqes)"
    by (rule map_cong [OF refl]) (use assms agree_sqe_message [OF assms(1)] in auto)
  then show ?thesis unfolding outgoing_def by metis
qed

lemma agree_inbox:
  assumes "agree X io io'" and "cqe_data ` set cqes \<subseteq> X" and "\<forall>c \<in> set cqes. cqe_ok io c"
  shows "inbox io' cqes = inbox io cqes"
  using assms by (induction cqes) (auto simp: agree_cqe_datagram)

lemma ops_okD:
  assumes "ops_ok io sqes cqes"
  shows "length (io_events io) = 16" "distinct (free_event_ids io @ in_flight sqes cqes)"
    "set (free_event_ids io @ in_flight sqes cqes) = {..<16}"
    "length (free_event_ids io) + length sqes + length cqes = 16"
proof -
  have m: "mset (free_event_ids io @ in_flight sqes cqes) = mset [0..<16]" and
    l: "length (io_events io) = 16"
    using assms by (simp_all add: ops_ok_def)
  from l show "length (io_events io) = 16" .
  from m show "distinct (free_event_ids io @ in_flight sqes cqes)"
    by (metis distinct_upt mset_eq_imp_distinct_iff)
  from m have "set (free_event_ids io @ in_flight sqes cqes) = set [0..<16]" by (rule mset_eq_setD)
  then show "set (free_event_ids io @ in_flight sqes cqes) = {..<16}" by (simp add: lessThan_atLeast0)
  from m have "length (free_event_ids io @ in_flight sqes cqes) = length [0..<16 :: nat]"
    by (metis size_mset)
  then show "length (free_event_ids io) + length sqes + length cqes = 16" by (simp add: in_flight_def)
qed

section \<open>The kernel's steps keep the invariant\<close>

lemma take_sqe:
  assumes "ops_ok io sqes cqes" and "s \<in> set sqes"
  shows "sqe_data s \<notin> set (free_event_ids io)" "sqe_data s \<notin> sqe_data ` set (remove1 s sqes)"
    "sqe_data s \<notin> cqe_data ` set cqes" "sqe_data s < 16"
    "mset (in_flight (remove1 s sqes) (cqes @ [\<lparr>cqe_data = sqe_data s, cqe_res = n\<rparr>]))
       = mset (in_flight sqes cqes)"
proof -
  from assms(2) obtain xs ys where split: "sqes = xs @ s # ys" "s \<notin> set xs"
    by (meson split_list_first)
  then have rest: "remove1 s sqes = xs @ ys" by (simp add: remove1_append)
  note d = ops_okD(2) [OF assms(1)]
  show "sqe_data s \<notin> set (free_event_ids io)" "sqe_data s \<notin> sqe_data ` set (remove1 s sqes)"
    "sqe_data s \<notin> cqe_data ` set cqes"
    using d unfolding rest by (auto simp: in_flight_def split(1))
  show "sqe_data s < 16" using ops_okD(3) [OF assms(1)] by (auto simp: in_flight_def split(1))
  show "mset (in_flight (remove1 s sqes) (cqes @ [\<lparr>cqe_data = sqe_data s, cqe_res = n\<rparr>]))
       = mset (in_flight sqes cqes)"
    unfolding rest by (simp add: in_flight_def split(1))
qed

lemma ops_ok_complete:
  assumes ok: "ops_ok io sqes cqes" and s: "s \<in> set sqes" and "n \<le> 1024"
    and agree: "agree (- {sqe_data s}) io io'" and slot: "sqe_ok io' s"
    and same: "free_event_ids io' = free_event_ids io" "length (io_events io') = length (io_events io)"
  shows "ops_ok io' (remove1 s sqes) (cqes @ [\<lparr>cqe_data = sqe_data s, cqe_res = n\<rparr>])"
proof -
  note take = take_sqe [OF ok s]
  have "sqe_ok io' u" if "u \<in> set (remove1 s sqes)" for u
  proof -
    have "sqe_ok io u" using that ok notin_set_remove1 [of u sqes s] by (auto simp: ops_ok_def)
    moreover have "sqe_data u \<in> - {sqe_data s}" using that take(2) by (metis ComplI imageI singletonD)
    ultimately show ?thesis using agree_sqe_ok [OF agree] by simp
  qed
  moreover have "cqe_ok io' c" if "c \<in> set cqes" for c
  proof -
    have "cqe_ok io c" using that ok by (simp add: ops_ok_def)
    moreover have "cqe_data c \<in> - {sqe_data s}" using that take(3) by (metis ComplI imageI singletonD)
    ultimately show ?thesis using agree_cqe_ok [OF agree] by simp
  qed
  moreover have "cqe_ok io' \<lparr>cqe_data = sqe_data s, cqe_res = n\<rparr>"
    using slot assms(3) by (auto simp: sqe_ok_def cqe_ok_def)
  moreover have "ring_client_socket io' = 1 \<and> ring_peer_socket io' = 0"
    using ok agree by (simp add: ops_ok_def agree_def)
  moreover have "mset (free_event_ids io' @ in_flight (remove1 s sqes) (cqes @ [\<lparr>cqe_data = sqe_data s, cqe_res = n\<rparr>]))
      = mset [0..<16]"
    using ok take(5) [of n] same(1) unfolding ops_ok_def by (simp only: mset_append)
  ultimately show ?thesis
    using ok same(2) unfolding ops_ok_def by auto
qed

lemma types_of_mset_cong: "mset is = mset js \<Longrightarrow> types_of io is = types_of io js"
  by (simp add: types_of_def)

lemma census_complete:
  assumes ok: "ops_ok io sqes cqes" and s: "s \<in> set sqes"
    and agree: "agree (- {sqe_data s}) io io'"
    and same: "event_type (io_events io' ! sqe_data s) = event_type (io_events io ! sqe_data s)"
      "thread_index io' = thread_index io"
  shows "census_ok io' (in_flight (remove1 s sqes) (cqes @ [\<lparr>cqe_data = sqe_data s, cqe_res = n\<rparr>]))
     = census_ok io (in_flight sqes cqes)"
proof -
  have "event_type (io_events io' ! i) = event_type (io_events io ! i)" for i
    using agree same(1) by (cases "i = sqe_data s") (simp_all add: agree_def)
  then have "types_of io' (in_flight sqes cqes) = types_of io (in_flight sqes cqes)"
    by (simp add: types_of_def)
  then have "types_of io' (in_flight (remove1 s sqes) (cqes @ [\<lparr>cqe_data = sqe_data s, cqe_res = n\<rparr>]))
      = types_of io (in_flight sqes cqes)"
    using types_of_mset_cong [OF take_sqe(5) [OF ok s, of n], of io'] by simp
  with same(2) show ?thesis by (simp add: census_ok_def)
qed

lemma outgoing_remove:
  assumes "s \<in> set sqes"
  shows "outgoing io sqes = outgoing io (remove1 s sqes)
    + (if op s = Op_sendmsg then {#sqe_message io s#} else {#})"
proof -
  obtain xs ys where "sqes = xs @ s # ys" "s \<notin> set xs" using assms by (meson split_list_first)
  then show ?thesis by (simp add: remove1_append outgoing_def)
qed

lemma message_iov_ok:
  assumes "sqe_ok io s" and "op s \<noteq> Op_timeout"
  obtains n where "n \<le> 1024" "message_iov (sqe_event s) io = Inr (sqe_data s * 1024, n)"
    "event_overlay (io_events io ! sqe_data s) = Rx_iov (sqe_data s * 1024) n"
proof -
  have "slot_ok io (sqe_data s)" "event_type (io_events io ! sqe_data s) \<noteq> Type_timer"
    using assms by (auto simp: sqe_ok_def)
  then obtain n where "rx_message (io_events io ! sqe_data s) = Some (sqe_data s)" "n \<le> 1024"
    "event_overlay (io_events io ! sqe_data s) = Rx_iov (sqe_data s * 1024) n"
    by (rule slot_okE)
  with that assms(1) show ?thesis by (simp add: sqe_ok_def message_iov_def event_iov_def)
qed

lemma kernel_send_message:
  assumes "sqe_ok io s" and "op s = Op_sendmsg"
  shows "kernel_send (sqe_event s) io = Inr (sqe_message io s)" "length (snd (sqe_message io s)) \<le> 1024"
proof -
  have "op s \<noteq> Op_timeout" using assms(2) by simp
  from message_iov_ok [OF assms(1) this] obtain n where
    n: "n \<le> 1024" "message_iov (sqe_event s) io = Inr (sqe_data s * 1024, n)"
      "event_overlay (io_events io ! sqe_data s) = Rx_iov (sqe_data s * 1024) n"
    by blast
  moreover have "sqe_event s = sqe_data s" using assms(1) by (simp add: sqe_ok_def)
  ultimately show "kernel_send (sqe_event s) io = Inr (sqe_message io s)"
    "length (snd (sqe_message io s)) \<le> 1024"
    by (simp_all add: kernel_send_def sqe_message_def Let_def)
qed

section \<open>The worker's operations on a context that satisfies the invariant\<close>

lemma ops_ok_update:
  assumes ok: "ops_ok io sqes cqes" and agree: "agree (- X) io io'"
    and len: "length (io_events io') = length (io_events io)"
    and ids: "mset (free_event_ids io' @ in_flight sqes' cqes') = mset (free_event_ids io @ in_flight sqes cqes)"
    and s: "\<And>s. s \<in> set sqes' \<Longrightarrow> s \<in> set sqes \<and> sqe_data s \<notin> X \<or> sqe_ok io' s"
    and c: "\<And>c. c \<in> set cqes' \<Longrightarrow> c \<in> set cqes \<and> cqe_data c \<notin> X \<or> cqe_ok io' c"
  shows "ops_ok io' sqes' cqes'"
proof -
  have "sqe_ok io' s" if "s \<in> set sqes'" for s
    using s [OF that] ok agree_sqe_ok [OF agree, of s] by (auto simp: ops_ok_def)
  moreover have "cqe_ok io' c" if "c \<in> set cqes'" for c
    using c [OF that] ok agree_cqe_ok [OF agree, of c] by (auto simp: ops_ok_def)
  moreover have "ring_client_socket io' = 1 \<and> ring_peer_socket io' = 0"
    using ok agree by (simp add: ops_ok_def agree_def)
  ultimately show ?thesis using ok len ids unfolding ops_ok_def by simp
qed

abbreviation recv_sqe :: "nat \<Rightarrow> int \<Rightarrow> sqe" where
  "recv_sqe i fd \<equiv> \<lparr>op = Op_recvmsg, sqe_fd = fd, sqe_event = i, sqe_data = i, fixed_file = True, buf_index = 0\<rparr>"

abbreviation send_sqe :: "nat \<Rightarrow> int \<Rightarrow> sqe" where
  "send_sqe i fd \<equiv> \<lparr>op = Op_sendmsg, sqe_fd = fd, sqe_event = i, sqe_data = i, fixed_file = True, buf_index = 0\<rparr>"

abbreviation timeout_sqe :: "nat \<Rightarrow> sqe" where
  "timeout_sqe i \<equiv> \<lparr>op = Op_timeout, sqe_fd = -1, sqe_event = i, sqe_data = i, fixed_file = False, buf_index = 0\<rparr>"

definition fresh_event :: "ring_event_type \<Rightarrow> nat \<Rightarrow> 'ep ring_event \<Rightarrow> 'ep ring_event" where
  "fresh_event ty i e = e\<lparr>event_type := ty, event_index := i, event_overlay := Rx_iov (i * 1024) 1024,
     rx_message := Some i\<rparr>"

lemma fresh_event_simps [simp]:
  "event_type (fresh_event ty i e) = ty" "event_index (fresh_event ty i e) = i"
  "event_overlay (fresh_event ty i e) = Rx_iov (i * 1024) 1024" "rx_message (fresh_event ty i e) = Some i"
  "rx_address (fresh_event ty i e) = rx_address e"
  by (simp_all add: fresh_event_def)

lemma alloc_event_eq:
  assumes "free_event_ids io = fs @ [i]" and "i < length (io_events io)"
  shows "alloc_event ty io = Inr (i, set_event i (fresh_event ty i) (io\<lparr>free_event_ids := fs\<rparr>))"
  using assms by (simp add: alloc_event_def Let_def set_event_def fresh_event_def memory_per_packet_def)

lemma rearm_eq:
  assumes "length (io_events io) = 16" and "i < 16" and "event_index (io_events io ! i) = i"
    and "length (submission io) < ring_entries"
  shows "rearm i ty fd io = Inr ((set_event i (fresh_event ty i) io)\<lparr>submission := submission io @ [recv_sqe i fd]\<rparr>)"
proof -
  have "alloc_event ty (release_event i io) = Inr (i, set_event i (fresh_event ty i) io)"
    using assms alloc_event_eq [of "release_event i io" "free_event_ids io" i ty]
    by (simp add: release_event_def)
  with assms show ?thesis by (simp add: rearm_def add_recvmsg_def add_sqe_def)
qed

text \<open>What \<open>start_send\<close> makes of the context, when there is a free event.\<close>

definition with_send :: "'ep \<Rightarrow> packet \<Rightarrow> nat list \<Rightarrow> nat \<Rightarrow> 'ep listen_context \<Rightarrow> 'ep listen_context" where
  "with_send a p fs i io =
     set_event i (\<lambda>e. (fresh_event Type_peer_tx i e)\<lparr>rx_address := a, event_overlay := Rx_iov (i * 1024) (unat (plength p))\<rparr>)
       (io\<lparr>free_event_ids := fs,
          messages_buffer := write_mem (i * 1024) (read_mem (messages_buffer io) (content p) (unat (plength p))) (messages_buffer io),
          submission := submission io @ [send_sqe i (ring_client_socket io)]\<rparr>)"

lemma queue_send_eq:
  assumes "free_event_ids io = fs @ [i]" and "length (io_events io) = 16" and "i < 16"
    and "length (submission io) < ring_entries"
    and "content p = j * 1024" and "j < 16" and "j \<noteq> i" and "unat (plength p) \<le> 1024"
  shows "queue_send a p io = Inr (with_send a p fs i io)"
proof -
  have "\<not> (i * 1024 + unat (plength p) > 16 * 1024 \<or> content p + unat (plength p) > 16 * 1024)"
    using assms by auto
  moreover have "\<not> (i * 1024 < content p + unat (plength p) \<and> content p < i * 1024 + unat (plength p))"
    using assms by (cases i j rule: linorder_cases) auto
  ultimately show ?thesis
    using assms
    by (simp add: queue_send_def alloc_event_eq [OF assms(1)] event_iov_def copy_packet_def Let_def num_events_def
        memory_per_packet_def with_send_def set_event_def add_sendmsg_def add_sqe_def fresh_event_def)
qed

lemma with_send_simps [simp]:
  "free_event_ids (with_send a p fs i io) = fs"
  "length (io_events (with_send a p fs i io)) = length (io_events io)"
  "submission (with_send a p fs i io) = submission io @ [send_sqe i (ring_client_socket io)]"
  "ring_client_socket (with_send a p fs i io) = ring_client_socket io"
  "ring_peer_socket (with_send a p fs i io) = ring_peer_socket io"
  "thread_index (with_send a p fs i io) = thread_index io"
  by (simp_all add: with_send_def)

lemma agree_with_send:
  assumes "unat (plength p) \<le> 1024"
  shows "agree (- {i}) io (with_send a p fs i io)"
  using assms by (auto simp: agree_def with_send_def write_mem_apart)

lemma with_send_message:
  assumes "i < length (io_events io)"
  shows "sqe_message (with_send a p fs i io) (send_sqe i fd)
       = (a, read_mem (messages_buffer io) (content p) (unat (plength p)))"
  using assms by (simp add: sqe_message_def with_send_def Let_def)

lemma with_send_ok:
  assumes ok: "ops_ok io sqes cqes" and free: "free_event_ids io = fs @ [i]" and p: "unat (plength p) \<le> 1024"
  shows "ops_ok (with_send a p fs i io) (sqes @ [send_sqe i (ring_client_socket io)]) cqes"
proof (rule ops_ok_update [OF ok agree_with_send [OF p]])
  have i: "i < 16" "i < length (io_events io)"
    using ops_okD(1,3) [OF ok] by (auto simp: free)
  show "mset (free_event_ids (with_send a p fs i io) @ in_flight (sqes @ [send_sqe i (ring_client_socket io)]) cqes)
      = mset (free_event_ids io @ in_flight sqes cqes)"
    by (simp add: free in_flight_def)
  have d: "i \<notin> sqe_data ` set sqes" "i \<notin> cqe_data ` set cqes"
    using ops_okD(2) [OF ok] by (auto simp: free in_flight_def)
  show "s \<in> set sqes \<and> sqe_data s \<notin> {i} \<or> sqe_ok (with_send a p fs i io) s"
    if "s \<in> set (sqes @ [send_sqe i (ring_client_socket io)])" for s
    using that d(1) i p by (auto simp: sqe_ok_def slot_ok_def with_send_def Let_def)
  show "c \<in> set cqes \<and> cqe_data c \<notin> {i} \<or> cqe_ok (with_send a p fs i io) c" if "c \<in> set cqes" for c
    using that d(2) by auto
qed simp

text \<open>Re-arming the event of a completion, releasing it, and restarting the timer.\<close>

definition rearmed :: "nat \<Rightarrow> ring_event_type \<Rightarrow> int \<Rightarrow> 'ep listen_context \<Rightarrow> 'ep listen_context" where
  "rearmed i ty fd io = (set_event i (fresh_event ty i) io)\<lparr>submission := submission io @ [recv_sqe i fd]\<rparr>"

definition retimed :: "nat \<Rightarrow> 'ep listen_context \<Rightarrow> 'ep listen_context" where
  "retimed i io = (set_event i (\<lambda>e. e\<lparr>event_overlay := create_timeout k_statistics_timeout_ms\<rparr>) io)
     \<lparr>submission := submission io @ [timeout_sqe i]\<rparr>"

lemma rearmed_simps [simp]:
  "free_event_ids (rearmed i ty fd io) = free_event_ids io"
  "length (io_events (rearmed i ty fd io)) = length (io_events io)"
  "submission (rearmed i ty fd io) = submission io @ [recv_sqe i fd]"
  "ring_client_socket (rearmed i ty fd io) = ring_client_socket io"
  "ring_peer_socket (rearmed i ty fd io) = ring_peer_socket io"
  "thread_index (rearmed i ty fd io) = thread_index io"
  "i < length (io_events io) \<Longrightarrow> io_events (rearmed i ty fd io) ! i = fresh_event ty i (io_events io ! i)"
  by (simp_all add: rearmed_def)

lemma retimed_simps [simp]:
  "free_event_ids (retimed i io) = free_event_ids io"
  "length (io_events (retimed i io)) = length (io_events io)"
  "submission (retimed i io) = submission io @ [timeout_sqe i]"
  "ring_client_socket (retimed i io) = ring_client_socket io"
  "ring_peer_socket (retimed i io) = ring_peer_socket io"
  "thread_index (retimed i io) = thread_index io"
  "i < length (io_events io) \<Longrightarrow> io_events (retimed i io) ! i
     = (io_events io ! i)\<lparr>event_overlay := create_timeout k_statistics_timeout_ms\<rparr>"
  by (simp_all add: retimed_def)

lemma agree_rearmed: "agree (- {i}) io (rearmed i ty fd io)"
  using agree_set_event [of i "- {i}" io "fresh_event ty i"] by (simp add: agree_def rearmed_def)

lemma agree_retimed: "agree (- {i}) io (retimed i io)"
  using agree_set_event [of i "- {i}" io "\<lambda>e. e\<lparr>event_overlay := create_timeout k_statistics_timeout_ms\<rparr>"]
  by (simp add: agree_def retimed_def)

lemma head_cqe:
  assumes "ops_ok io sqes (c # cqes)"
  shows "cqe_data c < 16" "cqe_data c < length (io_events io)" "cqe_data c \<notin> sqe_data ` set sqes"
    "cqe_data c \<notin> cqe_data ` set cqes" "cqe_data c \<notin> set (free_event_ids io)"
    "event_index (io_events io ! cqe_data c) = cqe_data c" "cqe_ok io c"
  using ops_okD(1,2,3) [OF assms] assms
  by (auto simp: in_flight_def ops_ok_def cqe_ok_def slot_ok_def Let_def)

lemma rearmed_ok:
  assumes ok: "ops_ok io sqes (c # cqes)"
    and ty: "ty = Type_client_rx \<and> fd = ring_client_socket io \<or> ty = Type_peer_rx \<and> fd = ring_peer_socket io"
  shows "ops_ok (rearmed (cqe_data c) ty fd io) (sqes @ [recv_sqe (cqe_data c) fd]) cqes"
proof (rule ops_ok_update [OF ok agree_rearmed])
  note h = head_cqe [OF ok]
  have others: "sqe_data s \<noteq> cqe_data c" if "s \<in> set sqes" for s
    using h(3) that by (metis imageI)
  show "s \<in> set sqes \<and> sqe_data s \<notin> {cqe_data c} \<or> sqe_ok (rearmed (cqe_data c) ty fd io) s"
    if "s \<in> set (sqes @ [recv_sqe (cqe_data c) fd])" for s
    using that others h ty by (auto simp: sqe_ok_def slot_ok_def)
  show "d \<in> set (c # cqes) \<and> cqe_data d \<notin> {cqe_data c} \<or> cqe_ok (rearmed (cqe_data c) ty fd io) d"
    if "d \<in> set cqes" for d
    using that h(4) by (metis imageI list.set_intros(2) singletonD)
qed (simp_all add: in_flight_def)

lemma retimed_ok:
  assumes ok: "ops_ok io sqes (c # cqes)" and ty: "event_type (io_events io ! cqe_data c) = Type_timer"
  shows "ops_ok (retimed (cqe_data c) io) (sqes @ [timeout_sqe (cqe_data c)]) cqes"
proof (rule ops_ok_update [OF ok agree_retimed])
  note h = head_cqe [OF ok]
  have others: "sqe_data s \<noteq> cqe_data c" if "s \<in> set sqes" for s
    using h(3) that by (metis imageI)
  show "s \<in> set sqes \<and> sqe_data s \<notin> {cqe_data c} \<or> sqe_ok (retimed (cqe_data c) io) s"
    if "s \<in> set (sqes @ [timeout_sqe (cqe_data c)])" for s
    using that others h ty by (auto simp: sqe_ok_def slot_ok_def cqe_ok_def Let_def)
  show "d \<in> set (c # cqes) \<and> cqe_data d \<notin> {cqe_data c} \<or> cqe_ok (retimed (cqe_data c) io) d"
    if "d \<in> set cqes" for d
    using that h(4) by (metis imageI list.set_intros(2) singletonD)
qed (simp_all add: in_flight_def)

lemma release_ok:
  assumes ok: "ops_ok io sqes (c # cqes)"
  shows "ops_ok (release_event (cqe_data c) io) sqes cqes"
proof (rule ops_ok_update [OF ok, of "{}"])
  note h = head_cqe [OF ok]
  show "agree (- {}) io (release_event (cqe_data c) io)" by (simp add: agree_def release_event_def)
  show "mset (free_event_ids (release_event (cqe_data c) io) @ in_flight sqes cqes)
      = mset (free_event_ids io @ in_flight sqes (c # cqes))"
    using h(6) by (simp add: release_event_def in_flight_def)
qed (auto simp: release_event_def)

section \<open>The library satisfies the forwarding contract\<close>

text \<open>A packet is backed by the slot of an event that is in use.\<close>

definition uring_valid :: "'ep listen_context \<Rightarrow> packet \<Rightarrow> bool" where
  "uring_valid io p \<longleftrightarrow> unat (plength p) \<le> 1024 \<and> (\<exists>sqes cqes. ops_ok io sqes cqes
     \<and> length sqes < ring_entries \<and> (\<exists>rest. sqes = rest @ submission io)
     \<and> (\<exists>i \<in> set (in_flight sqes cqes). content p = i * 1024))"

definition uring_outbox :: "'ep listen_context \<Rightarrow> ('ep \<times> u8 list) list" where
  "uring_outbox io = map (sqe_message io) (filter (\<lambda>s. op s = Op_sendmsg) (submission io))"

definition uring_room :: "'ep listen_context \<Rightarrow> nat" where
  "uring_room io = length (free_event_ids io)"

lemma uring_lib_simps [simp]:
  "packet_data uring_lib io p = read_mem (messages_buffer io) (content p) (unat (plength p))"
  "packet_size uring_lib p = plength p"
  "client_start_receive uring_lib l = l" "peer_start_receive uring_lib l = l"
  "session_start_send uring_lib = uring_start_send"
  by (simp_all add: uring_lib_def)

lemma uring_start_send_eq:
  assumes ok: "ops_ok io sqes cqes" and free: "free_event_ids io = fs @ [i]"
    and j: "j \<in> set (in_flight sqes cqes)" "content p = j * 1024" and p: "unat (plength p) \<le> 1024"
    and room: "length (submission io) < ring_entries"
  shows "uring_start_send t s p (r\<lparr>lib := io\<rparr>) = Inr (r\<lparr>lib := with_send (client_endpoint s) p fs i io\<rparr>)"
proof -
  have "i \<in> {..<16}" "j \<in> {..<16}" "j \<noteq> i"
    using ops_okD(2,3) [OF ok] j(1) by (auto simp: free)
  with queue_send_eq [OF free ops_okD(1) [OF ok] _ room j(2) _ _ p] show ?thesis
    by (simp add: uring_start_send_def)
qed

interpretation ur: forwarding_library uring_lib uring_valid uring_outbox uring_room
proof unfold_locales
  fix r :: "('ep, 'ep listen_context) relay" and p t and s :: "'ep session"
  assume v: "uring_valid (lib r) p" and room: "0 < uring_room (lib r)" and t: "thread_ok t r"
  let ?io = "lib r"
  from v obtain sqes cqes rest j where ok: "ops_ok ?io sqes cqes" and len: "length sqes < ring_entries"
    and sub: "sqes = rest @ submission ?io" and j: "j \<in> set (in_flight sqes cqes)" "content p = j * 1024"
    and p: "unat (plength p) \<le> 1024"
    unfolding uring_valid_def by blast
  from room obtain fs i where free: "free_event_ids ?io = fs @ [i]"
    by (cases "free_event_ids ?io" rule: rev_cases) (auto simp: uring_room_def)
  let ?io' = "with_send (client_endpoint s) p fs i ?io"
  have run: "uring_start_send t s p r = Inr (r\<lparr>lib := ?io'\<rparr>)"
    using uring_start_send_eq [OF ok free j p, of t s r] len sub by simp
  have i: "i < length (io_events ?io)" "i \<notin> sqe_data ` set sqes"
    using ops_okD(1-3) [OF ok] by (auto simp: free in_flight_def)
  have old: "sqe_message ?io' u = sqe_message ?io u" if "u \<in> set sqes" "op u = Op_sendmsg" for u
  proof (rule agree_sqe_message [OF agree_with_send [OF p] _ _ that(2)])
    show "sqe_data u \<in> - {i}" using i(2) that(1) by (metis ComplI imageI singletonD)
    show "sqe_ok ?io u" using ok that(1) by (simp add: ops_ok_def)
  qed
  have "uring_outbox ?io' = uring_outbox ?io
      @ [(client_endpoint s, read_mem (messages_buffer ?io) (content p) (unat (plength p)))]"
    using old with_send_message [OF i(1)] sub by (simp add: uring_outbox_def)
  with run t show "\<exists>r'. session_start_send uring_lib t s p r = Inr r'
      \<and> uring_outbox (lib r') = uring_outbox (lib r) @ [(client_endpoint s, packet_data uring_lib (lib r) p)]
      \<and> sessions r' = sessions r \<and> thread_ok t r' \<and> uring_room (lib r) \<le> Suc (uring_room (lib r'))"
    by (simp add: uring_room_def free)
qed simp_all

section \<open>Handling a completion\<close>

lemma cqe_size_unat: "0 \<le> n \<Longrightarrow> n \<le> 1024 \<Longrightarrow> unat (cqe_size n) = nat n"
  by (cases n rule: int_cases) (simp_all add: cqe_size_def unat_of_nat)

text \<open>What the context and the session table become, by the type of the event.\<close>

definition uring_packet :: "cqe \<Rightarrow> packet" where
  "uring_packet c = \<lparr>content = cqe_data c * 1024, plength = cqe_size (cqe_res c)\<rparr>"

lemma head_message:
  assumes ok: "ops_ok io sqes (c # cqes)" and "event_type (io_events io ! cqe_data c) \<noteq> Type_timer"
  obtains n where "event_overlay (io_events io ! cqe_data c) = Rx_iov (cqe_data c * 1024) n"
    "message_iov (cqe_data c) io = Inr (cqe_data c * 1024, n)"
proof -
  have "slot_ok io (cqe_data c)" using head_cqe(7) [OF ok] by (simp add: cqe_ok_def)
  from slot_okE [OF this assms(2)] obtain n where
    "rx_message (io_events io ! cqe_data c) = Some (cqe_data c)"
    "event_overlay (io_events io ! cqe_data c) = Rx_iov (cqe_data c * 1024) n" by metis
  with that show ?thesis by (simp add: message_iov_def event_iov_def)
qed

lemma uring_valid_head:
  assumes "ops_ok io sqes (c # cqes)" and "sqes = rest @ submission io" and "0 \<le> cqe_res c"
  shows "uring_valid io (uring_packet c)"
proof -
  have "cqe_data c \<in> set (in_flight sqes (c # cqes))" by (simp add: in_flight_def)
  moreover have "cqe_res c \<le> 1024" using head_cqe(7) [OF assms(1)] by (simp add: cqe_ok_def)
  moreover have "length sqes < ring_entries"
    using ops_okD(4) [OF assms(1)] by (simp add: ring_entries_def)
  moreover have "unat (plength (uring_packet c)) \<le> 1024" "content (uring_packet c) = cqe_data c * 1024"
    using assms(3) calculation(2) by (simp_all add: uring_packet_def cqe_size_unat)
  ultimately show ?thesis
    using assms(1,2) unfolding uring_valid_def by blast
qed

lemma submission_room:
  assumes "ops_ok io sqes (c # cqes)" and "sqes = rest @ submission io"
  shows "Suc (Suc (length (submission io))) < ring_entries"
  using ops_okD(4) [OF assms(1)] assms(2) by (simp add: ring_entries_def)

text \<open>A client datagram.\<close>

lemma handle_client_rx:
  assumes ok: "ops_ok (lib r) sqes (c # cqes)" and sub: "sqes = rest @ submission (lib r)"
    and t: "thread_ok t r" and ty: "event_type (io_events (lib r) ! cqe_data c) = Type_client_rx"
    and res: "0 \<le> cqe_res c"
  shows "\<exists>r'. handle_cqe t c r = Inr r' \<and> thread_ok t r'
    \<and> registered r' = spec_client (rx_address (io_events (lib r) ! cqe_data c))
        (packet_data uring_lib (lib r) (uring_packet c)) (registered r)
    \<and> lib r' = rearmed (cqe_data c) Type_client_rx (ring_client_socket (lib r)) (lib r)"
proof -
  note h = head_cqe [OF ok]
  from ur.on_client_received_refines [OF t uring_valid_head [OF ok sub res],
      of "rx_address (io_events (lib r) ! cqe_data c)"]
  obtain r1 where r1: "on_client_received uring_lib t (rx_address (io_events (lib r) ! cqe_data c)) (uring_packet c) r = Inr r1"
    "registered r1 = spec_client (rx_address (io_events (lib r) ! cqe_data c))
        (packet_data uring_lib (lib r) (uring_packet c)) (registered r)"
    "thread_ok t r1" "lib r1 = lib r" by auto
  obtain n where n: "message_iov (cqe_data c) (lib r) = Inr (cqe_data c * 1024, n)"
    by (rule head_message [OF ok]) (use ty in auto)
  have "rearm (cqe_data c) Type_client_rx (ring_client_socket (lib r)) (lib r)
      = Inr (rearmed (cqe_data c) Type_client_rx (ring_client_socket (lib r)) (lib r))"
    using rearm_eq [OF ops_okD(1) [OF ok] h(1) h(6)] submission_room [OF ok sub] by (simp add: rearmed_def)
  then have "handle_cqe t c r
      = Inr (r1\<lparr>lib := rearmed (cqe_data c) Type_client_rx (ring_client_socket (lib r)) (lib r)\<rparr>)"
    using r1(1,4) n ty res by (simp add: handle_cqe_def Let_def with_lib_def uring_packet_def)
  with r1 show ?thesis by (simp add: registered_def)
qed

text \<open>A peer datagram: what the handler runs.\<close>

lemma handle_peer_rx_run:
  assumes ok: "ops_ok (lib r) sqes (c # cqes)" and sub: "sqes = rest @ submission (lib r)"
    and t: "thread_ok t r" and ty: "event_type (io_events (lib r) ! cqe_data c) = Type_peer_rx"
    and res: "0 \<le> cqe_res c"
  defines "bs \<equiv> packet_data uring_lib (lib r) (uring_packet c)"
  obtains r1 where "sessions r1 = sessions r" "lib r1 = lib r" "thread_ok t r1"
    "handle_cqe t c r = bindR
        (if 8 \<le> length bs
         then case sessions r (load_le (take 8 bs)) of
                None \<Rightarrow> Inr (False, restart_peer_receive uring_lib r1)
              | Some s \<Rightarrow> bindR (uring_start_send t s (uring_packet c) r1) (\<lambda>r'. Inr (True, r'))
         else Inr (False, restart_peer_receive uring_lib r1))
      (\<lambda>(_, r'). with_lib (\<lambda>io. rearm (cqe_data c) Type_peer_rx (ring_peer_socket io) io) r')"
proof -
  obtain n where n: "message_iov (cqe_data c) (lib r) = Inr (cqe_data c * 1024, n)"
    by (rule head_message [OF ok]) (use ty in auto)
  have handle: "handle_cqe t c r = bindR (on_peer_received uring_lib t (uring_packet c) r)
      (\<lambda>(_, r'). with_lib (\<lambda>io. rearm (cqe_data c) Type_peer_rx (ring_peer_socket io) io) r')"
    using n ty res by (simp add: handle_cqe_def Let_def uring_packet_def)
  from ur.on_peer_received_cases [OF t uring_valid_head [OF ok sub res]] obtain r1 where
    "sessions r1 = sessions r" "lib r1 = lib r" "thread_ok t r1"
    "on_peer_received uring_lib t (uring_packet c) r =
        (if 8 \<le> length bs
         then case sessions r (load_le (take 8 bs)) of
                None \<Rightarrow> Inr (False, restart_peer_receive uring_lib r1)
              | Some s \<Rightarrow> bindR (session_start_send uring_lib t s (uring_packet c) r1) (\<lambda>r'. Inr (True, r'))
         else Inr (False, restart_peer_receive uring_lib r1))"
    unfolding bs_def by blast
  with handle show ?thesis by (intro that [of r1]) (simp_all split: option.split)
qed

text \<open>A peer datagram that no session claims is dropped.\<close>

lemma handle_peer_rx_dropped:
  assumes ok: "ops_ok (lib r) sqes (c # cqes)" and sub: "sqes = rest @ submission (lib r)"
    and t: "thread_ok t r" and ty: "event_type (io_events (lib r) ! cqe_data c) = Type_peer_rx"
    and res: "0 \<le> cqe_res c"
    and none: "spec_peer (registered r) (packet_data uring_lib (lib r) (uring_packet c)) = None"
  shows "\<exists>r'. handle_cqe t c r = Inr r' \<and> thread_ok t r' \<and> registered r' = registered r
    \<and> lib r' = rearmed (cqe_data c) Type_peer_rx (ring_peer_socket (lib r)) (lib r)"
proof -
  note h = head_cqe [OF ok]
  obtain r1 where r1: "sessions r1 = sessions r" "lib r1 = lib r" "thread_ok t r1"
    and run: "handle_cqe t c r
      = with_lib (\<lambda>io. rearm (cqe_data c) Type_peer_rx (ring_peer_socket io) io) (restart_peer_receive uring_lib r1)"
    by (rule handle_peer_rx_run [OF ok sub t ty res])
      (use none in \<open>simp add: spec_peer_def registered_def split: if_splits\<close>)
  have "rearm (cqe_data c) Type_peer_rx (ring_peer_socket (lib r)) (lib r)
      = Inr (rearmed (cqe_data c) Type_peer_rx (ring_peer_socket (lib r)) (lib r))"
    using rearm_eq [OF ops_okD(1) [OF ok] h(1) h(6)] submission_room [OF ok sub] by (simp add: rearmed_def)
  with run r1 show ?thesis by (simp add: with_lib_def registered_def)
qed

text \<open>The datagram of a session is forwarded when an event is free; the relay aborts when none is.\<close>

lemma handle_peer_rx_sent:
  assumes ok: "ops_ok (lib r) sqes (c # cqes)" and sub: "sqes = rest @ submission (lib r)"
    and t: "thread_ok t r" and ty: "event_type (io_events (lib r) ! cqe_data c) = Type_peer_rx"
    and res: "0 \<le> cqe_res c"
    and some: "spec_peer (registered r) (packet_data uring_lib (lib r) (uring_packet c)) = Some (a, bs)"
  shows "free_event_ids (lib r) = [] \<Longrightarrow> handle_cqe t c r = Inl (Abort ''out of free events'')"
    "free_event_ids (lib r) = fs @ [i] \<Longrightarrow> \<exists>r'. handle_cqe t c r = Inr r' \<and> thread_ok t r'
      \<and> registered r' = registered r
      \<and> lib r' = rearmed (cqe_data c) Type_peer_rx (ring_peer_socket (lib r)) (with_send a (uring_packet c) fs i (lib r))"
proof -
  note h = head_cqe [OF ok]
  let ?io = "lib r"
  obtain s where s: "client_endpoint s = a" "8 \<le> length (packet_data uring_lib ?io (uring_packet c))"
    "sessions r (load_le (take 8 (packet_data uring_lib ?io (uring_packet c)))) = Some s"
    using some by (auto simp: spec_peer_def registered_def split: if_splits)
  obtain r1 where r1: "sessions r1 = sessions r" "lib r1 = ?io" "thread_ok t r1"
    and run: "handle_cqe t c r = bindR (uring_start_send t s (uring_packet c) r1)
      (\<lambda>r'. with_lib (\<lambda>io. rearm (cqe_data c) Type_peer_rx (ring_peer_socket io) io) r')"
    by (rule handle_peer_rx_run [OF ok sub t ty res]) (use s in \<open>simp add: bindR_assoc\<close>)
  show "handle_cqe t c r = Inl (Abort ''out of free events'')" if "free_event_ids ?io = []"
    using that r1(2) run by (simp add: uring_start_send_def queue_send_def alloc_event_def)
  assume free: "free_event_ids ?io = fs @ [i]"
  let ?io' = "with_send a (uring_packet c) fs i ?io"
  have p: "unat (plength (uring_packet c)) \<le> 1024"
    using h(7) res by (simp add: uring_packet_def cqe_ok_def cqe_size_unat nat_le_iff)
  have "uring_start_send t s (uring_packet c) (r1\<lparr>lib := ?io\<rparr>) = Inr (r1\<lparr>lib := ?io'\<rparr>)"
    unfolding s(1) [symmetric]
    by (rule uring_start_send_eq [OF ok free _ _ p, of "cqe_data c"])
      (use submission_room [OF ok sub] in \<open>simp_all add: in_flight_def uring_packet_def\<close>)
  moreover have "r1\<lparr>lib := ?io\<rparr> = r1" using r1(2) by (metis relay.surjective relay.update_convs(4))
  moreover have "rearm (cqe_data c) Type_peer_rx (ring_peer_socket ?io) ?io'
      = Inr (rearmed (cqe_data c) Type_peer_rx (ring_peer_socket ?io) ?io')"
    unfolding rearmed_def by (rule rearm_eq [OF _ h(1)])
      (use h(5,6) free ops_okD(1) [OF ok] submission_room [OF ok sub] in \<open>simp_all add: with_send_def\<close>)
  ultimately have "handle_cqe t c r
      = Inr (r1\<lparr>lib := rearmed (cqe_data c) Type_peer_rx (ring_peer_socket ?io) ?io'\<rparr>)"
    using run by (simp add: with_lib_def)
  with r1 show "\<exists>r'. handle_cqe t c r = Inr r' \<and> thread_ok t r' \<and> registered r' = registered r
      \<and> lib r' = rearmed (cqe_data c) Type_peer_rx (ring_peer_socket ?io) ?io'"
    by (simp add: registered_def)
qed

lemma handle_peer_rx:
  assumes ok: "ops_ok (lib r) sqes (c # cqes)" and sub: "sqes = rest @ submission (lib r)"
    and t: "thread_ok t r" and ty: "event_type (io_events (lib r) ! cqe_data c) = Type_peer_rx"
    and res: "0 \<le> cqe_res c"
  defines "bs \<equiv> packet_data uring_lib (lib r) (uring_packet c)"
    and "arm \<equiv> rearmed (cqe_data c) Type_peer_rx (ring_peer_socket (lib r))"
  shows "spec_peer (registered r) bs = None \<and> (\<exists>r'. handle_cqe t c r = Inr r' \<and> thread_ok t r'
        \<and> registered r' = registered r \<and> lib r' = arm (lib r))
    \<or> (\<exists>a. spec_peer (registered r) bs = Some (a, bs)
        \<and> (free_event_ids (lib r) = [] \<and> handle_cqe t c r = Inl (Abort ''out of free events'')
         \<or> (\<exists>r' fs i. free_event_ids (lib r) = fs @ [i] \<and> handle_cqe t c r = Inr r' \<and> thread_ok t r'
             \<and> registered r' = registered r \<and> lib r' = arm (with_send a (uring_packet c) fs i (lib r)))))"
proof (cases "spec_peer (registered r) bs")
  case None
  with handle_peer_rx_dropped [OF ok sub t ty res] show ?thesis by (simp add: bs_def arm_def)
next
  case (Some x)
  then obtain a where a: "spec_peer (registered r) bs = Some (a, bs)"
    by (auto simp: spec_peer_def split: if_splits option.splits)
  note sent = handle_peer_rx_sent [OF ok sub t ty res this [unfolded bs_def]]
  show ?thesis
  proof (cases "free_event_ids (lib r)" rule: rev_cases)
    case Nil
    with a sent(1) show ?thesis by blast
  next
    case (snoc fs i)
    with a sent(2) [OF snoc] show ?thesis unfolding arm_def by blast
  qed
qed

text \<open>The completion of a send, and the timer.\<close>

lemma handle_peer_tx:
  assumes ok: "ops_ok (lib r) sqes (c # cqes)"
    and t: "thread_ok t r" and ty: "event_type (io_events (lib r) ! cqe_data c) = Type_peer_tx"
  shows "\<exists>sts. handle_cqe t c r = Inr (r\<lparr>per_thread_statistics := sts,
        lib := release_event (cqe_data c) (lib r)\<rparr>)
    \<and> length sts = length (per_thread_statistics r)"
proof -
  obtain n where n: "message_iov (cqe_data c) (lib r) = Inr (cqe_data c * 1024, n)"
    by (rule head_message [OF ok]) (use ty in auto)
  obtain sts where "on_session_sent (\<lambda>l. l) t (cqe_size (cqe_res c)) r
      = Inr (r\<lparr>per_thread_statistics := sts, lib := lib r\<rparr>)" "length sts = length (per_thread_statistics r)"
    using on_session_sent_returns [OF t, of "\<lambda>l. l" "cqe_size (cqe_res c)"] by auto
  with n ty show ?thesis by (auto simp: handle_cqe_def Let_def with_lib_def)
qed

lemma handle_timer:
  assumes ok: "ops_ok (lib r) sqes (c # cqes)" and sub: "sqes = rest @ submission (lib r)"
    and ty: "event_type (io_events (lib r) ! cqe_data c) = Type_timer"
  shows "handle_cqe t c r = Inr (r\<lparr>per_thread_statistics :=
        replicate (length (per_thread_statistics r)) statistics_zero, lib := retimed (cqe_data c) (lib r)\<rparr>)"
proof -
  obtain line where "on_statistics_tick statistics_print_interval r
     = Inr (line, r\<lparr>per_thread_statistics := replicate (length (per_thread_statistics r)) statistics_zero\<rparr>)"
    using statistics_tick_returns by blast
  with ty submission_room [OF ok sub] show ?thesis
    by (simp add: handle_cqe_def Let_def with_lib_def add_timeout_def add_sqe_def retimed_def set_event_def)
qed

section \<open>The abstract relay\<close>

text \<open>
  What the worker promises: datagrams are handled once each and in the order in which the
  receives completed; a handled peer datagram with a registered identifier is put among the
  messages to send; a message to send is transmitted once, or lost when the kernel reports
  an error.
\<close>

type_synonym 'ep abs_ring = "(u64 \<rightharpoonup> 'ep) \<times> 'ep datagram list \<times> ('ep \<times> u8 list) multiset"

inductive abs_step :: "'ep abs_ring \<Rightarrow> 'ep ring_label \<Rightarrow> 'ep abs_ring \<Rightarrow> bool" where
  "abs_step (m, ib, ob) Internal (m, ib, ob)"
| "abs_step (m, ib, ob) (Deliver d) (m, ib @ [d], ob)"
| "abs_step (m, Client_dgram src bs # ib, ob) (Handle (Client_dgram src bs)) (spec_client src bs m, ib, ob)"
| "abs_step (m, Peer_dgram bs # ib, ob) (Handle (Peer_dgram bs)) (m, ib, ob + mset (spec_peers m [bs]))"
| "abs_step (m, ib, add_mset (ep, bs) ob) (Transmit ep bs) (m, ib, ob)"
| "abs_step (m, ib, add_mset (ep, bs) ob) (Lose ep bs) (m, ib, ob)"

inductive_cases abs_step_TransmitE: "abs_step a (Transmit ep bs) a'"
inductive_cases abs_step_DeliverE: "abs_step a (Deliver d) a'"
inductive_cases abs_step_InternalE: "abs_step a Internal a'"

definition abs_ring :: "'ep ring_world \<Rightarrow> 'ep abs_ring" where
  "abs_ring w = (registered (urelay w), inbox (ctx w) (completed w), outgoing (ctx w) (operations w))"

lemma set_ctx_simps [simp]:
  "ctx (set_ctx io w) = io" "pending (set_ctx io w) = pending w" "completed (set_ctx io w) = completed w"
  "sessions (urelay (set_ctx io w)) = sessions (urelay w)"
  "thread_ok t (urelay (set_ctx io w)) = thread_ok t (urelay w)"
  "registered (urelay (set_ctx io w)) = registered (urelay w)"
  by (simp_all add: set_ctx_def registered_def)

lemma complete_simps [simp]:
  "urelay (complete s n w) = urelay w" "pending (complete s n w) = remove1 s (pending w)"
  "completed (complete s n w) = completed w @ [\<lparr>cqe_data = sqe_data s, cqe_res = n\<rparr>]"
  by (simp_all add: complete_def)

text \<open>A completion, with the context the kernel leaves.\<close>

lemma ring_ok_complete:
  assumes ok: "ring_ok t w" and s: "s \<in> set (pending w)" and n: "n \<le> 1024"
    and agree: "agree (- {sqe_data s}) (ctx w) io" and slot: "sqe_ok io s"
    and same: "free_event_ids io = free_event_ids (ctx w)" "length (io_events io) = length (io_events (ctx w))"
      "thread_index io = thread_index (ctx w)" "submission io = submission (ctx w)"
      "event_type (io_events io ! sqe_data s) = event_type (io_events (ctx w) ! sqe_data s)"
  shows "ring_ok t (set_ctx io (complete s n w))"
    "abs_ring (set_ctx io (complete s n w)) = (registered (urelay w),
       inbox (ctx w) (completed w) @ (case cqe_datagram io \<lparr>cqe_data = sqe_data s, cqe_res = n\<rparr> of None \<Rightarrow> [] | Some d \<Rightarrow> [d]),
       outgoing (ctx w) (remove1 s (operations w)))"
proof -
  let ?w = "set_ctx io (complete s n w)"
  have ops: "ops_ok (ctx w) (operations w) (completed w)" using ok by (simp add: ring_ok_def)
  have s': "s \<in> set (operations w)" using s by (simp add: operations_def)
  have eq: "operations ?w = remove1 s (operations w)" using s same(4) by (simp add: operations_def remove1_append)
  note take = take_sqe [OF ops s']
  show "ring_ok t ?w"
    using ok ops_ok_complete [OF ops s' n agree slot same(1,2)] census_complete [OF ops s' agree same(5,3)] eq
    by (simp add: ring_ok_def)
  have "outgoing io (remove1 s (operations w)) = outgoing (ctx w) (remove1 s (operations w))"
  proof (rule agree_outgoing [OF agree])
    show "sqe_data ` set (remove1 s (operations w)) \<subseteq> - {sqe_data s}" using take(2) by blast
    show "\<forall>u \<in> set (remove1 s (operations w)). sqe_ok (ctx w) u"
      using ops notin_set_remove1 [of _ "operations w" s] by (auto simp: ops_ok_def)
  qed
  moreover have "inbox io (completed w) = inbox (ctx w) (completed w)"
    by (rule agree_inbox [OF agree]) (use take(3) ops in \<open>auto simp: ops_ok_def\<close>)
  ultimately show "abs_ring ?w = (registered (urelay w),
       inbox (ctx w) (completed w) @ (case cqe_datagram io \<lparr>cqe_data = sqe_data s, cqe_res = n\<rparr> of None \<Rightarrow> [] | Some d \<Rightarrow> [d]),
       outgoing (ctx w) (remove1 s (operations w)))"
    by (simp add: abs_ring_def eq)
qed

lemma ring_operation:
  assumes "ring_ok t w" and "s \<in> set (pending w)"
  shows "sqe_ok (ctx w) s" "s \<in> set (operations w)"
  using assms by (auto simp: ring_ok_def ops_ok_def operations_def)

lemma set_ctx_same [simp]: "set_ctx (ctx w) w' = w' \<longleftrightarrow> ctx w' = ctx w"
proof
  assume "set_ctx (ctx w) w' = w'"
  then show "ctx w' = ctx w" by (metis set_ctx_simps(1))
next
  assume "ctx w' = ctx w"
  then show "set_ctx (ctx w) w' = w'" by (simp add: set_ctx_def)
qed

text \<open>A completion that delivers nothing.\<close>

lemma complete_quietly:
  assumes ok: "ring_ok t w" and s: "s \<in> set (pending w)" and n: "n \<le> 1024"
    and quiet: "n < 0 \<or> op s \<noteq> Op_recvmsg"
  shows "ring_ok t (complete s n w)"
    "abs_ring (complete s n w) = (registered (urelay w), inbox (ctx w) (completed w),
        outgoing (ctx w) (remove1 s (operations w)))"
    "outgoing (ctx w) (operations w) = outgoing (ctx w) (remove1 s (operations w))
      + (if op s = Op_sendmsg then {#sqe_message (ctx w) s#} else {#})"
proof -
  note s' = ring_operation [OF ok s]
  have eq: "set_ctx (ctx w) (complete s n w) = complete s n w" by simp
  have "cqe_datagram (ctx w) \<lparr>cqe_data = sqe_data s, cqe_res = n\<rparr> = None"
    using quiet s'(1)
    by (auto simp: cqe_datagram_def Let_def sqe_ok_def split: overlay.split ring_event_type.splits)
  with ring_ok_complete [OF ok s n agree_refl s'(1), unfolded eq] show "ring_ok t (complete s n w)"
    "abs_ring (complete s n w) = (registered (urelay w), inbox (ctx w) (completed w),
        outgoing (ctx w) (remove1 s (operations w)))"
    by simp_all
  show "outgoing (ctx w) (operations w) = outgoing (ctx w) (remove1 s (operations w))
      + (if op s = Op_sendmsg then {#sqe_message (ctx w) s#} else {#})"
    by (rule outgoing_remove [OF s'(2)])
qed

text \<open>A receive that succeeds.\<close>

lemma receive_simulates:
  assumes ok: "ring_ok t w" and s: "s \<in> set (pending w)" and recv: "op s = Op_recvmsg"
    and k: "kernel_receive (sqe_event s) src bs (ctx w) = Inr io"
  defines "d \<equiv> if sqe_fd s = ring_client_socket io then Client_dgram src bs else Peer_dgram bs"
  shows "ring_ok t (set_ctx io (complete s (int (length bs)) w))"
    "abs_ring (set_ctx io (complete s (int (length bs)) w))
      = (registered (urelay w), inbox (ctx w) (completed w) @ [d], outgoing (ctx w) (operations w))"
proof -
  note s' = ring_operation [OF ok s]
  let ?i = "sqe_data s"
  have "op s \<noteq> Op_timeout" using recv by simp
  from message_iov_ok [OF s'(1) this] obtain n where n: "n \<le> 1024"
    "message_iov (sqe_event s) (ctx w) = Inr (?i * 1024, n)"
    "event_overlay (io_events (ctx w) ! ?i) = Rx_iov (?i * 1024) n" by blast
  have i: "sqe_event s = ?i" "?i < 16" "length (io_events (ctx w)) = 16"
    using s'(1) ok by (auto simp: sqe_ok_def slot_ok_def Let_def ring_ok_def ops_ok_def)
  have len: "length bs \<le> n" and io: "io = set_event ?i (\<lambda>e. e\<lparr>rx_address := src\<rparr>)
      ((ctx w)\<lparr>messages_buffer := write_mem (?i * 1024) bs (messages_buffer (ctx w))\<rparr>)"
    using k n(2) i(1) by (auto simp: kernel_receive_def split: if_splits)
  have ev: "io_events io ! ?i = (io_events (ctx w) ! ?i)\<lparr>rx_address := src\<rparr>"
    using i by (simp add: io)
  have agree: "agree (- {?i}) (ctx w) io"
    using len n(1) by (auto simp: io agree_def write_mem_apart)
  have sockets: "ring_client_socket io = ring_client_socket (ctx w)" "ring_peer_socket io = ring_peer_socket (ctx w)"
    by (simp_all add: io)
  have slot: "sqe_ok io s"
    using s'(1) ev sockets
    by (simp add: sqe_ok_def slot_ok_def Let_def split: ring_event_type.splits)
  have ty: "event_type (io_events (ctx w) ! ?i)
      = (if sqe_fd s = ring_client_socket (ctx w) then Type_client_rx else Type_peer_rx)"
    using s'(1) recv ok by (auto simp: sqe_ok_def ring_ok_def ops_ok_def split: ring_event_type.splits)
  have d: "cqe_datagram io \<lparr>cqe_data = ?i, cqe_res = int (length bs)\<rparr> = Some d"
    using ev ty n(3) by (simp add: cqe_datagram_def Let_def d_def) (simp add: io)
  have "outgoing (ctx w) (operations w) = outgoing (ctx w) (remove1 s (operations w))"
    using outgoing_remove [OF s'(2)] recv by simp
  moreover have same: "free_event_ids io = free_event_ids (ctx w)" "length (io_events io) = length (io_events (ctx w))"
    "thread_index io = thread_index (ctx w)" "submission io = submission (ctx w)"
    "event_type (io_events io ! ?i) = event_type (io_events (ctx w) ! ?i)"
    using ev by (simp_all add: io)
  moreover have "int (length bs) \<le> 1024" using len n(1) by simp
  ultimately show "ring_ok t (set_ctx io (complete s (int (length bs)) w))"
    "abs_ring (set_ctx io (complete s (int (length bs)) w))
      = (registered (urelay w), inbox (ctx w) (completed w) @ [d], outgoing (ctx w) (operations w))"
    using ring_ok_complete [OF ok s _ agree slot same] d by simp_all
qed

lemma submit_simulates:
  assumes ok: "ring_ok t w"
  defines "w' \<equiv> set_ctx ((ctx w)\<lparr>submission := []\<rparr>) (w\<lparr>pending := pending w @ submission (ctx w)\<rparr>)"
  shows "ring_ok t w'" "abs_ring w' = abs_ring w"
proof -
  let ?io = "(ctx w)\<lparr>submission := []\<rparr>"
  have eq: "operations w' = operations w" "completed w' = completed w" "ctx w' = ?io"
    "registered (urelay w') = registered (urelay w)" "thread_ok t (urelay w') = thread_ok t (urelay w)"
    by (simp_all add: w'_def operations_def set_ctx_def registered_def)
  have ops: "ops_ok (ctx w) (operations w) (completed w)" using ok by (simp add: ring_ok_def)
  have agree: "agree X (ctx w) ?io" for X by (simp add: agree_def)
  have "ops_ok ?io (operations w) (completed w)"
    by (rule ops_ok_update [where X = "{}", OF ops agree]) simp_all
  moreover have "census_ok ?io is = census_ok (ctx w) is" for "is"
    by (simp add: census_ok_def types_of_def)
  ultimately show "ring_ok t w'" using ok by (simp add: ring_ok_def eq)
  have "outgoing ?io (operations w) = outgoing (ctx w) (operations w)"
    by (rule agree_outgoing [OF agree [of UNIV]]) (use ops in \<open>simp_all add: ops_ok_def\<close>)
  moreover have "inbox ?io (completed w) = inbox (ctx w) (completed w)"
    by (rule agree_inbox [OF agree [of UNIV]]) (use ops in \<open>simp_all add: ops_ok_def\<close>)
  ultimately show "abs_ring w' = abs_ring w" by (simp add: abs_ring_def eq)
qed

section \<open>The worker's step\<close>

lemma types_of_simps [simp]:
  "types_of io (is @ js) = types_of io is + types_of io js"
  "types_of io (i # is) = add_mset (event_type (io_events io ! i)) (types_of io is)"
  "types_of io [] = {#}"
  by (simp_all add: types_of_def)

lemma in_flight_simps [simp]:
  "types_of io (in_flight (sqes @ new) cqes)
     = types_of io (map sqe_data new) + types_of io (in_flight sqes cqes)"
  "types_of io (in_flight sqes (c # cqes))
     = add_mset (event_type (io_events io ! cqe_data c)) (types_of io (in_flight sqes cqes))"
  by (simp_all add: in_flight_def)

lemma outgoing_simps [simp]:
  "outgoing io (sqes @ new) = outgoing io sqes + outgoing io new"
  "outgoing io (s # sqes) = (if op s = Op_sendmsg then {#sqe_message io s#} else {#}) + outgoing io sqes"
  "outgoing io [] = {#}"
  by (simp_all add: outgoing_def)

text \<open>What a handler does to the other operations, when it only touches the event it handles and
  perhaps a free one.\<close>

lemma after_handling:
  assumes ok: "ops_ok io sqes (c # cqes)" and agree: "agree X io io'"
    and X: "- set (cqe_data c # free_event_ids io) \<subseteq> X"
  shows "outgoing io' sqes = outgoing io sqes" "inbox io' cqes = inbox io cqes"
    "types_of io' (in_flight sqes cqes) = types_of io (in_flight sqes cqes)"
proof -
  have "mset ((cqe_data c # free_event_ids io) @ in_flight sqes cqes)
      = mset (free_event_ids io @ in_flight sqes (c # cqes))"
    by (simp add: in_flight_def)
  then have "distinct ((cqe_data c # free_event_ids io) @ in_flight sqes cqes)"
    using ops_okD(2) [OF ok] mset_eq_imp_distinct_iff by blast
  then have "set (cqe_data c # free_event_ids io) \<inter> set (in_flight sqes cqes) = {}"
    by (simp only: distinct_append)
  then have d: "set (in_flight sqes cqes) \<subseteq> X" using X by blast
  show "outgoing io' sqes = outgoing io sqes"
    by (rule agree_outgoing [OF agree]) (use d ok in \<open>auto simp: in_flight_def ops_ok_def\<close>)
  show "inbox io' cqes = inbox io cqes"
    by (rule agree_inbox [OF agree]) (use d ok in \<open>auto simp: in_flight_def ops_ok_def\<close>)
  show "types_of io' (in_flight sqes cqes) = types_of io (in_flight sqes cqes)"
    by (rule agree_types [OF agree d])
qed

lemma cqe_datagram_rx:
  assumes ok: "ops_ok io sqes (c # cqes)" and res: "0 \<le> cqe_res c"
  shows "event_type (io_events io ! cqe_data c) = Type_client_rx \<Longrightarrow> cqe_datagram io c =
      Some (Client_dgram (rx_address (io_events io ! cqe_data c)) (packet_data uring_lib io (uring_packet c)))"
    "event_type (io_events io ! cqe_data c) = Type_peer_rx \<Longrightarrow> cqe_datagram io c =
      Some (Peer_dgram (packet_data uring_lib io (uring_packet c)))"
proof -
  have le: "cqe_res c \<le> 1024" using head_cqe(7) [OF ok] by (simp add: cqe_ok_def)
  have n: "\<exists>n. event_overlay (io_events io ! cqe_data c) = Rx_iov (cqe_data c * 1024) n"
    if "event_type (io_events io ! cqe_data c) \<noteq> Type_timer"
    using head_message [OF ok that] by blast
  show "event_type (io_events io ! cqe_data c) = Type_client_rx \<Longrightarrow> cqe_datagram io c =
      Some (Client_dgram (rx_address (io_events io ! cqe_data c)) (packet_data uring_lib io (uring_packet c)))"
    "event_type (io_events io ! cqe_data c) = Type_peer_rx \<Longrightarrow> cqe_datagram io c =
      Some (Peer_dgram (packet_data uring_lib io (uring_packet c)))"
    using n res le by (auto simp: cqe_datagram_def Let_def uring_packet_def cqe_size_unat)
qed

lemma cqe_datagram_other:
  "event_type (io_events io ! cqe_data c) \<in> {Type_peer_tx, Type_timer} \<Longrightarrow> cqe_datagram io c = None"
  by (auto simp: cqe_datagram_def Let_def split: overlay.split)

lemma handled_operations:
  assumes "operations w = sqes" and "submission (lib r) = submission (ctx w) @ new"
  shows "operations (w\<lparr>urelay := r, completed := cs\<rparr>) = sqes @ new"
  using assms by (auto simp: operations_def)

lemma handle_client_simulates:
  assumes ok: "ring_ok t w" and c: "completed w = c # cs" and h: "handle_cqe t c (urelay w) = Inr r"
    and ty: "event_type (io_events (ctx w) ! cqe_data c) = Type_client_rx" and res: "0 \<le> cqe_res c"
  shows "ring_ok t (w\<lparr>urelay := r, completed := cs\<rparr>)
    \<and> (\<exists>d. cqe_datagram (ctx w) c = Some d \<and> abs_step (abs_ring w) (Handle d) (abs_ring (w\<lparr>urelay := r, completed := cs\<rparr>)))"
proof -
  let ?io = "ctx w" and ?w = "w\<lparr>urelay := r, completed := cs\<rparr>" and ?i = "cqe_data c"
  let ?bs = "packet_data uring_lib ?io (uring_packet c)" and ?src = "rx_address (io_events (ctx w) ! cqe_data c)"
  have ops: "ops_ok ?io (operations w) (c # cs)" and t: "thread_ok t (urelay w)"
    using ok c by (simp_all add: ring_ok_def)
  from handle_client_rx [OF ops _ t ty res] h
  have r: "thread_ok t r" "registered r = spec_client ?src ?bs (registered (urelay w))"
    "lib r = rearmed ?i Type_client_rx (ring_client_socket ?io) ?io"
    by (auto simp: operations_def)
  have eq: "operations ?w = operations w @ [recv_sqe ?i (ring_client_socket ?io)]"
    by (rule handled_operations [OF refl]) (simp add: r(3))
  note after = after_handling [OF ops agree_rearmed [of ?i ?io Type_client_rx "ring_client_socket ?io"], folded r(3)]
  have "ring_ok t ?w"
    using rearmed_ok [OF ops, of Type_client_rx "ring_client_socket ?io"] ok after(3) r ty c head_cqe(2) [OF ops]
    by (simp add: ring_ok_def eq census_ok_def)
  moreover note d = cqe_datagram_rx(1) [OF ops res ty]
  moreover have "abs_ring w = (registered (urelay w), Client_dgram ?src ?bs # inbox ?io cs, outgoing ?io (operations w))"
    using d c by (simp add: abs_ring_def)
  moreover have "abs_ring ?w = (spec_client ?src ?bs (registered (urelay w)), inbox ?io cs, outgoing ?io (operations w))"
    using after(1,2) r(2) by (simp add: abs_ring_def eq)
  ultimately show ?thesis using abs_step.intros(3) by fastforce
qed

text \<open>A peer datagram whose session is unknown only arms its receive again.\<close>

lemma dropped_simulates:
  assumes ok: "ring_ok t w" and c: "completed w = c # cs"
    and ty: "event_type (io_events (ctx w) ! cqe_data c) = Type_peer_rx"
    and r: "spec_peer (registered (urelay w)) bs = None" "thread_ok t r" "registered r = registered (urelay w)"
      "lib r = rearmed (cqe_data c) Type_peer_rx (ring_peer_socket (ctx w)) (ctx w)"
  shows "ring_ok t (w\<lparr>urelay := r, completed := cs\<rparr>)"
    "abs_ring (w\<lparr>urelay := r, completed := cs\<rparr>) = (registered (urelay w), inbox (ctx w) cs,
      outgoing (ctx w) (operations w) + mset (spec_peers (registered (urelay w)) [bs]))"
proof -
  let ?io = "ctx w" and ?w = "w\<lparr>urelay := r, completed := cs\<rparr>" and ?i = "cqe_data c" and ?fd = "ring_peer_socket (ctx w)"
  have ops: "ops_ok ?io (operations w) (c # cs)" using ok c by (simp add: ring_ok_def)
  have eq: "operations ?w = operations w @ [recv_sqe ?i ?fd]"
    by (rule handled_operations [OF refl]) (simp add: r(4))
  note after = after_handling [OF ops agree_rearmed [of ?i ?io Type_peer_rx ?fd], folded r(4)]
  show "ring_ok t ?w"
    using rearmed_ok [OF ops, of Type_peer_rx ?fd] ok after(3) r ty c head_cqe(2) [OF ops]
    by (simp add: ring_ok_def eq census_ok_def)
  show "abs_ring ?w = (registered (urelay w), inbox ?io cs,
      outgoing ?io (operations w) + mset (spec_peers (registered (urelay w)) [bs]))"
    using after(1,2) r(1,3) by (simp add: abs_ring_def eq)
qed

text \<open>The send queued for event \<open>k\<close> and the receive armed again leave the other operations alone.\<close>

lemma sent_operations:
  fixes a :: 'ep
  assumes ops: "ops_ok io sqes (c # cqes)" and free: "free_event_ids io = fs @ [k]"
    and p: "unat (plength (uring_packet c)) \<le> 1024"
  defines "fd \<equiv> ring_peer_socket io"
  defines "io' \<equiv> rearmed (cqe_data c) Type_peer_rx fd (with_send a (uring_packet c) fs k io)"
  shows "event_type (io_events io' ! k) = Type_peer_tx" "event_type (io_events io' ! cqe_data c) = Type_peer_rx"
    "types_of io' (in_flight sqes cqes) = types_of io (in_flight sqes cqes)"
    "outgoing io' sqes = outgoing io sqes" "inbox io' cqes = inbox io cqes"
    "sqe_message io' (send_sqe k (ring_client_socket io)) = (a, packet_data uring_lib io (uring_packet c))"
    "ops_ok io' ((sqes @ [send_sqe k (ring_client_socket io)]) @ [recv_sqe (cqe_data c) fd]) cqes"
proof -
  let ?i = "cqe_data c" and ?io1 = "with_send a (uring_packet c) fs k io"
  have k: "k \<noteq> ?i" "k < length (io_events io)"
    using head_cqe(5) [OF ops] ops_okD(1,3) [OF ops] by (auto simp: free)
  note ops1 = with_send_ok [OF ops free p, of a]
  have "agree (- {?i, k}) io io'"
  proof (rule agree_trans)
    show "agree (- {?i, k}) io ?io1" by (rule agree_subset [OF agree_with_send [OF p]]) auto
    show "agree (- {?i, k}) ?io1 io'"
      unfolding io'_def by (rule agree_subset [OF agree_rearmed]) auto
  qed
  note after = after_handling [OF ops this]
  show "types_of io' (in_flight sqes cqes) = types_of io (in_flight sqes cqes)"
    "outgoing io' sqes = outgoing io sqes" "inbox io' cqes = inbox io cqes"
    using after free by (auto simp: subset_iff)
  show "event_type (io_events io' ! k) = Type_peer_tx" "event_type (io_events io' ! ?i) = Type_peer_rx"
    using k head_cqe(2) [OF ops] agree_rearmed [of ?i ?io1 Type_peer_rx fd]
    by (simp_all add: io'_def agree_def) (simp add: with_send_def)
  show "ops_ok io' ((sqes @ [send_sqe k (ring_client_socket io)]) @ [recv_sqe ?i fd]) cqes"
    using rearmed_ok [OF ops1, of Type_peer_rx fd] by (simp add: io'_def fd_def)
  have "sqe_message io' (send_sqe k (ring_client_socket io)) = sqe_message ?io1 (send_sqe k (ring_client_socket io))"
    unfolding io'_def by (rule agree_sqe_message [OF agree_rearmed]) (use k ops1 in \<open>auto simp: ops_ok_def\<close>)
  then show "sqe_message io' (send_sqe k (ring_client_socket io)) = (a, packet_data uring_lib io (uring_packet c))"
    using with_send_message [OF k(2)] by simp
qed

text \<open>A peer datagram of a session: its copy is on its way to the client.\<close>

lemma sent_simulates:
  fixes a :: 'ep
  assumes ok: "ring_ok t w" and c: "completed w = c # cs" and res: "0 \<le> cqe_res c"
    and ty: "event_type (io_events (ctx w) ! cqe_data c) = Type_peer_rx"
  defines "bs \<equiv> packet_data uring_lib (ctx w) (uring_packet c)"
  assumes r: "spec_peer (registered (urelay w)) bs = Some (a, bs)" "free_event_ids (ctx w) = fs @ [k]"
      "thread_ok t r" "registered r = registered (urelay w)"
      "lib r = rearmed (cqe_data c) Type_peer_rx (ring_peer_socket (ctx w)) (with_send a (uring_packet c) fs k (ctx w))"
  shows "ring_ok t (w\<lparr>urelay := r, completed := cs\<rparr>)"
    "abs_ring (w\<lparr>urelay := r, completed := cs\<rparr>) = (registered (urelay w), inbox (ctx w) cs,
      outgoing (ctx w) (operations w) + mset (spec_peers (registered (urelay w)) [bs]))"
proof -
  let ?w = "w\<lparr>urelay := r, completed := cs\<rparr>" and ?fd = "ring_peer_socket (ctx w)"
  let ?s = "send_sqe k (ring_client_socket (ctx w))"
  have ops: "ops_ok (ctx w) (operations w) (c # cs)" using ok c by (simp add: ring_ok_def)
  have p: "unat (plength (uring_packet c)) \<le> 1024"
    using head_cqe(7) [OF ops] res by (simp add: uring_packet_def cqe_ok_def cqe_size_unat nat_le_iff)
  note s = sent_operations [OF ops r(2) p, of a, folded r(5)]
  have eq: "operations ?w = (operations w @ [?s]) @ [recv_sqe (cqe_data c) ?fd]"
    using handled_operations [OF refl, of r w "[?s, recv_sqe (cqe_data c) ?fd]"] by (simp add: r(5))
  have "thread_index (lib r) = thread_index (ctx w)" by (simp add: r(5))
  then show "ring_ok t ?w"
    using ok r(3) ty c s(1-3,7) unfolding ring_ok_def eq by (simp add: census_ok_def)
  show "abs_ring ?w = (registered (urelay w), inbox (ctx w) cs,
      outgoing (ctx w) (operations w) + mset (spec_peers (registered (urelay w)) [bs]))"
    using r(1,4) s(4-6) by (simp add: abs_ring_def eq bs_def)
qed

lemma handle_peer_simulates:
  assumes ok: "ring_ok t w" and c: "completed w = c # cs" and h: "handle_cqe t c (urelay w) = Inr r"
    and ty: "event_type (io_events (ctx w) ! cqe_data c) = Type_peer_rx" and res: "0 \<le> cqe_res c"
  shows "ring_ok t (w\<lparr>urelay := r, completed := cs\<rparr>)
    \<and> (\<exists>d. cqe_datagram (ctx w) c = Some d \<and> abs_step (abs_ring w) (Handle d) (abs_ring (w\<lparr>urelay := r, completed := cs\<rparr>)))"
proof -
  let ?io = "ctx w" and ?w = "w\<lparr>urelay := r, completed := cs\<rparr>"
  let ?bs = "packet_data uring_lib (ctx w) (uring_packet c)"
  have ops: "ops_ok ?io (operations w) (c # cs)" and t: "thread_ok t (urelay w)"
    using ok c by (simp_all add: ring_ok_def)
  note d = cqe_datagram_rx(2) [OF ops res ty]
  have abs: "abs_ring w = (registered (urelay w), Peer_dgram ?bs # inbox ?io cs, outgoing ?io (operations w))"
    using d c by (simp add: abs_ring_def)
  let ?arm = "rearmed (cqe_data c) Type_peer_rx (ring_peer_socket ?io)"
  from handle_peer_rx [OF ops _ t ty res] h consider
    (dropped) "spec_peer (registered (urelay w)) ?bs = None" "thread_ok t r" "registered r = registered (urelay w)"
      "lib r = ?arm ?io"
  | (sent) a fs k where "spec_peer (registered (urelay w)) ?bs = Some (a, ?bs)" "free_event_ids ?io = fs @ [k]"
      "thread_ok t r" "registered r = registered (urelay w)" "lib r = ?arm (with_send a (uring_packet c) fs k ?io)"
    by (auto simp: operations_def)
  then have "ring_ok t ?w \<and> abs_ring ?w = (registered (urelay w), inbox ?io cs,
      outgoing ?io (operations w) + mset (spec_peers (registered (urelay w)) [?bs]))"
  proof cases
    case dropped
    from dropped_simulates [OF ok c ty this] show ?thesis by blast
  next
    case sent
    from sent_simulates [OF ok c res ty this] show ?thesis by blast
  qed
  then show ?thesis using d abs abs_step.intros(4) by metis
qed

text \<open>A completed send gives its event back.\<close>

lemma handle_tx_simulates:
  assumes ok: "ring_ok t w" and c: "completed w = c # cs" and h: "handle_cqe t c (urelay w) = Inr r"
    and ty: "event_type (io_events (ctx w) ! cqe_data c) = Type_peer_tx"
  shows "ring_ok t (w\<lparr>urelay := r, completed := cs\<rparr>)"
    "abs_ring (w\<lparr>urelay := r, completed := cs\<rparr>) = abs_ring w"
proof -
  let ?io = "ctx w" and ?w = "w\<lparr>urelay := r, completed := cs\<rparr>" and ?i = "cqe_data c"
  have ops: "ops_ok ?io (operations w) (c # cs)" and t: "thread_ok t (urelay w)"
    using ok c by (simp_all add: ring_ok_def)
  from handle_peer_tx [OF ops t ty] h obtain sts where
    r: "r = (urelay w)\<lparr>per_thread_statistics := sts, lib := release_event ?i ?io\<rparr>"
    and len: "length sts = length (per_thread_statistics (urelay w))" by auto
  have eq: "operations ?w = operations w" by (simp add: operations_def r release_event_def)
  have agree: "agree (- {?i}) ?io (lib r)" by (simp add: agree_def r release_event_def)
  note after = after_handling [OF ops agree]
  have "ops_ok (lib r) (operations w) cs" using release_ok [OF ops] by (simp add: r)
  moreover have "thread_index (lib r) = thread_index ?io" by (simp add: r release_event_def)
  moreover have "thread_ok t r" using t len by (simp add: r thread_ok_def)
  ultimately show "ring_ok t ?w" using ok after ty c by (simp add: ring_ok_def eq census_ok_def)
  have "registered r = registered (urelay w)" by (simp add: r registered_def)
  then show "abs_ring ?w = abs_ring w"
    using after ty c cqe_datagram_other [of ?io c] by (simp add: abs_ring_def eq)
qed

text \<open>An expired timer is armed again and its thread's statistics start over.\<close>

lemma handle_timer_simulates:
  assumes ok: "ring_ok t w" and c: "completed w = c # cs" and h: "handle_cqe t c (urelay w) = Inr r"
    and ty: "event_type (io_events (ctx w) ! cqe_data c) = Type_timer"
  shows "ring_ok t (w\<lparr>urelay := r, completed := cs\<rparr>)"
    "abs_ring (w\<lparr>urelay := r, completed := cs\<rparr>) = abs_ring w"
proof -
  let ?io = "ctx w" and ?w = "w\<lparr>urelay := r, completed := cs\<rparr>" and ?i = "cqe_data c"
  have ops: "ops_ok ?io (operations w) (c # cs)" and t: "thread_ok t (urelay w)"
    using ok c by (simp_all add: ring_ok_def)
  from handle_timer [OF ops _ ty] h have
    r: "r = (urelay w)\<lparr>per_thread_statistics :=
      replicate (length (per_thread_statistics (urelay w))) statistics_zero, lib := retimed ?i ?io\<rparr>"
    by (auto simp: operations_def)
  have eq: "operations ?w = operations w @ [timeout_sqe ?i]"
    by (rule handled_operations [OF refl]) (simp add: r)
  have agree: "agree (- {?i}) ?io (lib r)" using agree_retimed [of ?i ?io] by (simp add: r)
  note after = after_handling [OF ops agree]
  have "ops_ok (lib r) (operations ?w) cs" using retimed_ok [OF ops ty] unfolding eq by (simp add: r)
  moreover have "thread_index (lib r) = thread_index ?io" by (simp add: r)
  moreover have "event_type (io_events (lib r) ! ?i) = Type_timer"
    using ty head_cqe(2) [OF ops] by (simp add: r)
  moreover have "thread_ok t r" using t by (simp add: r thread_ok_def)
  ultimately show "ring_ok t ?w" using ok after ty c by (simp add: ring_ok_def eq census_ok_def)
  have "registered r = registered (urelay w)" by (simp add: r registered_def)
  then show "abs_ring ?w = abs_ring w"
    using after ty c cqe_datagram_other [of ?io c] by (simp add: abs_ring_def eq)
qed

lemmas handle_other_simulates = handle_tx_simulates handle_timer_simulates

lemma handle_simulates:
  assumes ok: "ring_ok t w" and c: "completed w = c # cs" and h: "handle_cqe t c (urelay w) = Inr r"
  shows "ring_ok t (w\<lparr>urelay := r, completed := cs\<rparr>)
    \<and> abs_step (abs_ring w) (case cqe_datagram (ctx w) c of None \<Rightarrow> Internal | Some d \<Rightarrow> Handle d)
        (abs_ring (w\<lparr>urelay := r, completed := cs\<rparr>))"
proof -
  let ?ty = "event_type (io_events (ctx w) ! cqe_data c)"
  have "ops_ok (ctx w) (operations w) (c # cs)" using ok c by (simp add: ring_ok_def)
  from head_cqe(7) [OF this] have "?ty \<noteq> Type_invalid" by (simp add: cqe_ok_def)
  then consider (client) "?ty = Type_client_rx" | (peer) "?ty = Type_peer_rx" | (other) "?ty \<in> {Type_peer_tx, Type_timer}"
    by (cases ?ty) auto
  then show ?thesis
  proof cases
    case client
    then have "0 \<le> cqe_res c" using h by (auto simp: handle_cqe_def Let_def split: if_splits)
    from handle_client_simulates [OF ok c h client this] show ?thesis by auto
  next
    case peer
    then have "0 \<le> cqe_res c" using h by (auto simp: handle_cqe_def Let_def split: if_splits)
    from handle_peer_simulates [OF ok c h peer this] show ?thesis by auto
  next
    case other
    then show ?thesis
      using handle_other_simulates [OF ok c h] cqe_datagram_other [OF other] abs_step.intros(1)
      by (cases "abs_ring w") auto
  qed
qed

text \<open>A send that completes, with success or not, takes its message from those in flight.\<close>

lemma ring_send_completes:
  assumes ok: "ring_ok t w" and s: "s \<in> set (pending w)" and send: "op s = Op_sendmsg"
    and message: "kernel_send (sqe_event s) (ctx w) = Inr (ep, bs)" and n: "n \<le> int (length bs)"
  shows "ring_ok t (complete s n w)"
    and "abs_ring w = (registered (urelay w), inbox (ctx w) (completed w),
      add_mset (ep, bs) (outgoing (ctx w) (remove1 s (operations w))))"
    and "abs_ring (complete s n w) = (registered (urelay w), inbox (ctx w) (completed w),
      outgoing (ctx w) (remove1 s (operations w)))"
proof -
  note m = kernel_send_message [OF ring_operation(1) [OF ok s] send]
  have ep: "sqe_message (ctx w) s = (ep, bs)" using m(1) message by simp
  then have "n \<le> 1024" using m(2) n by simp
  note q = complete_quietly [OF ok s this]
  show "ring_ok t (complete s n w)" "abs_ring w = (registered (urelay w), inbox (ctx w) (completed w),
      add_mset (ep, bs) (outgoing (ctx w) (remove1 s (operations w))))"
    "abs_ring (complete s n w) = (registered (urelay w), inbox (ctx w) (completed w),
      outgoing (ctx w) (remove1 s (operations w)))"
    using q send ep by (simp_all add: abs_ring_def)
qed

lemma ring_step_simulates:
  assumes "ring_step t w l w'" and ok: "ring_ok t w"
  shows "ring_ok t w' \<and> abs_step (abs_ring w) l (abs_ring w')"
  using assms(1)
proof cases
  case submit
  with submit_simulates [OF ok] show ?thesis by (cases "abs_ring w") (auto intro: abs_step.intros)
next
  case (receive s src bs io)
  from receive_simulates [OF ok receive(3-5)] show ?thesis
    unfolding receive(1,2) by (auto simp: abs_ring_def intro: abs_step.intros)
next
  case (receive_error s n)
  then have "n \<le> 1024" by simp
  note q = complete_quietly [OF ok receive_error(3) this]
  show ?thesis using q receive_error by (auto simp: abs_ring_def intro: abs_step.intros)
next
  case (transmit s ep bs)
  show ?thesis using ring_send_completes [OF ok transmit(3-5) order_refl] transmit(1,2) by (auto intro: abs_step.intros)
next
  case (transmit_error s ep bs n)
  have "n \<le> int (length bs)" using transmit_error(6) by simp
  then show ?thesis
    using ring_send_completes [OF ok transmit_error(3-5), of n] transmit_error(1,2) by (auto intro: abs_step.intros)
next
  case (expire s n)
  then have "n \<le> 1024" by simp
  note q = complete_quietly [OF ok expire(3) this]
  show ?thesis using q expire by (auto simp: abs_ring_def intro: abs_step.intros)
next
  case (handle c cs r)
  from handle_simulates [OF ok handle(3,4)] handle(1,2) show ?thesis by simp
qed

section \<open>Runs\<close>

inductive ring_run :: "nat \<Rightarrow> 'ep ring_world \<Rightarrow> 'ep ring_label list \<Rightarrow> 'ep ring_world \<Rightarrow> bool" for t where
  run_start: "ring_run t w [] w"
| run_step: "ring_run t w ls w1 \<Longrightarrow> ring_step t w1 l w2 \<Longrightarrow> ring_run t w (ls @ [l]) w2"

inductive abs_run :: "'ep abs_ring \<Rightarrow> 'ep ring_label list \<Rightarrow> 'ep abs_ring \<Rightarrow> bool" where
  abs_start: "abs_run a [] a"
| abs_next: "abs_run a ls a1 \<Longrightarrow> abs_step a1 l a2 \<Longrightarrow> abs_run a (ls @ [l]) a2"

lemma ring_run_simulates:
  assumes "ring_run t w ls w'" and "ring_ok t w"
  shows "ring_ok t w' \<and> abs_run (abs_ring w) ls (abs_ring w')"
  using assms by induction (auto intro: abs_run.intros dest: ring_step_simulates)

text \<open>The state in which a worker enters its loop.\<close>

definition ring_start :: "('ep, 'ep listen_context) relay \<Rightarrow> 'ep ring_world" where
  "ring_start r = \<lparr>urelay = r, pending = [], completed = []\<rparr>"

definition initial_context :: "'ep \<Rightarrow> nat \<Rightarrow> int \<Rightarrow> int \<Rightarrow> 'ep listen_context" where
  "initial_context zero_ep index client_fd peer_fd =
     \<lparr>ring_peer_socket = 0, ring_client_socket = 1, submission = [], messages_buffer = (\<lambda>_. 0),
      io_events = replicate 16 \<lparr>event_type = Type_invalid, event_index = 0, event_overlay = Rx_iov 0 0,
        rx_address = zero_ep, rx_message = None\<rparr>,
      free_event_ids = [0..<16], peer_socket_fd = peer_fd, client_socket_fd = client_fd, thread_index = index\<rparr>"

definition armed_context :: "'ep listen_context \<Rightarrow> 'ep listen_context" where
  "armed_context io =
     (let io1 = set_event 15 (fresh_event Type_client_rx 15) io;
          io2 = set_event 14 (fresh_event Type_peer_rx 14) io1
      in if thread_index io = 0
         then (set_event 13 (\<lambda>e. (fresh_event Type_timer 13 e)\<lparr>event_overlay := create_timeout k_statistics_timeout_ms\<rparr>) io2)
            \<lparr>free_event_ids := [0..<13],
             submission := [recv_sqe 15 1, recv_sqe 14 0, timeout_sqe 13]\<rparr>
         else io2\<lparr>free_event_ids := [0..<14], submission := [recv_sqe 15 1, recv_sqe 14 0]\<rparr>)"

lemma upt_16: "[0..<16] = [0..<15] @ [15]" "[0..<15] = [0..<14] @ [14]" "[0..<14] = [0..<13] @ [13 :: nat]"
  by (simp_all add: upt_rec)

lemma arm_worker_eq:
  "arm_worker (initial_context z i c p) = Inr (armed_context (initial_context z i c p))"
proof -
  let ?io = "initial_context z i c p"
  have f: "free_event_ids ?io = [0..<15] @ [15]" "length (io_events ?io) = 16" "thread_index ?io = i"
    "submission ?io = []" "ring_client_socket ?io = 1" "ring_peer_socket ?io = 0"
    using upt_16(1) by (simp_all add: initial_context_def)
  let ?io1 = "(set_event 15 (fresh_event Type_client_rx 15) (?io\<lparr>free_event_ids := [0..<14] @ [14]\<rparr>))
    \<lparr>submission := [recv_sqe 15 1]\<rparr>"
  let ?io2 = "(set_event 14 (fresh_event Type_peer_rx 14) (?io1\<lparr>free_event_ids := [0..<13] @ [13]\<rparr>))
    \<lparr>submission := [recv_sqe 15 1, recv_sqe 14 0]\<rparr>"
  have 1: "alloc_event Type_client_rx ?io = Inr (15, set_event 15 (fresh_event Type_client_rx 15) (?io\<lparr>free_event_ids := [0..<15]\<rparr>))"
    using f by (intro alloc_event_eq) simp_all
  have 2: "alloc_event Type_peer_rx ?io1 = Inr (14, set_event 14 (fresh_event Type_peer_rx 14) (?io1\<lparr>free_event_ids := [0..<14]\<rparr>))"
    using f by (intro alloc_event_eq) simp_all
  have 3: "alloc_event Type_timer ?io2 = Inr (13, set_event 13 (fresh_event Type_timer 13) (?io2\<lparr>free_event_ids := [0..<13]\<rparr>))"
    using f by (intro alloc_event_eq) simp_all
  show ?thesis
    using f 1 2 3
    by (cases "i = 0") (simp_all add: arm_worker_def add_recvmsg_def add_timeout_def add_sqe_def ring_entries_def is_main_worker_def
        armed_context_def Let_def set_event_def upt_16 del: upt_rec_numeral)
qed

lemma armed_ok:
  assumes io: "io = armed_context (initial_context z i c p)"
  shows "ops_ok io (submission io) []" "census_ok io (in_flight (submission io) [])"
    "inbox io [] = []" "outgoing io (submission io) = {#}"
proof -
  let ?s = "initial_context z i c p"
  have f: "length (io_events ?s) = 16" "thread_index ?s = i" "ring_client_socket ?s = 1" "ring_peer_socket ?s = 0"
    by (simp_all add: initial_context_def)
  have sub: "submission io = (if i = 0 then [recv_sqe 15 1, recv_sqe 14 0, timeout_sqe 13] else [recv_sqe 15 1, recv_sqe 14 0])"
    and free: "free_event_ids io = (if i = 0 then [0..<13] else [0..<13] @ [13])"
    and sock: "ring_client_socket io = 1" "ring_peer_socket io = 0" "thread_index io = i" "length (io_events io) = 16"
    using f by (auto simp: io armed_context_def Let_def upt_16)
  have ev: "io_events io ! 15 = fresh_event Type_client_rx 15 (io_events ?s ! 15)"
    "io_events io ! 14 = fresh_event Type_peer_rx 14 (io_events ?s ! 14)"
    "i = 0 \<Longrightarrow> io_events io ! 13 = (fresh_event Type_timer 13 (io_events ?s ! 13))
       \<lparr>event_overlay := create_timeout k_statistics_timeout_ms\<rparr>"
    using f by (cases "i = 0"; simp add: io armed_context_def Let_def)+
  have "sqe_ok io s" if "s \<in> set (submission io)" for s
    using that ev sock by (auto simp: sub sqe_ok_def slot_ok_def Let_def split: if_splits)
  then show "ops_ok io (submission io) []"
    using sock by (simp add: ops_ok_def free sub in_flight_def upt_16)
  show "census_ok io (in_flight (submission io) [])"
    using ev sock by (simp add: census_ok_def sub in_flight_def is_main_worker_def)
  show "inbox io [] = []" by simp
  show "outgoing io (submission io) = {#}" by (simp add: sub)
qed

definition started :: "('ep, 'l) relay \<Rightarrow> 'm \<Rightarrow> ('ep, 'm) relay" where
  "started r io = \<lparr>sessions = sessions r, per_thread_statistics = per_thread_statistics r,
     this_thread_statistics = this_thread_statistics r, lib = io\<rparr>"

definition uring_start_calls :: "nat \<Rightarrow> int \<Rightarrow> int \<Rightarrow> syscall list" where
  "uring_start_calls i c p =
     [Ring_init 4096] @ (if i = 0 then [Print ''supported features''] else [])
     @ Socket client_port # option_calls c @ Socket peer_port # option_calls p
     @ [Print ''sockets'', Register_files [p, c], Print ''using fixed files'', Register_buffers 0 16384,
        Print ''using fixed buffers'', Latch_wait, Bind c client_port, Bind p peer_port]"

lemma emits_thenP_call:
  assumes "\<not> starts_worker c" and "emits m (\<lambda>y ds. Q y (c # ds))"
  shows "emits (thenP (callP c) m) Q"
  unfolding thenP_def by (rule emits_bind_exact [OF emits_call [OF refl]]) (use assms in simp_all)

lemma emits_thenP_bind:
  assumes "emits m (\<lambda>y ds. Q y (Bind fd a # ds))"
  shows "emits (thenP (bind_socket fd a) m) Q"
  unfolding thenP_def by (rule emits_bind_exact [OF emits_bind_socket]) (use assms in simp_all)

lemma emits_bindP_socket:
  assumes "\<And>fd. emits (k fd) (\<lambda>y ds. Q y (Socket a # option_calls fd @ ds))"
  shows "emits (bindP (create_udp_socket_uring a) k) Q"
  by (rule emits_bind_exact [OF emits_create_udp_socket_uring]) (use assms in simp_all)

lemma emits_context:
  "emits (listen_context_initialize z i) (\<lambda>io cs. \<exists>c p. io = initial_context z i c p
     \<and> cs @ [Latch_wait, Bind c client_port, Bind p peer_port] = uring_start_calls i c p)"
proof (cases "is_main_worker i")
  case True
  then show ?thesis
    unfolding listen_context_initialize_def
    by (auto intro!: emits_thenP_ensure emits_thenP_call emits_bindP_socket emits_return
        simp: uring_start_calls_def is_main_worker_def initial_context_def num_events_def
          ring_entries_def memory_per_packet_def)
next
  case False
  have print: "thenP (if is_main_worker i then callP (Print ''supported features'') else returnP 0) m = m"
    for m :: "'a listen_context prog"
    using False by (simp add: thenP_def)
  show ?thesis
    unfolding listen_context_initialize_def print using False
    by (auto intro!: emits_thenP_ensure emits_thenP_call emits_bindP_socket emits_return
        simp: uring_start_calls_def is_main_worker_def initial_context_def num_events_def
          ring_entries_def memory_per_packet_def)
qed

lemma emits_uring_worker_start:
  fixes z :: 'ep
  assumes "on_thread_start t (of_nat i) r = Inr r1"
  shows "emits (uring_worker_start z t i r) (\<lambda>r' cs. \<exists>c p. cs = uring_start_calls i c p
     \<and> r' = started r1 (armed_context (initial_context z i c p)))"
proof -
  define tail where "tail = (\<lambda>io :: 'ep listen_context. thenP (callP Latch_wait)
    (thenP (bind_socket (client_socket_fd io) client_port)
    (thenP (bind_socket (peer_socket_fd io) peer_port)
    (bindP (lift_res (on_thread_start t (of_nat i) r)) (\<lambda>r.
     bindP (lift_res (arm_worker io)) (\<lambda>io.
     returnP \<lparr>sessions = sessions r, per_thread_statistics = per_thread_statistics r,
       this_thread_statistics = this_thread_statistics r, lib = io\<rparr>))))))"
  have tail: "emits (tail (initial_context z i c p)) (\<lambda>r' ds. ds = [Latch_wait, Bind c client_port, Bind p peer_port]
      \<and> r' = started r1 (armed_context (initial_context z i c p)))" for c p
  proof -
    have last: "bindP (lift_res (on_thread_start t (of_nat i) r)) (\<lambda>r.
        bindP (lift_res (arm_worker (initial_context z i c p))) (\<lambda>io.
        returnP \<lparr>sessions = sessions r, per_thread_statistics = per_thread_statistics r,
          this_thread_statistics = this_thread_statistics r, lib = io\<rparr>))
      = returnP (started r1 (armed_context (initial_context z i c p)))"
      unfolding assms arm_worker_eq lift_res_def sum.case bindP_simps started_def ..
    show ?thesis
      unfolding tail_def last
      by (intro emits_thenP_call emits_thenP_bind emits_return) (simp_all add: initial_context_def)
  qed
  have quiet: "quiet (uring_start_calls i c p)" for c p
    by (simp add: uring_start_calls_def)
  show ?thesis
    unfolding uring_worker_start_def tail_def [symmetric]
  proof (rule emits_bind [OF emits_context], elim exE conjE)
    fix io cs c p
    assume cp: "io = initial_context z i c p"
      "cs @ [Latch_wait, Bind c client_port, Bind p peer_port] = uring_start_calls i c p"
    then have "quiet cs" using quiet [of c p] by (metis quiet_simps(3))
    moreover have "emits (tail io)
      (\<lambda>r' ds. \<exists>c p. cs @ ds = uring_start_calls i c p \<and> r' = started r1 (armed_context (initial_context z i c p)))"
      unfolding cp(1) by (rule emits_conseq [OF tail]) (use cp in blast)
    ultimately show "quiet cs \<and> emits (tail io)
      (\<lambda>r' ds. \<exists>c p. cs @ ds = uring_start_calls i c p \<and> r' = started r1 (armed_context (initial_context z i c p)))"
      by simp
  qed
qed

section \<open>From the start of a worker\<close>

lemma uring_worker_start_result:
  assumes "i < unat threads" and "uring_worker_start z t i (relay_init threads l) os [] = (Inr r, calls)"
  shows "\<exists>c p. calls = uring_start_calls i c p \<and> ring_ok t (ring_start r)
    \<and> abs_ring (ring_start r) = (Map.empty, [], {#}) \<and> thread_index (lib r) = i"
proof -
  have "i < 2 ^ 16" using assms(1) unsigned_less [of threads, where ?'a = nat] by simp
  then have i: "unat (of_nat i :: u16) = i" by (simp add: unat_of_nat)
  have "on_thread_start t (of_nat i) (relay_init threads l)
      = Inr ((relay_init threads l)\<lparr>this_thread_statistics := [t \<mapsto> i]\<rparr>)"
    using assms(1) i by (simp add: on_thread_start_def relay_init_def)
  from emits_uring_worker_start [OF this, of z] have "\<exists>cs. calls = cs \<and> (\<exists>c p. cs = uring_start_calls i c p
      \<and> r = started ((relay_init threads l)\<lparr>this_thread_statistics := [t \<mapsto> i]\<rparr>) (armed_context (initial_context z i c p)))"
    unfolding emits_def using assms(2) by (auto dest!: spec [of _ os] spec [of _ "[]"])
  then obtain c p where calls: "calls = uring_start_calls i c p" and
    r: "r = started ((relay_init threads l)\<lparr>this_thread_statistics := [t \<mapsto> i]\<rparr>) (armed_context (initial_context z i c p))"
    by blast
  let ?w = "ring_start r"
  have "operations ?w = submission (ctx ?w)" "completed ?w = []" "ctx ?w = armed_context (initial_context z i c p)"
    "thread_ok t (urelay ?w)" "registered (urelay ?w) = Map.empty"
    using assms(1)
    by (simp_all add: r operations_def ring_start_def started_def thread_ok_def relay_init_def registered_def fun_eq_iff)
  moreover have "thread_index (lib r) = i"
    by (simp add: r started_def armed_context_def initial_context_def Let_def)
  ultimately show ?thesis using armed_ok [OF refl, of z i c p] calls by (auto simp: ring_ok_def abs_ring_def)
qed

lemma ring_reachable:
  assumes "i < unat threads" and "uring_worker_start z t i (relay_init threads l) os [] = (Inr r, calls)"
    and "ring_run t (ring_start r) ls w"
  shows "ring_ok t w \<and> abs_run (Map.empty, [], {#}) ls (abs_ring w)"
  using uring_worker_start_result [OF assms(1,2)] ring_run_simulates [OF assms(3)] by auto

text \<open>Counting in the abstract relay: nothing is handled that was not delivered, nothing leaves
  that was not handled.\<close>

lemma abs_run_counts:
  assumes "abs_run (m0, [], {#}) ls (m, ib, ob)"
  shows "count (mset ls) (Handle d) + count (mset ib) d = count (mset ls) (Deliver d)"
    and "count (mset ls) (Transmit ep bs) + count (mset ls) (Lose ep bs) + count ob (ep, bs)
      \<le> count (mset ls) (Handle (Peer_dgram bs))"
proof -
  have "(count (mset ls) (Handle d) + count (mset (fst (snd a))) d = count (mset ls) (Deliver d))
    \<and> count (mset ls) (Transmit ep bs) + count (mset ls) (Lose ep bs) + count (snd (snd a)) (ep, bs)
      \<le> count (mset ls) (Handle (Peer_dgram bs))"
    if "abs_run (m0, [], {#}) ls a" for a :: "'a abs_ring"
    using that
  proof (induction "(m0, [], {#}) :: 'a abs_ring" ls a)
    case abs_start
    then show ?case by simp
  next
    case (abs_next ls a1 l a2)
    from abs_next.hyps(3) abs_next.hyps(2) show ?case
    proof cases
      case (4 m bs' ib ob)
      define k where "k = count (mset (spec_peers m [bs'])) (ep, bs)"
      have "k \<le> (if bs' = bs then 1 else 0)"
        unfolding k_def by (cases "m (load_le (take 8 bs'))") (auto simp: spec_peer_def)
      then show ?thesis using 4 abs_next.hyps(2) k_def
        by (cases "bs' = bs") (auto simp del: spec_peers.simps count_mset_0_iff)
    qed auto
  qed
  from this [OF assms] show "count (mset ls) (Handle d) + count (mset ib) d = count (mset ls) (Deliver d)"
    "count (mset ls) (Transmit ep bs) + count (mset ls) (Lose ep bs) + count ob (ep, bs)
      \<le> count (mset ls) (Handle (Peer_dgram bs))"
    by simp_all
qed

text \<open>The number of sends in flight.\<close>

lemma census_sends:
  assumes "census_ok io is"
  shows "size (types_of io is) = count (types_of io is) Type_peer_tx + (if thread_index io = 0 then 3 else 2)"
proof -
  let ?M = "types_of io is"
  let ?A = "filter_mset (\<lambda>ty. ty \<noteq> Type_peer_tx) ?M" and ?B = "filter_mset (\<lambda>ty. \<not> ty \<noteq> Type_peer_tx) ?M"
  have "?B = replicate_mset (count ?M Type_peer_tx) Type_peer_tx"
    by (simp only: not_not filter_eq_replicate_mset)
  then have "size ?B = count ?M Type_peer_tx" by (simp only: size_replicate_mset)
  moreover have "size ?A = (if thread_index io = 0 then 3 else 2)"
    using assms by (simp add: census_ok_def is_main_worker_def)
  moreover have "size ?M = size ?A + size ?B"
    using arg_cong [OF multiset_partition, of size ?M] by (simp only: size_union)
  ultimately show ?thesis by linarith
qed

section \<open>Properties\<close>

text \<open>C5. The io_uring worker implements the abstract relay: from the state its start-up code builds,
  under every order in which the kernel completes operations and the worker handles and submits,
  the datagrams delivered are handled in the order of completion with the contents they arrived
  with, registrations and forwarding are the specified ones, and what is transmitted (or lost to a
  kernel error) is a message that was to be sent, although the sixteen events and their memory are
  recycled all along.\<close>

theorem ring_refines_relay:
  assumes "i < unat threads" and "uring_worker_start z t i (relay_init threads l) os [] = (Inr r, calls)"
    and "ring_run t (ring_start r) ls w"
  shows "abs_run (Map.empty, [], {#}) ls
    (registered (urelay w), inbox (ctx w) (completed w), outgoing (ctx w) (operations w))"
  using ring_reachable [OF assms] by (simp add: abs_ring_def)

text \<open>The witness: worker 0 of one starts, submits its receives, and a client registers.\<close>

definition demo_ring :: "(u64, u64 listen_context) relay" where
  "demo_ring = started ((relay_init 1 (0 :: nat))\<lparr>this_thread_statistics := [0 \<mapsto> 0]\<rparr>)
     (armed_context (initial_context 0 0 0 0))"

lemma demo_ring_start:
  "\<exists>calls. uring_worker_start 0 0 0 (relay_init 1 (0 :: nat)) (\<lambda>_ _. 0) [] = (Inr demo_ring, calls)"
proof -
  have thread: "on_thread_start 0 0 (relay_init 1 (0 :: nat) :: (u64, nat) relay)
      = Inr ((relay_init 1 0)\<lparr>this_thread_statistics := [0 \<mapsto> 0]\<rparr>)"
    by (simp add: on_thread_start_def relay_init_def)
  have "\<exists>calls. listen_context_initialize (0 :: u64) 0 (\<lambda>_ _. 0) [] = (Inr (initial_context 0 0 0 0), calls)"
    by (simp add: listen_context_initialize_def prog_defs initial_context_def num_events_def is_main_worker_def)
  then obtain calls where init: "listen_context_initialize (0 :: u64) 0 (\<lambda>_ _. 0) [] = (Inr (initial_context 0 0 0 0), calls)"
    by blast
  have step: "bindP (listen_context_initialize (0 :: u64) 0) f (\<lambda>_ _. 0) [] = f (initial_context 0 0 0 0) (\<lambda>_ _. 0) calls"
    for f :: "u64 listen_context \<Rightarrow> (u64, u64 listen_context) relay prog"
    by (simp add: bindP_def init)
  show ?thesis
    unfolding uring_worker_start_def step
    by (simp add: arm_worker_eq thread lift_res_def demo_ring_def started_def) (simp add: prog_defs)
qed

lemma demo_ring_receives:
  "\<exists>w. ring_run 0 (ring_start demo_ring) [Internal, Deliver (Client_dgram 11 (store_le 8 1))] w
     \<and> completed w = [\<lparr>cqe_data = 15, cqe_res = 8\<rparr>]
     \<and> event_type (io_events (ctx w) ! 15) = Type_client_rx \<and> rx_address (io_events (ctx w) ! 15) = 11
     \<and> packet_data uring_lib (ctx w) (uring_packet \<lparr>cqe_data = 15, cqe_res = 8\<rparr>) = store_le 8 1
     \<and> registered (urelay w) = Map.empty"
proof -
  let ?io = "armed_context (initial_context 0 0 0 0) :: u64 listen_context" and ?bs = "store_le 8 1"
  let ?s = "recv_sqe 15 1"
  define w0 where "w0 = ring_start demo_ring"
  define w1 where "w1 = set_ctx ((ctx w0)\<lparr>submission := []\<rparr>) (w0\<lparr>pending := pending w0 @ submission (ctx w0)\<rparr>)"
  have io: "ctx w0 = ?io" "pending w0 = []" "completed w0 = []" "sessions (urelay w0) = Map.empty"
    by (simp_all add: w0_def ring_start_def demo_ring_def started_def relay_init_def)
  have step1: "ring_step 0 w0 Internal w1" unfolding w1_def by (rule ring_step.submit)
  have ev: "io_events ?io ! 15 = fresh_event Type_client_rx 15 (io_events (initial_context 0 0 0 0) ! 15)"
    "ring_client_socket ?io = 1" "length (io_events ?io) = 16" "submission ?io = [?s, recv_sqe 14 0, timeout_sqe 13]"
    by (simp_all add: armed_context_def initial_context_def)
  define io2 where "io2 = set_event 15 (\<lambda>e. e\<lparr>rx_address := 11\<rparr>)
     ((ctx w1)\<lparr>messages_buffer := write_mem (15 * 1024) ?bs (messages_buffer (ctx w1))\<rparr>)"
  define w2 where "w2 = set_ctx io2 (complete ?s (int (length ?bs)) w1)"
  have c1: "ctx w1 = ?io\<lparr>submission := []\<rparr>" "pending w1 = [?s, recv_sqe 14 0, timeout_sqe 13]" "completed w1 = []"
    using io ev(4) by (simp_all add: w1_def)
  have "kernel_receive (sqe_event ?s) 11 ?bs (ctx w1) = Inr io2"
    using ev by (simp add: kernel_receive_def message_iov_def event_iov_def c1(1) io2_def)
  then have "ring_step 0 w1 (Deliver (if sqe_fd ?s = ring_client_socket io2 then Client_dgram 11 ?bs else Peer_dgram ?bs)) w2"
    unfolding w2_def by (intro ring_step.receive) (simp_all add: c1(2))
  moreover have "ring_client_socket io2 = 1" using ev by (simp add: io2_def c1(1))
  ultimately have step2: "ring_step 0 w1 (Deliver (Client_dgram 11 ?bs)) w2" by simp
  have "ring_run 0 w0 (([] @ [Internal]) @ [Deliver (Client_dgram 11 ?bs)]) w2"
    using step1 step2 by (blast intro: ring_run.intros)
  moreover have "completed w2 = [\<lparr>cqe_data = 15, cqe_res = 8\<rparr>]" by (simp add: w2_def c1(3))
  moreover have "io_events (ctx w2) ! 15 = (fresh_event Type_client_rx 15 (io_events (initial_context 0 0 0 0) ! 15))\<lparr>rx_address := 11\<rparr>"
    using ev by (simp add: w2_def io2_def c1(1))
  moreover have "packet_data uring_lib (ctx w2) (uring_packet \<lparr>cqe_data = 15, cqe_res = 8\<rparr>) = ?bs"
    by (simp add: uring_packet_def cqe_size_unat w2_def io2_def del: store_le.simps)
  moreover have "registered (urelay w2) = Map.empty"
    using io(4) by (simp add: w2_def w1_def registered_def fun_eq_iff set_ctx_def)
  ultimately show ?thesis unfolding w0_def by auto
qed

lemma demo_ring_run:
  "\<exists>ls w. ring_run 0 (ring_start demo_ring) ls w \<and> registered (urelay w) 1 = Some 11
     \<and> ls = [Internal, Deliver (Client_dgram 11 (store_le 8 1)), Handle (Client_dgram 11 (store_le 8 1))]"
proof -
  let ?bs = "store_le 8 1" and ?c = "\<lparr>cqe_data = 15, cqe_res = 8\<rparr>"
  obtain w where w: "ring_run 0 (ring_start demo_ring) [Internal, Deliver (Client_dgram 11 ?bs)] w" "completed w = [?c]"
    "event_type (io_events (ctx w) ! 15) = Type_client_rx" "rx_address (io_events (ctx w) ! 15) = 11"
    "packet_data uring_lib (ctx w) (uring_packet ?c) = ?bs" "registered (urelay w) = Map.empty"
    using demo_ring_receives by blast
  have "ring_ok 0 (ring_start demo_ring)"
    using demo_ring_start uring_worker_start_result [where z = "0 :: u64" and l = "0 :: nat" and i = 0 and threads = 1 and t = 0 and os = "\<lambda>_ _. 0" and r = demo_ring]
    by auto
  with ring_run_simulates [OF w(1)] have ok: "ring_ok 0 w" by blast
  then have ops: "ops_ok (ctx w) (operations w) [?c]" "thread_ok 0 (urelay w)" using w(2) by (simp_all add: ring_ok_def)
  have "\<exists>r. handle_cqe 0 ?c (urelay w) = Inr r \<and> thread_ok 0 r
    \<and> registered r = spec_client (rx_address (io_events (ctx w) ! cqe_data ?c))
        (packet_data uring_lib (ctx w) (uring_packet ?c)) (registered (urelay w))
    \<and> lib r = rearmed (cqe_data ?c) Type_client_rx (ring_client_socket (ctx w)) (ctx w)"
    by (rule handle_client_rx [OF ops(1) _ ops(2), of "pending w"]) (simp_all add: w(3) operations_def)
  then obtain r where r: "handle_cqe 0 ?c (urelay w) = Inr r" "registered r 1 = Some 11"
    unfolding w(5,6) by (auto simp: w(4) spec_client_def simp del: store_le.simps)
  have "cqe_datagram (ctx w) ?c = Some (Client_dgram 11 ?bs)" using cqe_datagram_rx(1) [OF ops(1)] w(3-5) by simp
  then have "ring_step 0 w (Handle (Client_dgram 11 ?bs)) (w\<lparr>urelay := r, completed := []\<rparr>)"
    using ring_step.handle [OF w(2) r(1)] by simp
  from run_step [OF w(1) this] r(2) show ?thesis by auto
qed

lemma ring_refines_relay_witness:
  "\<exists>ls w. ring_run 0 (ring_start demo_ring) ls w \<and> registered (urelay w) 1 = Some 11
     \<and> abs_run (Map.empty, [], {#}) ls (registered (urelay w), inbox (ctx w) (completed w), outgoing (ctx w) (operations w))"
proof -
  obtain ls w where run: "ring_run 0 (ring_start demo_ring) ls w" "registered (urelay w) 1 = Some 11"
    using demo_ring_run by blast
  obtain calls where "uring_worker_start 0 0 0 (relay_init 1 (0 :: nat)) (\<lambda>_ _. 0) [] = (Inr demo_ring, calls)"
    using demo_ring_start by blast
  from ring_refines_relay [OF _ this run(1)] run show ?thesis by auto
qed

text \<open>C16. End to end, no datagram is duplicated or made up: in any run of a worker, a datagram is
  handled at most as often as the kernel delivered it, every delivered one is handled or still
  waits in order, and a message leaves at most as often as that very content arrived from peers.\<close>

theorem ring_exactly_once:
  assumes "i < unat threads" and "uring_worker_start z t i (relay_init threads l) os [] = (Inr r, calls)"
    and "ring_run t (ring_start r) ls w"
  shows "count (mset ls) (Handle d) + count (mset (inbox (ctx w) (completed w))) d = count (mset ls) (Deliver d)
    \<and> count (mset ls) (Transmit ep bs) + count (mset ls) (Lose ep bs)
        + count (outgoing (ctx w) (operations w)) (ep, bs) \<le> count (mset ls) (Deliver (Peer_dgram bs))"
proof -
  have run: "abs_run (Map.empty, [], {#}) ls
    (registered (urelay w), inbox (ctx w) (completed w), outgoing (ctx w) (operations w))"
    using ring_reachable [OF assms] by (simp add: abs_ring_def)
  show ?thesis
    using abs_run_counts(1) [OF run, of d] abs_run_counts(1) [OF run, of "Peer_dgram bs"]
      abs_run_counts(2) [OF run, of ep bs] by linarith
qed

lemma ring_exactly_once_witness:
  "\<exists>ls w. ring_run 0 (ring_start demo_ring) ls w
     \<and> count (mset ls) (Handle (Client_dgram 11 (store_le 8 1))) = 1
     \<and> count (mset (inbox (ctx w) (completed w))) (Client_dgram 11 (store_le 8 1)) = 0"
proof -
  let ?d = "Client_dgram 11 (store_le 8 1)"
  obtain ls w where run: "ring_run 0 (ring_start demo_ring) ls w"
    and ls: "ls = [Internal, Deliver ?d, Handle ?d]"
    using demo_ring_run by blast
  obtain calls where "uring_worker_start 0 0 0 (relay_init 1 (0 :: nat)) (\<lambda>_ _. 0) [] = (Inr demo_ring, calls)"
    using demo_ring_start by blast
  from ring_exactly_once [OF _ this run, of ?d] have
    "count (mset ls) (Handle ?d) + count (mset (inbox (ctx w) (completed w))) ?d = count (mset ls) (Deliver ?d)"
    by simp
  moreover have "count (mset ls) (Handle ?d) = 1" "count (mset ls) (Deliver ?d) = 1" by (simp_all add: ls)
  ultimately show ?thesis using run by auto
qed

text \<open>C22. The event pool never leaks and is never corrupted: in every reachable state each of the
  sixteen events is exactly one of free, submitted, prepared or completed; one receive is
  outstanding on each socket, so the worker never goes deaf, and the timer is outstanding on the
  main worker; and the submission queue is far from full.\<close>

theorem ring_events_conserved:
  assumes "i < unat threads" and "uring_worker_start z t i (relay_init threads l) os [] = (Inr r, calls)"
    and "ring_run t (ring_start r) ls w"
  shows "mset (free_event_ids (ctx w)) + mset (map sqe_data (pending w)) + mset (map sqe_data (submission (ctx w)))
      + mset (map cqe_data (completed w)) = mset [0..<16]
    \<and> filter_mset (\<lambda>ty. ty \<noteq> Type_peer_tx) (types_of (ctx w) (in_flight (operations w) (completed w)))
        = {#Type_client_rx, Type_peer_rx#} + (if thread_index (ctx w) = 0 then {#Type_timer#} else {#})
    \<and> length (submission (ctx w)) \<le> 16"
proof -
  have ok: "ring_ok t w" using ring_reachable [OF assms] by blast
  then have ops: "ops_ok (ctx w) (operations w) (completed w)"
    and census: "census_ok (ctx w) (in_flight (operations w) (completed w))" by (simp_all add: ring_ok_def)
  have "length (submission (ctx w)) \<le> 16" using ops_okD(4) [OF ops] by (simp add: operations_def)
  with ops census show ?thesis
    by (simp add: ops_ok_def census_ok_def in_flight_def operations_def is_main_worker_def ac_simps)
qed

lemma ring_events_conserved_witness:
  "\<exists>ls w. ring_run 0 (ring_start demo_ring) ls w \<and> length ls = 3 \<and> length (submission (ctx w)) \<le> 16
     \<and> mset (free_event_ids (ctx w)) + mset (map sqe_data (pending w)) + mset (map sqe_data (submission (ctx w)))
        + mset (map cqe_data (completed w)) = mset [0..<16]"
proof -
  obtain ls w where run: "ring_run 0 (ring_start demo_ring) ls w" "length ls = 3"
    using demo_ring_run by fastforce
  obtain calls where "uring_worker_start 0 0 0 (relay_init 1 (0 :: nat)) (\<lambda>_ _. 0) [] = (Inr demo_ring, calls)"
    using demo_ring_start by blast
  from ring_events_conserved [OF _ this run(1)] run show ?thesis by auto
qed

lemma sends_when_full:
  assumes "ring_ok t w" and "free_event_ids (ctx w) = []"
  shows "count (types_of (ctx w) (in_flight (operations w) (completed w))) Type_peer_tx
    = (if thread_index (ctx w) = 0 then 13 else 14)"
proof -
  have ops: "ops_ok (ctx w) (operations w) (completed w)"
    and census: "census_ok (ctx w) (in_flight (operations w) (completed w))" using assms(1) by (simp_all add: ring_ok_def)
  have "size (types_of (ctx w) (in_flight (operations w) (completed w))) = 16"
    using ops_okD(4) [OF ops] assms(2) by (simp add: types_of_def in_flight_def)
  with census_sends [OF census] show ?thesis by (auto split: if_splits)
qed

text \<open>C34. The worker aborts in three ways only, and in these always: the receive of a client's or of a peer's
  datagram that failed, or a peer datagram to forward, one with a registered identifier, while all
  sixteen events are in use, thirteen of them (fourteen on the other workers) being sends that have not
  completed. Nothing else the kernel can do makes a handler fault: no index out of range, no buffer overrun,
  no full submission queue, and no lack of events for a client's datagram or one that is dropped.\<close>

theorem ring_faults:
  assumes "i < unat threads" and "uring_worker_start z t i (relay_init threads l) os [] = (Inr r, calls)"
    and "ring_run t (ring_start r) ls w" and "completed w = c # cs"
  shows "handle_cqe t c (urelay w) = Inl e \<longleftrightarrow>
      e = Abort ''client rx'' \<and> cqe_res c < 0 \<and> event_type (io_events (ctx w) ! cqe_data c) = Type_client_rx
    \<or> e = Abort ''peer rx'' \<and> cqe_res c < 0 \<and> event_type (io_events (ctx w) ! cqe_data c) = Type_peer_rx
    \<or> e = Abort ''out of free events'' \<and> event_type (io_events (ctx w) ! cqe_data c) = Type_peer_rx
       \<and> (\<exists>bs. cqe_datagram (ctx w) c = Some (Peer_dgram bs) \<and> spec_peer (registered (urelay w)) bs \<noteq> None)
       \<and> free_event_ids (ctx w) = []
       \<and> count (types_of (ctx w) (in_flight (operations w) (completed w))) Type_peer_tx
           = (if thread_index (ctx w) = 0 then 13 else 14)"
proof -
  have ok: "ring_ok t w" using ring_reachable [OF assms(1-3)] by blast
  then have ops: "ops_ok (ctx w) (operations w) (c # cs)" and t: "thread_ok t (urelay w)"
    using assms(4) by (simp_all add: ring_ok_def)
  have sub: "operations w = pending w @ submission (ctx w)" by (simp add: operations_def)
  let ?ty = "event_type (io_events (ctx w) ! cqe_data c)"
  from head_cqe(7) [OF ops] have "?ty \<noteq> Type_invalid" by (simp add: cqe_ok_def)
  then consider (client) "?ty = Type_client_rx" | (peer) "?ty = Type_peer_rx" | (tx) "?ty = Type_peer_tx"
    | (timer) "?ty = Type_timer" by (cases ?ty) auto
  then show ?thesis
  proof cases
    case client
    show ?thesis
    proof (cases "cqe_res c < 0")
      case True
      with client show ?thesis by (auto simp: handle_cqe_def)
    next
      case False
      with handle_client_rx [OF ops sub t client] client show ?thesis by auto
    qed
  next
    case peer
    show ?thesis
    proof (cases "cqe_res c < 0")
      case True
      with peer show ?thesis by (auto simp: handle_cqe_def cqe_datagram_def)
    next
      case False
      then have "cqe_datagram (ctx w) c = Some (Peer_dgram (packet_data uring_lib (ctx w) (uring_packet c)))"
        using cqe_datagram_rx(2) [OF ops] peer by simp
      with handle_peer_rx [OF ops sub t peer] False peer sends_when_full [OF ok] show ?thesis by auto
    qed
  next
    case tx
    with handle_peer_tx [OF ops t] show ?thesis by auto
  next
    case timer
    with handle_timer [OF ops sub] show ?thesis by auto
  qed
qed

text \<open>A failed receive, right after the start.\<close>

lemma demo_ring_failure:
  "\<exists>w. ring_run 0 (ring_start demo_ring) [Internal, Internal] w
     \<and> completed w = [\<lparr>cqe_data = 15, cqe_res = -1\<rparr>]
     \<and> handle_cqe 0 \<lparr>cqe_data = 15, cqe_res = -1\<rparr> (urelay w) = Inl (Abort ''client rx'')"
proof -
  let ?io = "armed_context (initial_context 0 0 0 0) :: u64 listen_context" and ?s = "recv_sqe 15 1"
  define w0 where "w0 = ring_start demo_ring"
  define w1 where "w1 = set_ctx ((ctx w0)\<lparr>submission := []\<rparr>) (w0\<lparr>pending := pending w0 @ submission (ctx w0)\<rparr>)"
  have io: "ctx w0 = ?io" "pending w0 = []" "completed w0 = []"
    by (simp_all add: w0_def ring_start_def demo_ring_def started_def)
  have ev: "event_type (io_events ?io ! 15) = Type_client_rx" "submission ?io = [?s, recv_sqe 14 0, timeout_sqe 13]"
    by (simp_all add: armed_context_def initial_context_def)
  have c1: "ctx w1 = ?io\<lparr>submission := []\<rparr>" "pending w1 = [?s, recv_sqe 14 0, timeout_sqe 13]" "completed w1 = []"
    using io ev(2) by (simp_all add: w1_def)
  have "ring_step 0 w0 Internal w1" unfolding w1_def by (rule ring_step.submit)
  moreover have "ring_step 0 w1 Internal (complete ?s (- 1) w1)"
    by (rule ring_step.receive_error) (simp_all add: c1(2))
  ultimately have "ring_run 0 w0 (([] @ [Internal]) @ [Internal]) (complete ?s (- 1) w1)"
    by (blast intro: ring_run.intros)
  moreover have "handle_cqe 0 \<lparr>cqe_data = 15, cqe_res = -1\<rparr> (urelay (complete ?s (- 1) w1)) = Inl (Abort ''client rx'')"
    using ev(1) by (simp add: handle_cqe_def c1(1))
  ultimately show ?thesis unfolding w0_def by (intro exI [of _ "complete ?s (- 1) w1"]) (simp add: c1(3))
qed

lemma ring_faults_witness:
  "\<exists>w c. ring_run 0 (ring_start demo_ring) [Internal, Internal] w \<and> completed w = [c]
     \<and> handle_cqe 0 c (urelay w) = Inl (Abort ''client rx'') \<and> cqe_res c < 0
     \<and> event_type (io_events (ctx w) ! cqe_data c) = Type_client_rx"
proof -
  let ?c = "\<lparr>cqe_data = 15, cqe_res = -1\<rparr> :: cqe"
  obtain w where run: "ring_run 0 (ring_start demo_ring) [Internal, Internal] w" "completed w = ?c # []"
    "handle_cqe 0 ?c (urelay w) = Inl (Abort ''client rx'')"
    using demo_ring_failure by blast
  obtain calls where "uring_worker_start 0 0 0 (relay_init 1 (0 :: nat)) (\<lambda>_ _. 0) [] = (Inr demo_ring, calls)"
    using demo_ring_start by blast
  from ring_faults [OF _ this run(1,2), of "Abort ''client rx''"] run show ?thesis by auto
qed

text \<open>A send that failed is counted as a sent datagram of almost four gigabytes: for the completion of
  a send with the error code \<open>-n\<close>, the handler does not look at the sign; it adds one packet and
  \<open>2^32 - n\<close> bytes to the egress counters of the thread and releases the event.\<close>

theorem failed_send_counted_as_sent:
  assumes "0 < n" and "n < 2 ^ 31" and "cqe_res c = - int n"
    and "event_type (io_events (lib r) ! cqe_data c) = Type_peer_tx"
    and "message_iov (cqe_data c) (lib r) = Inr iov"
    and "this_thread_statistics r t = Some k" and "k < length (per_thread_statistics r)"
  shows "let st = per_thread_statistics r ! k
    in handle_cqe t c r = Inr (r\<lparr>per_thread_statistics := (per_thread_statistics r)[k :=
           st\<lparr>stat_out := update_io_statistics (stat_out st) (of_nat (2 ^ 32 - n))\<rparr>],
         lib := release_event (cqe_data c) (lib r)\<rparr>)"
proof -
  have "cqe_size (- int n) = of_nat (2 ^ 32 - n)"
  proof -
    have "(of_int (- int n) :: u32) = of_nat (2 ^ 32 - n)"
      using assms(2) by (simp add: of_nat_diff)
    moreover have "unat (ucast (of_nat (2 ^ 32 - n) :: u32) :: u64) = 2 ^ 32 - n"
      using assms(1) by (simp add: unat_of_nat)
    moreover have "unat (of_nat (2 ^ 32 - n) :: u64) = 2 ^ 32 - n"
      by (simp add: unat_of_nat)
    ultimately show ?thesis unfolding cqe_size_def by (metis word_unat_eq_iff)
  qed
  then show ?thesis
    using assms(3-7)
    by (simp add: handle_cqe_def Let_def on_session_sent_def count_out_def update_this_thread_def with_lib_def)
qed

lemma failed_send_counted_as_sent_witness:
  "\<exists>r'. handle_cqe 0 \<lparr>cqe_data = 15, cqe_res = -11\<rparr>
      (demo_ring\<lparr>lib := set_event 15 (fresh_event Type_peer_tx 15) (initial_context 0 0 0 0)\<rparr>) = Inr r'
    \<and> bytes (stat_out (per_thread_statistics r' ! 0)) = 4294967285"
proof -
  let ?io = "set_event 15 (fresh_event Type_peer_tx 15) (initial_context 0 0 0 0) :: u64 listen_context"
  let ?r = "demo_ring\<lparr>lib := ?io\<rparr>"
  have ev: "io_events ?io ! 15 = fresh_event Type_peer_tx 15 (io_events (initial_context 0 0 0 0) ! 15)"
    by (simp add: initial_context_def)
  have st: "this_thread_statistics ?r 0 = Some 0" "per_thread_statistics ?r = [statistics_zero]"
    by (simp_all add: demo_ring_def started_def relay_init_def)
  have "message_iov 15 ?io = Inr (15 * 1024, 1024)" using ev by (simp add: message_iov_def event_iov_def)
  then show ?thesis
    using failed_send_counted_as_sent [of 11 "\<lparr>cqe_data = 15, cqe_res = -11\<rparr>" ?r "(15 * 1024, 1024)" 0 0] ev st
    by (auto simp: Let_def statistics_zero_def direction_zero_def update_io_statistics_def)
qed

text \<open>A worker configures its sockets before it waits for the others and binds them only
  afterwards, and it enters its loop with all sixteen events accounted for; when a call fails the process
  ends, without another worker having been started.\<close>

theorem uring_worker_start_order:
  assumes "i < unat threads"
  shows "case uring_worker_start z t i (relay_init threads l) os [] of
      (Inl e, calls) \<Rightarrow> ended_by e calls \<and> quiet calls
    | (Inr r, calls) \<Rightarrow> thread_ok t r
        \<and> (\<exists>c p. calls = uring_start_calls i c p \<and> lib r = armed_context (initial_context z i c p))"
proof -
  have "i < 2 ^ 16" using assms unsigned_less [of threads, where ?'a = nat] by simp
  then have i: "unat (of_nat i :: u16) = i" by (simp add: unat_of_nat)
  let ?r1 = "(relay_init threads l)\<lparr>this_thread_statistics := [t \<mapsto> i]\<rparr>"
  have "on_thread_start t (of_nat i) (relay_init threads l) = Inr ?r1"
    using assms i by (simp add: on_thread_start_def relay_init_def)
  from emits_uring_worker_start [OF this, of z] obtain cs where
    "snd (uring_worker_start z t i (relay_init threads l) os []) = [] @ cs"
    "case fst (uring_worker_start z t i (relay_init threads l) os []) of Inl e \<Rightarrow> quiet cs \<and> ended_by e cs
      | Inr r' \<Rightarrow> (\<exists>c p. cs = uring_start_calls i c p \<and> r' = started ?r1 (armed_context (initial_context z i c p)))"
    unfolding emits_def by blast
  moreover have "thread_ok t (started ?r1 io)" for io :: "'a listen_context"
    using assms by (simp add: started_def thread_ok_def relay_init_def)
  moreover have "lib (started ?r1 io) = io" for io :: "'a listen_context" by (simp add: started_def)
  ultimately show ?thesis
    by (cases "fst (uring_worker_start z t i (relay_init threads l) os [])"; fastforce split: prod.split)
qed

lemma uring_worker_start_order_witness:
  "case uring_worker_start 0 0 0 (relay_init 1 (0 :: nat)) (\<lambda>_ _. 0) [] of
      (Inl e, calls) \<Rightarrow> False
    | (Inr r, calls) \<Rightarrow> (\<exists>c p. calls = uring_start_calls 0 c p \<and> lib r = armed_context (initial_context (0 :: u64) 0 c p))"
proof -
  obtain calls where "uring_worker_start 0 0 0 (relay_init 1 (0 :: nat)) (\<lambda>_ _. 0) [] = (Inr demo_ring, calls)"
    using demo_ring_start by blast
  with uring_worker_start_order [where i = 0 and threads = 1 and z = "0 :: u64" and t = 0 and l = "0 :: nat"
      and os = "\<lambda>_ _. 0"] show ?thesis by simp
qed

end
