(* ===== verification/Libuv.thy ===== *)
theory Libuv
  imports Relay Intrusive_Stack "HOL-Library.Multiset"
begin

text \<open>
  The libuv experiment, \<^verbatim>\<open>libuv/relay.hpp\<close> and \<^verbatim>\<open>libuv/relay.cpp\<close>: one thread with its event loop,
  its pool of receive buffers and the callbacks. Buffers are addresses; the pool links them
  through the intrusive stack. \<open>have_mmsg\<close> is a parameter: with it a buffer holds two datagrams of
  64 KiB and can back 32 sends, without it one and one.

  libuv itself is a parameter. What the code relies on: a receive allocates a buffer, then calls the
  receive callback for each datagram with the flag \<open>UV_UDP_MMSG_CHUNK\<close> and once more, with no
  data, to free the buffer; or, without recvmmsg, calls it once; and \<open>uv_udp_send\<close> copies the
  buffer description and the address, and calls back later, never during a receive.
\<close>

section \<open>Packets and buffers\<close>

record uv_packet =
  packet_buf :: nat
  packet_base :: nat
  packet_len :: u64

text \<open>\<open>uv_buf_init(buf.base, (int)len)\<close>: the length passes through 32 bits.\<close>

definition make_packet :: "nat \<Rightarrow> nat \<Rightarrow> nat \<Rightarrow> uv_packet" where
  "make_packet b base len = \<lparr>packet_buf = b, packet_base = base, packet_len = ucast (of_nat len :: u32)\<rparr>"

record 'ep chunk =
  request_data :: nat
  send_packet :: uv_packet
  send_session :: "'ep session"

text \<open>A chunk that was never used is zero: \<open>None\<close>. The hook of a buffer is in the pool.\<close>

record 'ep io_buf =
  chunks :: "'ep chunk option list"
  ref_count :: u64
  buf_data :: "nat \<Rightarrow> u8"

definition chunks_per_buf :: "bool \<Rightarrow> nat" where
  "chunks_per_buf have_mmsg = (if have_mmsg then 32 else 1)"

definition data_size :: "bool \<Rightarrow> nat" where
  "data_size have_mmsg = (if have_mmsg then 2 * 64 * 1024 else 64 * 1024)"

definition new_io_buf :: "bool \<Rightarrow> 'ep io_buf" where
  "new_io_buf have_mmsg = \<lparr>chunks = replicate (chunks_per_buf have_mmsg) None, ref_count = 0, buf_data = (\<lambda>_. 0)\<rparr>"

text \<open>A send libuv has accepted: the request is a chunk of a buffer; the packet description and
  the address are libuv's copies.\<close>

record 'ep uv_request =
  request_buf :: nat
  request_chunk :: nat
  request_packet :: uv_packet
  request_addr :: 'ep

record 'ep uv_thread =
  pool :: "nat intrusive_stack"
  heap :: "nat \<Rightarrow> 'ep io_buf"
  next_buf :: nat
  last_alloc :: "nat option"
  send_queue :: "'ep uv_request list"

section \<open>The buffer pool\<close>

definition set_buf :: "nat \<Rightarrow> ('ep io_buf \<Rightarrow> 'ep io_buf) \<Rightarrow> 'ep uv_thread \<Rightarrow> 'ep uv_thread" where
  "set_buf b f th = th\<lparr>heap := (heap th)(b := f (heap th b))\<rparr>"

definition io_buf_pool_alloc :: "bool \<Rightarrow> 'ep uv_thread \<Rightarrow> nat \<times> 'ep uv_thread" where
  "io_buf_pool_alloc have_mmsg th =
     (case stack_try_pop (pool th) of (popped, pool') \<Rightarrow>
      case (case popped of
              Some b \<Rightarrow> (b, th\<lparr>pool := pool'\<rparr>)
            | None \<Rightarrow> (next_buf th, th\<lparr>pool := pool', heap := (heap th)(next_buf th := new_io_buf have_mmsg),
                                   next_buf := next_buf th + 1\<rparr>)) of (b, th) \<Rightarrow>
      (b, (set_buf b (\<lambda>buf. buf\<lparr>ref_count := 0\<rparr>) th)\<lparr>last_alloc := Some b\<rparr>))"

definition io_buf_pool_release :: "nat option \<Rightarrow> 'ep uv_thread \<Rightarrow> 'ep uv_thread res" where
  "io_buf_pool_release b th = bindR (stack_push b (pool th)) (\<lambda>p. Inr (th\<lparr>pool := p\<rparr>))"

text \<open>\<open>relay::alloc_buffer\<close>: what libuv receives into.\<close>

definition alloc_buffer :: "bool \<Rightarrow> 'ep uv_thread \<Rightarrow> (nat \<times> nat) \<times> 'ep uv_thread" where
  "alloc_buffer have_mmsg th = (case io_buf_pool_alloc have_mmsg th of (b, th) \<Rightarrow> ((b, data_size have_mmsg), th))"

section \<open>The library operations\<close>

definition die_on_error :: "int \<Rightarrow> string \<Rightarrow> unit res" where
  "die_on_error code fn = (if code < 0 then Inl (Abort fn) else Inr ())"

definition read_buf :: "'ep uv_thread \<Rightarrow> uv_packet \<Rightarrow> u8 list" where
  "read_buf th p = map (\<lambda>k. buf_data (heap th (packet_buf p)) (packet_base p + k)) [0..<unat (packet_len p)]"

text \<open>\<open>uv_udp_send address packet\<close> is the code the call returns.\<close>

definition start_send ::
  "('ep \<Rightarrow> uv_packet \<Rightarrow> int) \<Rightarrow> nat \<Rightarrow> 'ep session \<Rightarrow> uv_packet
     \<Rightarrow> ('ep, 'ep uv_thread) relay \<Rightarrow> ('ep, 'ep uv_thread) relay res"
where
  "start_send uv_udp_send t s p r =
     (case last_alloc (lib r) of
        None \<Rightarrow> Inl Null_deref
      | Some b \<Rightarrow>
         let buf = heap (lib r) b; i = unat (ref_count buf)
         in if i = length (chunks buf) then Inl (Abort ''session: start_send'')
            else if length (chunks buf) < i then Inl Out_of_bounds
            else let th = set_buf b (\<lambda>buf. buf\<lparr>ref_count := ref_count buf + 1,
                       chunks := (chunks buf)[i := Some \<lparr>request_data = b, send_packet = p, send_session = s\<rparr>]\<rparr>) (lib r)
                 in bindR (die_on_error (uv_udp_send (client_endpoint s) p) ''uv_udp_send'') (\<lambda>_.
                    Inr (r\<lparr>lib := th\<lparr>send_queue := send_queue th @
                      [\<lparr>request_buf = b, request_chunk = i, request_packet = p, request_addr = client_endpoint s\<rparr>]\<rparr>\<rparr>)))"

definition libuv_lib :: "('ep \<Rightarrow> uv_packet \<Rightarrow> int) \<Rightarrow> ('ep, uv_packet, 'ep uv_thread) library" where
  "libuv_lib uv_udp_send =
     \<lparr>packet_data = read_buf,
      packet_size = packet_len,
      client_start_receive = (\<lambda>l. l),
      peer_start_receive = (\<lambda>l. l),
      session_start_send = start_send uv_udp_send\<rparr>"

section \<open>Callbacks\<close>

text \<open>The send callback: \<open>status\<close> is libuv's, the request one of the send queue.\<close>

definition send_cb ::
  "nat \<Rightarrow> nat \<times> nat \<Rightarrow> int \<Rightarrow> ('ep, 'ep uv_thread) relay \<Rightarrow> ('ep, 'ep uv_thread) relay res"
where
  "send_cb t request status r =
     bindR (die_on_error status ''session: uv_udp_send'') (\<lambda>_.
     case chunks (heap (lib r) (fst request)) ! snd request of
       None \<Rightarrow> Inl Null_deref
     | Some chunk \<Rightarrow>
         let b = request_data chunk
         in bindR (on_session_sent (\<lambda>l. l) t (packet_len (send_packet chunk)) r) (\<lambda>r.
            let th = set_buf b (\<lambda>buf. buf\<lparr>ref_count := ref_count buf - 1\<rparr>) (lib r)
            in if ref_count (heap th b) = 0
               then bindR (io_buf_pool_release (Some b) th) (\<lambda>th. Inr (r\<lparr>lib := th\<rparr>))
               else Inr (r\<lparr>lib := th\<rparr>)))"

definition UV_UDP_MMSG_CHUNK :: u32 where "UV_UDP_MMSG_CHUNK = 8"

definition UV_UDP_MMSG_FREE :: u32 where "UV_UDP_MMSG_FREE = 16"

definition release_last ::
  "('ep, 'ep uv_thread) relay \<Rightarrow> ('ep, 'ep uv_thread) relay res"
where
  "release_last r = bindR (io_buf_pool_release (last_alloc (lib r)) (lib r)) (\<lambda>th. Inr (r\<lparr>lib := th\<rparr>))"

text \<open>The receive callbacks: \<open>base\<close> is the buffer and the offset in it, \<open>nread\<close> the length.\<close>

definition client_recv_cb ::
  "('ep \<Rightarrow> uv_packet \<Rightarrow> int) \<Rightarrow> nat \<Rightarrow> int \<Rightarrow> nat \<times> nat \<Rightarrow> 'ep \<Rightarrow> u32
     \<Rightarrow> ('ep, 'ep uv_thread) relay \<Rightarrow> ('ep, 'ep uv_thread) relay res"
where
  "client_recv_cb send t nread buf src flags r =
     bindR (die_on_error nread ''client: uv_udp_recv_start'') (\<lambda>_.
     bindR (if nread > 0
            then on_client_received (libuv_lib send) t src (make_packet (fst buf) (snd buf) (nat nread)) r
            else Inr r) (\<lambda>r.
     if and flags UV_UDP_MMSG_CHUNK \<noteq> 0 then Inr r else release_last r))"

definition peer_recv_cb ::
  "('ep \<Rightarrow> uv_packet \<Rightarrow> int) \<Rightarrow> nat \<Rightarrow> int \<Rightarrow> nat \<times> nat \<Rightarrow> 'ep \<Rightarrow> u32
     \<Rightarrow> ('ep, 'ep uv_thread) relay \<Rightarrow> ('ep, 'ep uv_thread) relay res"
where
  "peer_recv_cb send t nread buf src flags r =
     bindR (die_on_error nread ''peer: uv_udp_recv_start'') (\<lambda>_.
     bindR (if nread > 0
            then on_peer_received (libuv_lib send) t (make_packet (fst buf) (snd buf) (nat nread)) r
            else Inr (False, r)) (\<lambda>(packet_reused, r).
     if packet_reused \<or> and flags UV_UDP_MMSG_CHUNK \<noteq> 0 then Inr r
     else case last_alloc (lib r) of
         None \<Rightarrow> Inl Null_deref
       | Some b \<Rightarrow> if ref_count (heap (lib r) b) = 0 then release_last r else Inr r))"

section \<open>One receive of libuv\<close>

text \<open>A batch of datagrams with their sources: libuv allocates a buffer, the kernel fills it, one
  64 KiB slot per datagram, and the callback is called as described above. \<open>zero_ep\<close> stands for
  the null address of the calls that carry no datagram.\<close>

type_synonym 'ep recv_cb = "int \<Rightarrow> nat \<times> nat \<Rightarrow> 'ep \<Rightarrow> u32 \<Rightarrow> ('ep, 'ep uv_thread) relay \<Rightarrow> ('ep, 'ep uv_thread) relay res"

definition slot_bytes :: nat where "slot_bytes = 64 * 1024"

fun fill_slots :: "nat \<Rightarrow> ('ep \<times> u8 list) list \<Rightarrow> (nat \<Rightarrow> u8) \<Rightarrow> nat \<Rightarrow> u8" where
  "fill_slots k [] mem = mem"
| "fill_slots k ((src, bs) # ds) mem =
     fill_slots (k + 1) ds (\<lambda>a. if k * slot_bytes \<le> a \<and> a < k * slot_bytes + length bs then bs ! (a - k * slot_bytes) else mem a)"

fun chunk_callbacks :: "'ep recv_cb \<Rightarrow> nat \<Rightarrow> nat \<Rightarrow> ('ep \<times> u8 list) list
    \<Rightarrow> ('ep, 'ep uv_thread) relay \<Rightarrow> ('ep, 'ep uv_thread) relay res" where
  "chunk_callbacks cb b k [] r = Inr r"
| "chunk_callbacks cb b k ((src, bs) # ds) r =
     bindR (cb (int (length bs)) (b, k * slot_bytes) src UV_UDP_MMSG_CHUNK r) (chunk_callbacks cb b (k + 1) ds)"

definition uv_receive ::
  "bool \<Rightarrow> 'ep \<Rightarrow> 'ep recv_cb \<Rightarrow> ('ep \<times> u8 list) list \<Rightarrow> ('ep, 'ep uv_thread) relay
     \<Rightarrow> ('ep, 'ep uv_thread) relay res"
where
  "uv_receive have_mmsg zero_ep cb ds r =
     (case alloc_buffer have_mmsg (lib r) of ((b, len), th) \<Rightarrow>
      let th = set_buf b (\<lambda>buf. buf\<lparr>buf_data := fill_slots 0 ds (buf_data buf)\<rparr>) th; r = r\<lparr>lib := th\<rparr>
      in if have_mmsg
         then (if ds = [] then cb 0 (b, 0) zero_ep 0 r
               else bindR (chunk_callbacks cb b 0 ds r) (cb 0 (b, 0) zero_ep UV_UDP_MMSG_FREE))
         else (case ds of
                [] \<Rightarrow> cb 0 (b, 0) zero_ep 0 r
              | (src, bs) # _ \<Rightarrow> cb (int (length bs)) (b, 0) src 0 r))"

definition batch_ok :: "bool \<Rightarrow> ('ep \<times> u8 list) list \<Rightarrow> bool" where
  "batch_ok have_mmsg ds \<longleftrightarrow> length ds \<le> (if have_mmsg then 2 else 1) \<and> (\<forall>d \<in> set ds. length (snd d) \<le> slot_bytes)"

section \<open>The event loop of a thread\<close>

datatype 'ep uv_label =
    From_clients "('ep \<times> u8 list) list"
  | From_peers "('ep \<times> u8 list) list"
  | Sent_to 'ep "u8 list"

text \<open>Receives and send completions, in any order. A completed send transmits what its buffer
  holds at that moment.\<close>

inductive uv_step :: "bool \<Rightarrow> ('ep \<Rightarrow> uv_packet \<Rightarrow> int) \<Rightarrow> 'ep \<Rightarrow> nat
    \<Rightarrow> ('ep, 'ep uv_thread) relay \<Rightarrow> 'ep uv_label \<Rightarrow> ('ep, 'ep uv_thread) relay \<Rightarrow> bool"
  for have_mmsg send zero_ep t
where
  clients: "batch_ok have_mmsg ds \<Longrightarrow> uv_receive have_mmsg zero_ep (client_recv_cb send t) ds r = Inr r'
     \<Longrightarrow> uv_step have_mmsg send zero_ep t r (From_clients ds) r'"
| peers: "batch_ok have_mmsg ds \<Longrightarrow> uv_receive have_mmsg zero_ep (peer_recv_cb send t) ds r = Inr r'
     \<Longrightarrow> uv_step have_mmsg send zero_ep t r (From_peers ds) r'"
| sent: "q \<in> set (send_queue (lib r)) \<Longrightarrow>
     send_cb t (request_buf q, request_chunk q) 0 (r\<lparr>lib := (lib r)\<lparr>send_queue := remove1 q (send_queue (lib r))\<rparr>\<rparr>) = Inr r'
     \<Longrightarrow> uv_step have_mmsg send zero_ep t r (Sent_to (request_addr q) (read_buf (lib r) (request_packet q))) r'"

section \<open>The invariant of the buffers\<close>

definition busy :: "'ep uv_thread \<Rightarrow> nat set" where
  "busy th = request_buf ` set (send_queue th)"

definition refs :: "'ep uv_thread \<Rightarrow> nat \<Rightarrow> nat" where
  "refs th b = length (filter (\<lambda>q. request_buf q = b) (send_queue th))"

definition request_ok :: "bool \<Rightarrow> 'ep uv_thread \<Rightarrow> 'ep uv_request \<Rightarrow> bool" where
  "request_ok have_mmsg th q \<longleftrightarrow>
     (let c = chunks (heap th (request_buf q)) ! request_chunk q
      in request_chunk q < chunks_per_buf have_mmsg \<and> c \<noteq> None
       \<and> request_data (the c) = request_buf q \<and> send_packet (the c) = request_packet q
       \<and> packet_buf (request_packet q) = request_buf q)"

text \<open>\<open>held\<close> is the buffer a receive is filling, if any. Every buffer ever allocated is in the pool,
  held, or the target of a send in flight; its count is the number of those sends, which use
  different chunks.\<close>

definition buffers_ok :: "bool \<Rightarrow> nat set \<Rightarrow> 'ep uv_thread \<Rightarrow> bool" where
  "buffers_ok have_mmsg held th \<longleftrightarrow>
     (\<exists>xs. stack_repr (pool th) xs \<and> set xs \<inter> (held \<union> busy th) = {} \<and> set xs \<union> held \<union> busy th = {..<next_buf th})
   \<and> distinct (map (\<lambda>q. (request_buf q, request_chunk q)) (send_queue th))
   \<and> (\<forall>q \<in> set (send_queue th). request_ok have_mmsg th q)
   \<and> (\<forall>b < next_buf th. length (chunks (heap th b)) = chunks_per_buf have_mmsg
        \<and> unat (ref_count (heap th b)) = refs th b)
   \<and> (\<forall>q \<in> set (send_queue th). request_buf q \<in> held \<longrightarrow> request_chunk q < refs th (request_buf q))"

definition uv_outbox :: "'ep uv_thread \<Rightarrow> ('ep \<times> u8 list) list" where
  "uv_outbox th = map (\<lambda>q. (request_addr q, read_buf th (request_packet q))) (send_queue th)"

lemma set_buf_simps [simp]:
  "heap (set_buf b f th) c = (if c = b then f (heap th b) else heap th c)"
  "pool (set_buf b f th) = pool th" "next_buf (set_buf b f th) = next_buf th"
  "last_alloc (set_buf b f th) = last_alloc th" "send_queue (set_buf b f th) = send_queue th"
  by (simp_all add: set_buf_def)

lemma busy_simps [simp]: "busy (set_buf b f th) = busy th" "refs (set_buf b f th) = refs th"
  by (simp_all add: busy_def refs_def fun_eq_iff)

lemma refs_zero: "refs th b = 0 \<longleftrightarrow> b \<notin> busy th"
  by (auto simp: refs_def busy_def filter_empty_conv)

lemma buffers_okD:
  assumes "buffers_ok m held th"
  shows "b \<in> held \<union> busy th \<Longrightarrow> b < next_buf th"
    "b < next_buf th \<Longrightarrow> length (chunks (heap th b)) = chunks_per_buf m"
    "b < next_buf th \<Longrightarrow> unat (ref_count (heap th b)) = refs th b"
    "q \<in> set (send_queue th) \<Longrightarrow> request_ok m th q"
    "distinct (map (\<lambda>q. (request_buf q, request_chunk q)) (send_queue th))"
  using assms unfolding buffers_ok_def by blast+

text \<open>Writing to a buffer that no send uses disturbs nothing.\<close>

lemma outbox_cong:
  assumes "buffers_ok m held th" and "send_queue th' = send_queue th"
    and "\<And>b. b \<in> busy th \<Longrightarrow> buf_data (heap th' b) = buf_data (heap th b)"
  shows "uv_outbox th' = uv_outbox th"
  unfolding uv_outbox_def assms(2)
proof (rule map_cong [OF refl])
  fix q assume q: "q \<in> set (send_queue th)"
  then have "packet_buf (request_packet q) \<in> busy th"
    using buffers_okD(4) [OF assms(1) q] by (auto simp: request_ok_def Let_def busy_def)
  then show "(request_addr q, read_buf th' (request_packet q)) = (request_addr q, read_buf th (request_packet q))"
    using assms(3) by (simp add: read_buf_def)
qed

text \<open>Taking a buffer that no send uses.\<close>

lemma hold_ok:
  assumes ok: "buffers_ok m {} th" and b: "b \<notin> busy th"
    and queue: "send_queue th' = send_queue th" and others: "\<And>c. c \<noteq> b \<Longrightarrow> heap th' c = heap th c"
    and buf: "length (chunks (heap th' b)) = chunks_per_buf m" "ref_count (heap th' b) = 0"
    and ys: "stack_repr (pool th') ys" "set ys \<inter> ({b} \<union> busy th) = {}" "set ys \<union> {b} \<union> busy th = {..<next_buf th'}"
    and fresh: "\<And>c. c < next_buf th' \<Longrightarrow> c \<noteq> b \<Longrightarrow> c < next_buf th"
  shows "buffers_ok m {b} th'"
proof -
  have same: "busy th' = busy th" "refs th' = refs th" by (simp_all add: busy_def refs_def fun_eq_iff queue)
  have "request_ok m th' q" if "q \<in> set (send_queue th')" for q
  proof -
    have "request_buf q \<noteq> b" using that b queue by (auto simp: busy_def)
    then show ?thesis using buffers_okD(4) [OF ok] that others queue by (simp add: request_ok_def)
  qed
  moreover have "length (chunks (heap th' c)) = chunks_per_buf m \<and> unat (ref_count (heap th' c)) = refs th' c"
    if "c < next_buf th'" for c
  proof (cases "c = b")
    case True
    then show ?thesis using b buf by (simp add: same(2) refs_zero [symmetric])
  next
    case False
    then show ?thesis using buffers_okD(2,3) [OF ok fresh [OF that False]] others same(2) by simp
  qed
  moreover have "\<forall>q \<in> set (send_queue th'). request_buf q \<notin> {b}" using b queue by (auto simp: busy_def)
  ultimately show ?thesis
    unfolding buffers_ok_def using buffers_okD(5) [OF ok] ys queue same(1) by auto
qed

text \<open>Allocation takes a buffer no send uses.\<close>

lemma alloc_ok:
  assumes ok: "buffers_ok m {} th" and alloc: "io_buf_pool_alloc m th = (b, th')"
  shows "buffers_ok m {b} th'" "last_alloc th' = Some b" "b \<notin> busy th" "send_queue th' = send_queue th"
    "\<And>c. c \<noteq> b \<Longrightarrow> heap th' c = heap th c"
proof -
  from ok obtain xs where xs: "stack_repr (pool th) xs" "set xs \<inter> busy th = {}" "set xs \<union> busy th = {..<next_buf th}"
    unfolding buffers_ok_def by auto
  note pop = stk.pop_result [OF xs(1)] stk.pop_repr [OF xs(1)]
  have d: "distinct xs" by (rule stk.repr_distinct [OF xs(1)])
  have "buffers_ok m {b} th' \<and> last_alloc th' = Some b \<and> b \<notin> busy th \<and> send_queue th' = send_queue th
      \<and> (\<forall>c. c \<noteq> b \<longrightarrow> heap th' c = heap th c)"
  proof (cases xs)
    case Nil
    define th1 where "th1 = th\<lparr>pool := snd (stack_try_pop (pool th)), heap := (heap th)(next_buf th := new_io_buf m),
      next_buf := next_buf th + 1\<rparr>"
    have b: "b = next_buf th" and th': "th' = (set_buf b (\<lambda>buf. buf\<lparr>ref_count := 0\<rparr>) th1)\<lparr>last_alloc := Some b\<rparr>"
      using alloc pop(1) Nil by (auto simp: io_buf_pool_alloc_def th1_def split: prod.splits)
    have busy: "busy th = {..<b}" using xs(3) Nil b by simp
    have "buffers_ok m {b} th'"
      by (rule hold_ok [OF ok, of b th' "[]"])
        (use pop(2) Nil busy b in \<open>auto simp: th' th1_def new_io_buf_def lessThan_Suc\<close>)
    then show ?thesis using busy by (simp add: th' th1_def b)
  next
    case (Cons x ys)
    define th1 where "th1 = th\<lparr>pool := snd (stack_try_pop (pool th))\<rparr>"
    have b: "b = x" and th': "th' = (set_buf b (\<lambda>buf. buf\<lparr>ref_count := 0\<rparr>) th1)\<lparr>last_alloc := Some b\<rparr>"
      using alloc pop(1) Cons by (auto simp: io_buf_pool_alloc_def th1_def split: prod.splits)
    have nb: "b \<notin> busy th" "b < next_buf th" using xs(2,3) Cons b by auto
    have "buffers_ok m {b} th'"
      by (rule hold_ok [OF ok nb(1), of th' ys])
        (use pop(2) Cons b d xs(2,3) buffers_okD(2) [OF ok nb(2)] in \<open>auto simp: th' th1_def\<close>)
    then show ?thesis using nb by (simp add: th' th1_def)
  qed
  then show "buffers_ok m {b} th'" "last_alloc th' = Some b" "b \<notin> busy th" "send_queue th' = send_queue th"
    "\<And>c. c \<noteq> b \<Longrightarrow> heap th' c = heap th c" by blast+
qed

lemma buffers_ok_data:
  "buffers_ok m held (set_buf b (\<lambda>buf. buf\<lparr>buf_data := d\<rparr>) th) = buffers_ok m held th"
proof -
  have "request_ok m (set_buf b (\<lambda>buf. buf\<lparr>buf_data := d\<rparr>) th) q = request_ok m th q" for q
    by (simp add: request_ok_def)
  moreover have "length (chunks (heap (set_buf b (\<lambda>buf. buf\<lparr>buf_data := d\<rparr>) th) c)) = length (chunks (heap th c))"
    "ref_count (heap (set_buf b (\<lambda>buf. buf\<lparr>buf_data := d\<rparr>) th) c) = ref_count (heap th c)" for c
    by simp_all
  ultimately show ?thesis unfolding buffers_ok_def by simp
qed

text \<open>The held buffer goes back to the pool, or stays with its sends.\<close>

lemma release_held:
  assumes ok: "buffers_ok m {b} th" and unused: "b \<notin> busy th"
  shows "\<exists>p. io_buf_pool_release (Some b) th = Inr (th\<lparr>pool := p\<rparr>) \<and> buffers_ok m {} (th\<lparr>pool := p\<rparr>)"
proof -
  from ok obtain xs where xs: "stack_repr (pool th) xs" "set xs \<inter> ({b} \<union> busy th) = {}"
    "set xs \<union> {b} \<union> busy th = {..<next_buf th}"
    unfolding buffers_ok_def by blast
  then have "b \<notin> set xs" by blast
  from stk.psh_repr [OF xs(1) this] obtain p where p: "stack_push (Some b) (pool th) = Inr p" "stack_repr p (b # xs)" by blast
  let ?th = "th\<lparr>pool := p\<rparr>"
  have same: "busy ?th = busy th" "refs ?th = refs th" "request_ok m ?th = request_ok m th"
    by (simp_all add: busy_def refs_def request_ok_def fun_eq_iff)
  have "stack_repr (pool ?th) (b # xs) \<and> set (b # xs) \<inter> ({} \<union> busy ?th) = {}
      \<and> set (b # xs) \<union> {} \<union> busy ?th = {..<next_buf ?th}"
    using p(2) xs(2,3) unused same(1) by auto
  moreover have "\<forall>c < next_buf ?th. length (chunks (heap ?th c)) = chunks_per_buf m
      \<and> unat (ref_count (heap ?th c)) = refs ?th c"
    using buffers_okD(2,3) [OF ok] same(2) by simp
  moreover have "\<forall>q \<in> set (send_queue ?th). request_ok m ?th q"
    using buffers_okD(4) [OF ok] same(3) by simp
  moreover have "distinct (map (\<lambda>q. (request_buf q, request_chunk q)) (send_queue ?th))"
    using buffers_okD(5) [OF ok] by simp
  ultimately have "buffers_ok m {} ?th" unfolding buffers_ok_def by blast
  with p(1) show ?thesis by (auto simp: io_buf_pool_release_def)
qed

lemma keep_held:
  assumes "buffers_ok m {b} th" and "b \<in> busy th"
  shows "buffers_ok m {} th"
  using assms unfolding buffers_ok_def by (auto simp: insert_absorb)

section \<open>The library satisfies the forwarding contract\<close>

lemma libuv_lib_simps [simp]:
  "packet_data (libuv_lib send) = read_buf" "packet_size (libuv_lib send) = packet_len"
  "client_start_receive (libuv_lib send) l = l" "peer_start_receive (libuv_lib send) l = l"
  "session_start_send (libuv_lib send) = start_send send"
  by (simp_all add: libuv_lib_def)

text \<open>The thread after a send.\<close>

definition sending :: "'ep session \<Rightarrow> uv_packet \<Rightarrow> nat \<Rightarrow> 'ep uv_thread \<Rightarrow> 'ep uv_thread" where
  "sending s p b th =
     (let i = unat (ref_count (heap th b));
          th' = set_buf b (\<lambda>buf. buf\<lparr>ref_count := ref_count buf + 1,
                  chunks := (chunks buf)[i := Some \<lparr>request_data = b, send_packet = p, send_session = s\<rparr>]\<rparr>) th
      in th'\<lparr>send_queue := send_queue th' @
           [\<lparr>request_buf = b, request_chunk = i, request_packet = p, request_addr = client_endpoint s\<rparr>]\<rparr>)"

lemma sending_simps [simp]:
  "last_alloc (sending s p b th) = last_alloc th" "pool (sending s p b th) = pool th"
  "next_buf (sending s p b th) = next_buf th"
  "send_queue (sending s p b th) = send_queue th @ [\<lparr>request_buf = b, request_chunk = unat (ref_count (heap th b)),
     request_packet = p, request_addr = client_endpoint s\<rparr>]"
  "heap (sending s p b th) c = (if c = b then (heap th b)\<lparr>ref_count := ref_count (heap th b) + 1,
     chunks := (chunks (heap th b))[unat (ref_count (heap th b)) := Some \<lparr>request_data = b, send_packet = p, send_session = s\<rparr>]\<rparr>
     else heap th c)"
  by (simp_all add: sending_def Let_def)

lemma read_buf_sending [simp]: "read_buf (sending s p b th) = read_buf th"
  by (simp add: read_buf_def fun_eq_iff)

lemma start_send_Inr:
  assumes "start_send send t s p r = Inr r'"
  shows "\<exists>b. last_alloc (lib r) = Some b \<and> unat (ref_count (heap (lib r) b)) < length (chunks (heap (lib r) b))
    \<and> r' = r\<lparr>lib := sending s p b (lib r)\<rparr>"
  using assms
  by (auto simp: start_send_def sending_def Let_def split: option.splits if_splits)

lemma start_send_returns:
  assumes "last_alloc (lib r) = Some b" and "unat (ref_count (heap (lib r) b)) < length (chunks (heap (lib r) b))"
    and "\<forall>a p. 0 \<le> send a p"
  shows "start_send send t s p r = Inr (r\<lparr>lib := sending s p b (lib r)\<rparr>)"
proof -
  have "\<not> send (client_endpoint s) p < 0" using assms(3) by (simp add: not_less)
  with assms(1,2) show ?thesis by (simp add: start_send_def sending_def Let_def die_on_error_def)
qed

lemma uv_outbox_sending: "uv_outbox (sending s p b th) = uv_outbox th @ [(client_endpoint s, read_buf th p)]"
  by (simp add: uv_outbox_def)

text \<open>How many more sends the buffer being read can back.\<close>

definition uv_room :: "('ep \<Rightarrow> uv_packet \<Rightarrow> int) \<Rightarrow> 'ep uv_thread \<Rightarrow> nat" where
  "uv_room send th =
     (case last_alloc th of
        None \<Rightarrow> 0
      | Some b \<Rightarrow> if \<forall>a p. 0 \<le> send a p
          then min (2 ^ 32) (length (chunks (heap th b))) - unat (ref_count (heap th b)) else 0)"

interpretation uv: zero_copy_library "libuv_lib send" "\<lambda>_ _. True" uv_outbox "uv_room send"
  for send :: "'ep \<Rightarrow> uv_packet \<Rightarrow> int"
proof unfold_locales
  fix r :: "('ep, 'ep uv_thread) relay" and p t and s :: "'ep session"
  assume room: "0 < uv_room send (lib r)" and t: "thread_ok t r"
  then obtain b where b: "last_alloc (lib r) = Some b" "\<forall>a p. 0 \<le> send a p"
    "unat (ref_count (heap (lib r) b)) < length (chunks (heap (lib r) b))" "unat (ref_count (heap (lib r) b)) < 2 ^ 32"
    by (auto simp: uv_room_def split: option.splits if_splits)
  have "unat (ref_count (heap (lib r) b) + 1) = unat (ref_count (heap (lib r) b)) + 1"
    using b(4) by (simp add: unat_word_ariths)
  then have "uv_room send (lib r) \<le> Suc (uv_room send (sending s p b (lib r)))"
    using b by (simp add: uv_room_def)
  with start_send_returns [OF b(1,3,2)] t show "\<exists>r'. session_start_send (libuv_lib send) t s p r = Inr r'
      \<and> uv_outbox (lib r') = uv_outbox (lib r) @ [(client_endpoint s, packet_data (libuv_lib send) (lib r) p)]
      \<and> sessions r' = sessions r \<and> thread_ok t r' \<and> uv_room send (lib r) \<le> Suc (uv_room send (lib r'))"
    by (simp add: uv_outbox_sending)
next
  fix t s p and r r' :: "('ep, 'ep uv_thread) relay"
  assume "session_start_send (libuv_lib send) t s p r = Inr r'"
  then show "packet_data (libuv_lib send) (lib r') = packet_data (libuv_lib send) (lib r) \<and> (\<lambda>_ :: uv_packet. True) = (\<lambda>_. True)"
    using start_send_Inr [of send t s p r r'] by auto
qed (simp_all add: read_buf_def)

section \<open>A receive, from the pool and back\<close>

lemma make_packet_simps [simp]:
  "packet_buf (make_packet b base n) = b" "packet_base (make_packet b base n) = base"
  "n < 2 ^ 32 \<Longrightarrow> unat (packet_len (make_packet b base n)) = n"
  by (simp_all add: make_packet_def unat_of_nat)

lemma fill_slots_below: "a < k * slot_bytes \<Longrightarrow> fill_slots k ds mem a = mem a"
proof (induction ds arbitrary: k mem)
  case (Cons d ds)
  then show ?case by (cases d) (simp add: trans_less_add2)
qed simp

lemma fill_slots_read:
  assumes "\<forall>d \<in> set ds. length (snd d) \<le> slot_bytes" and "j < length ds" and "i < length (snd (ds ! j))"
  shows "fill_slots k ds mem ((k + j) * slot_bytes + i) = snd (ds ! j) ! i"
  using assms
proof (induction ds arbitrary: k j mem)
  case Nil
  then show ?case by simp
next
  case (Cons d ds)
  obtain src bs where d: "d = (src, bs)" by (cases d)
  show ?case
  proof (cases j)
    case 0
    have i: "i < length bs" "length bs \<le> slot_bytes" using Cons.prems d 0 by simp_all
    then have "k * slot_bytes + i < (k + 1) * slot_bytes" by simp
    then have "fill_slots k (d # ds) mem (k * slot_bytes + i) = bs ! i"
      unfolding d fill_slots.simps by (subst fill_slots_below) (use i(1) in simp_all)
    then show ?thesis using d 0 by simp
  next
    case (Suc j')
    then show ?thesis using Cons.IH [of j' "k + 1"] Cons.prems d by simp
  qed
qed

lemma refs_sending: "refs (sending s p b th) c = (if c = b then Suc (refs th b) else refs th c)"
  by (simp add: refs_def)

lemma busy_sending: "busy (sending s p b th) = insert b (busy th)"
  by (simp add: busy_def)

lemma chunks_per_buf_le: "chunks_per_buf m \<le> 32" "0 < chunks_per_buf m"
  by (simp_all add: chunks_per_buf_def)

lemma sending_ok:
  assumes ok: "buffers_ok m {b} th" and room: "refs th b < chunks_per_buf m" and p: "packet_buf p = b"
  shows "buffers_ok m {b} (sending s p b th)"
proof -
  let ?th = "sending s p b th" and ?i = "unat (ref_count (heap th b))"
  have b: "b < next_buf th" using buffers_okD(1) [OF ok] by simp
  have i: "?i = refs th b" "?i < length (chunks (heap th b))" "length (chunks (heap th b)) = chunks_per_buf m"
    using buffers_okD(2,3) [OF ok b] room by simp_all
  have inc: "unat (ref_count (heap th b) + 1) = Suc ?i"
    using i(1) room chunks_per_buf_le(1) [of m] by (simp add: unat_word_ariths)
  have old: "request_chunk q < refs th b" if "q \<in> set (send_queue th)" "request_buf q = b" for q
    using ok that unfolding buffers_ok_def by auto
  have "\<exists>xs. stack_repr (pool ?th) xs \<and> set xs \<inter> ({b} \<union> busy ?th) = {} \<and> set xs \<union> {b} \<union> busy ?th = {..<next_buf ?th}"
    using ok unfolding buffers_ok_def by (auto simp: busy_sending)
  moreover have "(b, ?i) \<notin> (\<lambda>q. (request_buf q, request_chunk q)) ` set (send_queue th)" using old i(1) by force
  then have "distinct (map (\<lambda>q. (request_buf q, request_chunk q)) (send_queue ?th))"
    using buffers_okD(5) [OF ok] by simp
  moreover have "request_ok m ?th q" if "q \<in> set (send_queue ?th)" for q
  proof (cases "q \<in> set (send_queue th)")
    case True
    then show ?thesis
      using buffers_okD(4) [OF ok True] old [OF True] i(1) by (auto simp: request_ok_def Let_def)
  next
    case False
    then show ?thesis using that i p by (simp add: request_ok_def)
  qed
  moreover have "length (chunks (heap ?th c)) = chunks_per_buf m \<and> unat (ref_count (heap ?th c)) = refs ?th c"
    if "c < next_buf ?th" for c
    using that buffers_okD(2,3) [OF ok, of c] inc i(1,3) by (simp add: refs_sending)
  moreover have "request_chunk q < refs ?th b" if "q \<in> set (send_queue ?th)" "request_buf q = b" for q
  proof (cases "q \<in> set (send_queue th)")
    case True
    then show ?thesis using that old [OF True] by (simp add: refs_sending)
  next
    case False
    with that(1) have "request_chunk q = ?i" by simp
    then show ?thesis using i(1) by (simp add: refs_sending)
  qed
  ultimately show ?thesis unfolding buffers_ok_def by auto
qed

text \<open>One datagram of a peer.\<close>

lemma peer_one:
  assumes ok: "buffers_ok m {b} (lib r)" and last: "last_alloc (lib r) = Some b" and t: "thread_ok t r"
    and room: "refs (lib r) b < chunks_per_buf m" and send: "\<forall>a p. 0 \<le> send a p" and p: "packet_buf p = b"
  shows "\<exists>f r'. on_peer_received (libuv_lib send) t p r = Inr (f, r') \<and> registered r' = registered r
    \<and> thread_ok t r' \<and> buffers_ok m {b} (lib r') \<and> last_alloc (lib r') = Some b
    \<and> refs (lib r') b = (if f then Suc (refs (lib r) b) else refs (lib r) b)
    \<and> read_buf (lib r') = read_buf (lib r)
    \<and> uv_outbox (lib r') = uv_outbox (lib r) @ spec_peers (registered r) [read_buf (lib r) p]"
proof -
  let ?bs = "read_buf (lib r) p"
  have b: "b < next_buf (lib r)" using buffers_okD(1) [OF ok] by simp
  have len: "unat (ref_count (heap (lib r) b)) < length (chunks (heap (lib r) b))"
    using buffers_okD(2,3) [OF ok b] room by simp
  from uv.on_peer_received_cases [OF t TrueI, of send p] obtain r1 where
    r1: "sessions r1 = sessions r" "lib r1 = lib r" "thread_ok t r1" and
    run: "on_peer_received (libuv_lib send) t p r =
        (if 8 \<le> length ?bs
         then case sessions r (load_le (take 8 ?bs)) of
                None \<Rightarrow> Inr (False, restart_peer_receive (libuv_lib send) r1)
              | Some s \<Rightarrow> bindR (session_start_send (libuv_lib send) t s p r1) (\<lambda>r'. Inr (True, r'))
         else Inr (False, restart_peer_receive (libuv_lib send) r1))"
    unfolding libuv_lib_simps(1) by blast
  show ?thesis
  proof (cases "spec_peer (registered r) ?bs")
    case None
    then have "on_peer_received (libuv_lib send) t p r = Inr (False, restart_peer_receive (libuv_lib send) r1)"
      unfolding run by (simp add: spec_peer_def registered_def split: if_splits)
    with None r1 ok last show ?thesis
      by (intro exI [of _ False] exI [of _ "restart_peer_receive (libuv_lib send) r1"]) (simp add: registered_def)
  next
    case (Some x)
    then obtain s where s: "8 \<le> length ?bs" "sessions r (load_le (take 8 ?bs)) = Some s"
      "x = (client_endpoint s, ?bs)"
      by (auto simp: spec_peer_def registered_def split: if_splits)
    have "start_send send t s p r1 = Inr (r1\<lparr>lib := sending s p b (lib r)\<rparr>)"
      using start_send_returns [of r1 b send t s p] last len send r1(2) by simp
    then have "on_peer_received (libuv_lib send) t p r = Inr (True, r1\<lparr>lib := sending s p b (lib r)\<rparr>)"
      using run s by simp
    with Some s(3) r1 last sending_ok [OF ok room p, of s] show ?thesis
      by (intro exI [of _ True] exI [of _ "r1\<lparr>lib := sending s p b (lib r)\<rparr>"]) (simp add: registered_def refs_sending uv_outbox_sending)
  qed
qed

text \<open>The callbacks, reduced to the operations of the relay.\<close>

lemma flag_simps [simp]:
  "UV_UDP_MMSG_CHUNK \<noteq> 0" "and UV_UDP_MMSG_FREE UV_UDP_MMSG_CHUNK = 0"
  by (simp_all add: UV_UDP_MMSG_CHUNK_def UV_UDP_MMSG_FREE_def)

lemma peer_cb_chunk:
  "peer_recv_cb send t (int n) (b, base) src UV_UDP_MMSG_CHUNK r =
     (if n = 0 then Inr r
      else bindR (on_peer_received (libuv_lib send) t (make_packet b base n) r) (\<lambda>(_, r). Inr r))"
  by (auto simp: peer_recv_cb_def die_on_error_def bindR_def split: sum.split)

lemma client_cb_chunk:
  "client_recv_cb send t (int n) (b, base) src UV_UDP_MMSG_CHUNK r =
     (if n = 0 then Inr r else on_client_received (libuv_lib send) t src (make_packet b base n) r)"
  by (auto simp: client_recv_cb_def die_on_error_def bindR_def split: sum.split)

text \<open>The contents of the slots that remain to be delivered.\<close>

definition slots_hold :: "'ep uv_thread \<Rightarrow> nat \<Rightarrow> nat \<Rightarrow> ('ep \<times> u8 list) list \<Rightarrow> bool" where
  "slots_hold th b k ds \<longleftrightarrow> (\<forall>j < length ds.
     read_buf th (make_packet b ((k + j) * slot_bytes) (length (snd (ds ! j)))) = snd (ds ! j))"

lemma slots_hold_Cons [simp]:
  "slots_hold th b k (d # ds) \<longleftrightarrow>
     read_buf th (make_packet b (k * slot_bytes) (length (snd d))) = snd d \<and> slots_hold th b (Suc k) ds"
  unfolding slots_hold_def length_Cons All_less_Suc2 by simp

lemma slots_hold_cong: "read_buf th' = read_buf th \<Longrightarrow> slots_hold th' b k ds = slots_hold th b k ds"
  by (simp add: slots_hold_def)

lemma spec_peer_Nil [simp]: "spec_peer m [] = None"
  by (simp add: spec_peer_def)

lemma spec_client_Nil [simp]: "spec_client src [] m = m"
  by (simp add: spec_client_def)

lemma peer_chunks:
  assumes "buffers_ok m {b} (lib r)" and "last_alloc (lib r) = Some b" and "thread_ok t r"
    and "refs (lib r) b + length ds \<le> chunks_per_buf m" and "\<forall>a p. 0 \<le> send a p" and "slots_hold (lib r) b k ds"
  shows "\<exists>r'. chunk_callbacks (peer_recv_cb send t) b k ds r = Inr r' \<and> registered r' = registered r
    \<and> thread_ok t r' \<and> buffers_ok m {b} (lib r') \<and> last_alloc (lib r') = Some b
    \<and> uv_outbox (lib r') = uv_outbox (lib r) @ spec_peers (registered r) (map snd ds)"
  using assms
proof (induction ds arbitrary: k r)
  case Nil
  then show ?case by simp
next
  case (Cons d ds)
  obtain src bs where d: "d = (src, bs)" by (cases d)
  show ?case
  proof (cases "bs = []")
    case True
    with Cons.IH [of r "Suc k"] Cons.prems d show ?thesis by (simp add: peer_cb_chunk [where n = 0, simplified])
  next
    case False
    have room: "refs (lib r) b < chunks_per_buf m" using Cons.prems(4) by simp
    let ?p = "make_packet b (k * slot_bytes) (length bs)"
    from peer_one [OF Cons.prems(1,2,3) room Cons.prems(5), of ?p] obtain f r1 where
      r1: "on_peer_received (libuv_lib send) t ?p r = Inr (f, r1)" "registered r1 = registered r"
        "thread_ok t r1" "buffers_ok m {b} (lib r1)" "last_alloc (lib r1) = Some b"
        "refs (lib r1) b \<le> Suc (refs (lib r) b)" "read_buf (lib r1) = read_buf (lib r)"
        "uv_outbox (lib r1) = uv_outbox (lib r) @ spec_peers (registered r) [read_buf (lib r) ?p]"
      by (auto split: if_splits)
    have "refs (lib r1) b + length ds \<le> chunks_per_buf m" "slots_hold (lib r1) b (Suc k) ds"
      using r1(6) Cons.prems(4,6) slots_hold_cong [OF r1(7)] by auto
    from Cons.IH [OF r1(4,5,3) this(1) Cons.prems(5) this(2)] obtain r' where
      "chunk_callbacks (peer_recv_cb send t) b (Suc k) ds r1 = Inr r'" "registered r' = registered r1"
      "thread_ok t r'" "buffers_ok m {b} (lib r')" "last_alloc (lib r') = Some b"
      "uv_outbox (lib r') = uv_outbox (lib r1) @ spec_peers (registered r1) (map snd ds)" by blast
    moreover have "read_buf (lib r) ?p = bs" using Cons.prems(6) d by simp
    ultimately show ?thesis using r1 d False by (simp add: peer_cb_chunk)
  qed
qed

lemma client_chunks:
  assumes "thread_ok t r" and "slots_hold (lib r) b k ds"
  shows "\<exists>r'. chunk_callbacks (client_recv_cb send t) b k ds r = Inr r'
    \<and> registered r' = spec_clients ds (registered r) \<and> thread_ok t r' \<and> lib r' = lib r"
  using assms
proof (induction ds arbitrary: k r)
  case Nil
  then show ?case by (simp add: spec_clients_def)
next
  case (Cons d ds)
  obtain src bs where d: "d = (src, bs)" by (cases d)
  show ?case
  proof (cases "bs = []")
    case True
    with Cons.IH [of r "Suc k"] Cons.prems d show ?thesis by (simp add: client_cb_chunk [where n = 0, simplified] spec_clients_def)
  next
    case False
    let ?p = "make_packet b (k * slot_bytes) (length bs)"
    from uv.on_client_received_refines [OF Cons.prems(1) TrueI, of send src ?p] obtain r1 where
      r1: "on_client_received (libuv_lib send) t src ?p r = Inr r1"
        "registered r1 = spec_client src (read_buf (lib r) ?p) (registered r)" "thread_ok t r1" "lib r1 = lib r"
      by auto
    have "slots_hold (lib r1) b (Suc k) ds" using Cons.prems(2) r1(4) by simp
    from Cons.IH [OF r1(3) this] obtain r' where
      "chunk_callbacks (client_recv_cb send t) b (Suc k) ds r1 = Inr r'"
      "registered r' = spec_clients ds (registered r1)" "thread_ok t r'" "lib r' = lib r1" by blast
    moreover have "read_buf (lib r) ?p = bs" using Cons.prems(2) d by simp
    ultimately show ?thesis using r1 d False by (simp add: client_cb_chunk spec_clients_def)
  qed
qed

text \<open>The start of a receive: a held buffer that contains the batch.\<close>

lemma receive_start:
  assumes ok: "buffers_ok m {} th" and batch: "batch_ok m ds"
    and alloc: "alloc_buffer m th = ((b, len), th1)"
  defines "th2 \<equiv> set_buf b (\<lambda>buf. buf\<lparr>buf_data := fill_slots 0 ds (buf_data buf)\<rparr>) th1"
  shows "buffers_ok m {b} th2" "last_alloc th2 = Some b" "refs th2 b = 0"
    "uv_outbox th2 = uv_outbox th" "slots_hold th2 b 0 ds" "b < next_buf th2"
proof -
  have a: "io_buf_pool_alloc m th = (b, th1)"
    using alloc by (auto simp: alloc_buffer_def split: prod.splits)
  note al = alloc_ok [OF ok a]
  show ok2: "buffers_ok m {b} th2"
    using al(1) buffers_ok_data [of m "{b}" b "fill_slots 0 ds (buf_data (heap th1 b))" th1]
    by (simp add: th2_def set_buf_def)
  show "last_alloc th2 = Some b" by (simp add: th2_def al(2))
  have "busy th2 = busy th" using al(4) by (simp add: th2_def busy_def)
  then show "refs th2 b = 0" using al(3) refs_zero by metis
  show "uv_outbox th2 = uv_outbox th"
    by (rule outbox_cong [OF ok]) (use al(3-5) in \<open>auto simp: th2_def\<close>)
  show "b < next_buf th2" using buffers_okD(1) [OF ok2] by simp
  have len: "\<forall>d \<in> set ds. length (snd d) \<le> slot_bytes" using batch by (simp add: batch_ok_def)
  show "slots_hold th2 b 0 ds"
    unfolding slots_hold_def
  proof (intro allI impI)
    fix j assume j: "j < length ds"
    then have "length (snd (ds ! j)) \<le> slot_bytes" using len nth_mem by blast
    then have "length (snd (ds ! j)) < 2 ^ 32" by (simp add: slot_bytes_def)
    then show "read_buf th2 (make_packet b ((0 + j) * slot_bytes) (length (snd (ds ! j)))) = snd (ds ! j)"
      using fill_slots_read [OF len j, of _ 0] by (intro nth_equalityI) (simp_all add: read_buf_def th2_def)
  qed
qed

text \<open>The callback that carries no data and is not a chunk.\<close>

lemma peer_cb_free:
  assumes ok: "buffers_ok m {b} (lib r)" and last: "last_alloc (lib r) = Some b"
    and flags: "and flags UV_UDP_MMSG_CHUNK = 0"
  shows "\<exists>p. peer_recv_cb send t 0 buf src flags r = Inr (r\<lparr>lib := (lib r)\<lparr>pool := p\<rparr>\<rparr>)
    \<and> buffers_ok m {} ((lib r)\<lparr>pool := p\<rparr>)"
proof -
  have run: "peer_recv_cb send t 0 buf src flags r
      = (if ref_count (heap (lib r) b) = 0 then release_last r else Inr r)"
    using last flags by (simp add: peer_recv_cb_def die_on_error_def)
  have "unat (ref_count (heap (lib r) b)) = refs (lib r) b"
    using buffers_okD(1,3) [OF ok] by simp
  then have zero: "ref_count (heap (lib r) b) = 0 \<longleftrightarrow> b \<notin> busy (lib r)"
    using refs_zero [of "lib r" b] by (metis unsigned_0 unsigned_eq_0_iff)
  show ?thesis
  proof (cases "b \<in> busy (lib r)")
    case True
    then have "peer_recv_cb send t 0 buf src flags r = Inr (r\<lparr>lib := (lib r)\<lparr>pool := pool (lib r)\<rparr>\<rparr>)"
      using run zero by simp
    with keep_held [OF ok True] show ?thesis by (intro exI [of _ "pool (lib r)"]) simp
  next
    case False
    from release_held [OF ok this] obtain p where
      "io_buf_pool_release (Some b) (lib r) = Inr ((lib r)\<lparr>pool := p\<rparr>)" "buffers_ok m {} ((lib r)\<lparr>pool := p\<rparr>)" by blast
    with run zero False last show ?thesis by (auto simp: release_last_def)
  qed
qed

lemma outbox_pool [simp]: "uv_outbox (th\<lparr>pool := p\<rparr>) = uv_outbox th"
  by (simp add: uv_outbox_def read_buf_def)

text \<open>What a receive runs: the state \<open>r2\<close> with the batch in the buffer \<open>b\<close>, and the callbacks on it.\<close>

lemma receive_begin:
  assumes "buffers_ok m {} (lib r)" and "thread_ok t r" and "batch_ok m ds"
  obtains b r2 where "buffers_ok m {b} (lib r2)" "last_alloc (lib r2) = Some b" "refs (lib r2) b = 0"
    "uv_outbox (lib r2) = uv_outbox (lib r)" "slots_hold (lib r2) b 0 ds" "thread_ok t r2"
    "registered r2 = registered r"
    "\<And>z cb. uv_receive m z cb ds r = (if m
       then (if ds = [] then cb 0 (b, 0) z 0 r2
             else bindR (chunk_callbacks cb b 0 ds r2) (cb 0 (b, 0) z UV_UDP_MMSG_FREE))
       else (case ds of
              [] \<Rightarrow> cb 0 (b, 0) z 0 r2
            | (src, bs) # _ \<Rightarrow> cb (int (length bs)) (b, 0) src 0 r2))"
proof -
  obtain b len th1 where alloc: "alloc_buffer m (lib r) = ((b, len), th1)" by (metis prod.collapse)
  define r2 where "r2 = r\<lparr>lib := set_buf b (\<lambda>buf. buf\<lparr>buf_data := fill_slots 0 ds (buf_data buf)\<rparr>) th1\<rparr>"
  show ?thesis
  proof (rule that [of b r2])
    show "uv_receive m z cb ds r = (if m
        then (if ds = [] then cb 0 (b, 0) z 0 r2
              else bindR (chunk_callbacks cb b 0 ds r2) (cb 0 (b, 0) z UV_UDP_MMSG_FREE))
        else (case ds of
               [] \<Rightarrow> cb 0 (b, 0) z 0 r2
             | (src, bs) # _ \<Rightarrow> cb (int (length bs)) (b, 0) src 0 r2))" for z cb
      unfolding uv_receive_def alloc prod.case Let_def r2_def ..
  qed (use receive_start [OF assms(1,3) alloc] assms(2) in \<open>simp_all add: r2_def registered_def\<close>)
qed

text \<open>A receive without \<open>recvmmsg\<close> that found a datagram: its callback keeps the buffer when the
  datagram is on its way, and releases it otherwise.\<close>

lemma peer_cb_single:
  assumes ok: "buffers_ok m {b} (lib r)" and last: "last_alloc (lib r) = Some b" and t: "thread_ok t r"
    and unused: "refs (lib r) b = 0" and send: "\<forall>a p. 0 \<le> send a p"
    and data: "read_buf (lib r) (make_packet b 0 (length bs)) = bs" and bs: "bs \<noteq> []"
  shows "\<exists>r'. peer_recv_cb send t (int (length bs)) (b, 0) src 0 r = Inr r' \<and> registered r' = registered r
    \<and> thread_ok t r' \<and> buffers_ok m {} (lib r')
    \<and> uv_outbox (lib r') = uv_outbox (lib r) @ spec_peers (registered r) [bs]"
proof -
  let ?p = "make_packet b 0 (length bs)"
  have "refs (lib r) b < chunks_per_buf m" using unused chunks_per_buf_le(2) [of m] by simp
  from peer_one [OF ok last t this send, of ?p] obtain f r3 where
    r3: "on_peer_received (libuv_lib send) t ?p r = Inr (f, r3)" "registered r3 = registered r" "thread_ok t r3"
      "buffers_ok m {b} (lib r3)" "last_alloc (lib r3) = Some b" "f \<Longrightarrow> refs (lib r3) b = 1"
      "uv_outbox (lib r3) = uv_outbox (lib r) @ spec_peers (registered r) [bs]"
    using unused data by auto
  have run: "peer_recv_cb send t (int (length bs)) (b, 0) src 0 r
      = (if f then Inr r3 else peer_recv_cb send t 0 (b, 0) src 0 r3)"
    using r3(1) bs by (simp add: peer_recv_cb_def die_on_error_def)
  show ?thesis
  proof (cases f)
    case True
    then have "b \<in> busy (lib r3)" using r3(6) refs_zero [of "lib r3" b] by simp
    from keep_held [OF r3(4) this] run True r3 show ?thesis by simp
  next
    case False
    from peer_cb_free [OF r3(4,5), of 0 send t "(b, 0)" src] obtain p where
      "peer_recv_cb send t 0 (b, 0) src 0 r3 = Inr (r3\<lparr>lib := (lib r3)\<lparr>pool := p\<rparr>\<rparr>)"
      "buffers_ok m {} ((lib r3)\<lparr>pool := p\<rparr>)" by auto
    with run False r3 show ?thesis by (auto simp: registered_def)
  qed
qed

text \<open>The callbacks of a receive on the peer socket, up to a last one without data.\<close>

lemma receive_from_peers:
  assumes ok: "buffers_ok m {} (lib r)" and t: "thread_ok t r" and batch: "batch_ok m ds"
    and send: "\<forall>a p. 0 \<le> send a p"
  shows "\<exists>r'. uv_receive m z (peer_recv_cb send t) ds r = Inr r' \<and> registered r' = registered r
    \<and> thread_ok t r' \<and> buffers_ok m {} (lib r')
    \<and> uv_outbox (lib r') = uv_outbox (lib r) @ spec_peers (registered r) (map snd ds)"
proof -
  obtain b r2 where r2: "buffers_ok m {b} (lib r2)" "last_alloc (lib r2) = Some b" "refs (lib r2) b = 0"
    "uv_outbox (lib r2) = uv_outbox (lib r)" "slots_hold (lib r2) b 0 ds" "thread_ok t r2" "registered r2 = registered r"
    and recv: "\<And>z cb. uv_receive m z cb ds r = (if m
       then (if ds = [] then cb 0 (b, 0) z 0 r2
             else bindR (chunk_callbacks cb b 0 ds r2) (cb 0 (b, 0) z UV_UDP_MMSG_FREE))
       else (case ds of [] \<Rightarrow> cb 0 (b, 0) z 0 r2 | (src, bs) # _ \<Rightarrow> cb (int (length bs)) (b, 0) src 0 r2))"
    by (rule receive_begin [OF ok t batch]) blast
  have idle: ?thesis if "uv_receive m z (peer_recv_cb send t) ds r = peer_recv_cb send t 0 buf src flags r3"
    and "and flags UV_UDP_MMSG_CHUNK = 0" "buffers_ok m {b} (lib r3)" "last_alloc (lib r3) = Some b"
    "registered r3 = registered r" "thread_ok t r3"
    "uv_outbox (lib r3) = uv_outbox (lib r) @ spec_peers (registered r) (map snd ds)" for buf src flags r3
    using peer_cb_free [OF that(3,4,2), of send t buf src] that(1,5-7) by (auto simp: registered_def)
  consider (none) "ds = []" | (chunks) m "ds \<noteq> []" | (single) src bs where "\<not> m" "ds = [(src, bs)]"
    using batch by (cases ds; cases m) (auto simp: batch_ok_def)
  then show ?thesis
  proof cases
    case none
    with recv r2 show ?thesis by (intro idle [of "(b, 0)" z 0 r2]) simp_all
  next
    case chunks
    have "length ds \<le> chunks_per_buf m" using batch \<open>m\<close> by (simp add: batch_ok_def chunks_per_buf_def)
    with peer_chunks [OF r2(1,2,6) _ send r2(5)] r2(3,4,7) obtain r3 where
      "chunk_callbacks (peer_recv_cb send t) b 0 ds r2 = Inr r3" "registered r3 = registered r" "thread_ok t r3"
      "buffers_ok m {b} (lib r3)" "last_alloc (lib r3) = Some b"
      "uv_outbox (lib r3) = uv_outbox (lib r) @ spec_peers (registered r) (map snd ds)" by auto
    with recv chunks show ?thesis by (intro idle [of "(b, 0)" z UV_UDP_MMSG_FREE r3]) simp_all
  next
    case single
    show ?thesis
    proof (cases "bs = []")
      case True
      with recv r2 single show ?thesis by (intro idle [of "(b, 0)" src 0 r2]) simp_all
    next
      case False
      have "read_buf (lib r2) (make_packet b 0 (length bs)) = bs" using r2(5) single by simp
      from peer_cb_single [OF r2(1,2,6,3) send this False, of src] recv [of z] single r2(4,7)
      show ?thesis by simp
    qed
  qed
qed

text \<open>The client callback that is not a chunk releases the buffer, which no send can use.\<close>

lemma client_cb_free:
  assumes ok: "buffers_ok m {b} (lib r)" and last: "last_alloc (lib r) = Some b"
    and unused: "refs (lib r) b = 0" and flags: "and flags UV_UDP_MMSG_CHUNK = 0"
  shows "\<exists>p. client_recv_cb send t 0 buf src flags r = Inr (r\<lparr>lib := (lib r)\<lparr>pool := p\<rparr>\<rparr>)
    \<and> buffers_ok m {} ((lib r)\<lparr>pool := p\<rparr>)"
proof -
  from release_held [OF ok] unused obtain p where
    "io_buf_pool_release (Some b) (lib r) = Inr ((lib r)\<lparr>pool := p\<rparr>)" "buffers_ok m {} ((lib r)\<lparr>pool := p\<rparr>)"
    using refs_zero [of "lib r" b] by auto
  then show ?thesis using last flags by (auto simp: client_recv_cb_def die_on_error_def release_last_def)
qed

lemma receive_from_clients:
  assumes ok: "buffers_ok m {} (lib r)" and t: "thread_ok t r" and batch: "batch_ok m ds"
  shows "\<exists>r'. uv_receive m z (client_recv_cb send t) ds r = Inr r'
    \<and> registered r' = spec_clients ds (registered r)
    \<and> thread_ok t r' \<and> buffers_ok m {} (lib r') \<and> uv_outbox (lib r') = uv_outbox (lib r)"
proof -
  obtain b r2 where r2: "buffers_ok m {b} (lib r2)" "last_alloc (lib r2) = Some b" "refs (lib r2) b = 0"
    "uv_outbox (lib r2) = uv_outbox (lib r)" "slots_hold (lib r2) b 0 ds" "thread_ok t r2" "registered r2 = registered r"
    and recv: "\<And>z cb. uv_receive m z cb ds r = (if m
       then (if ds = [] then cb 0 (b, 0) z 0 r2
             else bindR (chunk_callbacks cb b 0 ds r2) (cb 0 (b, 0) z UV_UDP_MMSG_FREE))
       else (case ds of [] \<Rightarrow> cb 0 (b, 0) z 0 r2 | (src, bs) # _ \<Rightarrow> cb (int (length bs)) (b, 0) src 0 r2))"
    by (rule receive_begin [OF ok t batch]) blast
  from client_chunks [OF r2(6,5), of send] obtain r3 where
    r3: "chunk_callbacks (client_recv_cb send t) b 0 ds r2 = Inr r3"
      "registered r3 = spec_clients ds (registered r)" "thread_ok t r3" "lib r3 = lib r2"
    using r2(7) by auto
  have idle: ?thesis if "and flags UV_UDP_MMSG_CHUNK = 0"
    "uv_receive m z (client_recv_cb send t) ds r = client_recv_cb send t 0 buf src flags r3" for buf src flags
    using client_cb_free [of m b r3 flags send t buf src] that r2 r3(2-4) by (auto simp: registered_def)
  consider (none) "ds = []" | (chunks) m "ds \<noteq> []" | (single) src bs where "\<not> m" "ds = [(src, bs)]"
    using batch by (cases ds; cases m) (auto simp: batch_ok_def)
  then show ?thesis
  proof cases
    case none
    with recv r3(1) show ?thesis by (intro idle [of 0 "(b, 0)" z]) simp_all
  next
    case chunks
    with recv r3(1) show ?thesis by (intro idle [of UV_UDP_MMSG_FREE "(b, 0)" z]) simp_all
  next
    case single
    have "client_recv_cb send t (int (length bs)) (b, 0) src 0 r2 = client_recv_cb send t 0 (b, 0) src 0 r3"
      using r3(1) unfolding single(2)
      by (cases "bs = []") (auto simp: client_cb_chunk client_recv_cb_def die_on_error_def bindR_def split: sum.splits)
    with recv single show ?thesis by (intro idle [of 0 "(b, 0)" src]) simp_all
  qed
qed

section \<open>A send completes\<close>

text \<open>What the completion of \<open>q\<close> does to the requests of each buffer.\<close>

lemma completed_refs:
  assumes q: "q \<in> set (send_queue th)"
  defines "th2 \<equiv> set_buf (request_buf q) (\<lambda>buf. buf\<lparr>ref_count := ref_count buf - 1\<rparr>)
        (th\<lparr>send_queue := remove1 q (send_queue th)\<rparr>)"
  shows "refs th2 c = refs th c - (if c = request_buf q then 1 else 0)"
    "mset (send_queue th) = add_mset q (mset (send_queue th2))"
    "busy th = insert (request_buf q) (busy th2)"
proof -
  show "refs th2 c = refs th c - (if c = request_buf q then 1 else 0)"
    using q by (simp add: refs_def th2_def filter_remove1 [symmetric] length_remove1 del: filter_remove1)
      (auto simp: filter_remove1 length_remove1)
  show queue: "mset (send_queue th) = add_mset q (mset (send_queue th2))" using q by (simp add: th2_def)
  then have "set (send_queue th) = insert q (set (send_queue th2))"
    by (metis set_mset_add_mset_insert set_mset_mset)
  then show "busy th = insert (request_buf q) (busy th2)" by (simp add: busy_def)
qed

lemma send_completes:
  assumes ok: "buffers_ok m {} th" and q: "q \<in> set (send_queue th)"
  defines "b \<equiv> request_buf q"
    and "th2 \<equiv> set_buf (request_buf q) (\<lambda>buf. buf\<lparr>ref_count := ref_count buf - 1\<rparr>)
        (th\<lparr>send_queue := remove1 q (send_queue th)\<rparr>)"
  shows "buffers_ok m (if ref_count (heap th2 b) = 0 then {b} else {}) th2"
    "ref_count (heap th2 b) = 0 \<longleftrightarrow> b \<notin> busy th2"
    "mset (uv_outbox th) = add_mset (request_addr q, read_buf th (request_packet q)) (mset (uv_outbox th2))"
proof -
  have busy_b: "b \<in> busy th" using q by (simp add: b_def busy_def)
  then have b: "b < next_buf th" using buffers_okD(1) [OF ok] by simp
  note refs = completed_refs(1) [OF q, folded th2_def b_def] and queue_mset = completed_refs(2) [OF q, folded th2_def]
    and busy = completed_refs(3) [OF q, folded th2_def b_def]
  have pos: "0 < refs th b" using busy_b refs_zero [of th b] by simp
  have ref: "unat (ref_count (heap th b)) = refs th b" using buffers_okD(3) [OF ok b] .
  then have dec: "unat (ref_count (heap th b) - 1) = refs th b - 1"
    using pos by (metis One_nat_def unat_gt_0 unat_minus_one unsigned_0 zero_less_iff_neq_zero)
  have zero: "ref_count (heap th2 b) = 0 \<longleftrightarrow> refs th2 b = 0"
    using dec refs [of b] by (simp add: th2_def b_def unat_eq_0 [symmetric])
  show iff: "ref_count (heap th2 b) = 0 \<longleftrightarrow> b \<notin> busy th2" using zero refs_zero by metis
  have queue: "set (send_queue th2) \<subseteq> set (send_queue th)" by (simp add: th2_def set_remove1_subset)
  have req: "request_ok m th2 q'" if "q' \<in> set (send_queue th2)" for q'
  proof -
    have "request_ok m th q'" using that queue buffers_okD(4) [OF ok] by blast
    then show ?thesis
      by (cases "request_buf q' = request_buf q") (auto simp: request_ok_def th2_def Let_def)
  qed
  have dist: "distinct (map (\<lambda>q. (request_buf q, request_chunk q)) (send_queue th2))"
    using buffers_okD(5) [OF ok] queue by (auto simp: th2_def distinct_map intro: inj_on_subset)
  have counts: "length (chunks (heap th2 c)) = chunks_per_buf m \<and> unat (ref_count (heap th2 c)) = refs th2 c"
    if "c < next_buf th2" for c
    using that buffers_okD(2,3) [OF ok, of c] dec ref refs [of c] by (auto simp: th2_def b_def)
  let ?held = "if ref_count (heap th2 b) = 0 then {b} else {}"
  from ok obtain xs where xs: "stack_repr (pool th) xs" "set xs \<inter> busy th = {}" "set xs \<union> busy th = {..<next_buf th}"
    unfolding buffers_ok_def by auto
  have "?held \<union> busy th2 = busy th" using busy iff by auto
  then have "stack_repr (pool th2) xs \<and> set xs \<inter> (?held \<union> busy th2) = {} \<and> set xs \<union> ?held \<union> busy th2 = {..<next_buf th2}"
    using xs by (simp add: th2_def Un_assoc)
  moreover have "\<forall>q \<in> set (send_queue th2). request_buf q \<in> ?held \<longrightarrow> request_chunk q < refs th2 (request_buf q)"
    using iff by (auto simp: busy_def)
  ultimately show "buffers_ok m ?held th2" unfolding buffers_ok_def using dist req counts by blast
  note queue_mset
  moreover have "read_buf th2 = read_buf th" by (simp add: read_buf_def th2_def fun_eq_iff)
  ultimately show "mset (uv_outbox th) = add_mset (request_addr q, read_buf th (request_packet q)) (mset (uv_outbox th2))"
    by (simp add: uv_outbox_def)
qed

lemma send_cb_ok:
  assumes ok: "buffers_ok m {} (lib r)" and q: "q \<in> set (send_queue (lib r))" and t: "thread_ok t r"
  shows "\<exists>r'. send_cb t (request_buf q, request_chunk q) 0
        (r\<lparr>lib := (lib r)\<lparr>send_queue := remove1 q (send_queue (lib r))\<rparr>\<rparr>) = Inr r'
    \<and> registered r' = registered r \<and> thread_ok t r' \<and> buffers_ok m {} (lib r')
    \<and> mset (uv_outbox (lib r)) = add_mset (request_addr q, read_buf (lib r) (request_packet q)) (mset (uv_outbox (lib r')))"
proof -
  let ?b = "request_buf q" and ?th1 = "(lib r)\<lparr>send_queue := remove1 q (send_queue (lib r))\<rparr>"
  define th2 where "th2 = set_buf ?b (\<lambda>buf. buf\<lparr>ref_count := ref_count buf - 1\<rparr>) ?th1"
  note fin = send_completes [OF ok q, folded th2_def]
  from buffers_okD(4) [OF ok q] obtain c where
    c: "chunks (heap (lib r) ?b) ! request_chunk q = Some c" "request_data c = ?b"
    by (auto simp: request_ok_def Let_def)
  have "thread_ok t (r\<lparr>lib := ?th1\<rparr>)" using t by simp
  from on_session_sent_returns [OF this, of "\<lambda>l. l" "packet_len (send_packet c)"] obtain sts where
    sts: "on_session_sent (\<lambda>l. l) t (packet_len (send_packet c)) (r\<lparr>lib := ?th1\<rparr>)
       = Inr (r\<lparr>per_thread_statistics := sts, lib := ?th1\<rparr>)" "length sts = length (per_thread_statistics r)" by auto
  let ?r = "r\<lparr>per_thread_statistics := sts, lib := ?th1\<rparr>"
  have ok': "thread_ok t (?r\<lparr>lib := l\<rparr>)" "registered (?r\<lparr>lib := l\<rparr>) = registered r" for l
    using t sts(2) by (simp_all add: thread_ok_def registered_def)
  have run: "send_cb t (?b, request_chunk q) 0 (r\<lparr>lib := ?th1\<rparr>)
     = (if ref_count (heap th2 ?b) = 0 then bindR (io_buf_pool_release (Some ?b) th2) (\<lambda>th. Inr (?r\<lparr>lib := th\<rparr>))
        else Inr (?r\<lparr>lib := th2\<rparr>))"
    using c sts(1) by (simp add: send_cb_def die_on_error_def th2_def Let_def)
  show ?thesis
  proof (cases "ref_count (heap th2 ?b) = 0")
    case True
    have held: "buffers_ok m {?b} th2" "?b \<notin> busy th2" using fin True by simp_all
    from release_held [OF held] obtain p where
      "io_buf_pool_release (Some ?b) th2 = Inr (th2\<lparr>pool := p\<rparr>)" "buffers_ok m {} (th2\<lparr>pool := p\<rparr>)" by blast
    with run True ok' fin(3) show ?thesis by auto
  next
    case False
    with run ok' fin(1,3) show ?thesis by auto
  qed
qed

section \<open>The abstract relay\<close>

type_synonym 'ep uv_abs = "(u64 \<rightharpoonup> 'ep) \<times> ('ep \<times> u8 list) multiset"

inductive uv_abs_step :: "'ep uv_abs \<Rightarrow> 'ep uv_label \<Rightarrow> 'ep uv_abs \<Rightarrow> bool" where
  "uv_abs_step (m, ob) (From_clients ds) (spec_clients ds m, ob)"
| "uv_abs_step (m, ob) (From_peers ds) (m, ob + mset (spec_peers m (map snd ds)))"
| "uv_abs_step (m, add_mset (ep, bs) ob) (Sent_to ep bs) (m, ob)"

inductive_simps uv_abs_step_simps [simp]:
  "uv_abs_step (m, ob) (From_clients ds) a" "uv_abs_step (m, ob) (From_peers ds) a"
  "uv_abs_step a (Sent_to ep bs) (m', ob')"

definition uv_abs :: "('ep, 'ep uv_thread) relay \<Rightarrow> 'ep uv_abs" where
  "uv_abs r = (registered r, mset (uv_outbox (lib r)))"

definition uv_ok :: "bool \<Rightarrow> nat \<Rightarrow> ('ep, 'ep uv_thread) relay \<Rightarrow> bool" where
  "uv_ok have_mmsg t r \<longleftrightarrow> thread_ok t r \<and> buffers_ok have_mmsg {} (lib r)"

text \<open>Every event libuv can raise is handled without a fault.\<close>

lemma uv_progress:
  assumes "uv_ok m t r" and "\<forall>a p. 0 \<le> send a p"
  shows "batch_ok m ds \<Longrightarrow> \<exists>r'. uv_step m send z t r (From_clients ds) r'"
    "batch_ok m ds \<Longrightarrow> \<exists>r'. uv_step m send z t r (From_peers ds) r'"
    "q \<in> set (send_queue (lib r)) \<Longrightarrow>
      \<exists>r'. uv_step m send z t r (Sent_to (request_addr q) (read_buf (lib r) (request_packet q))) r'"
proof -
  have ok: "thread_ok t r" "buffers_ok m {} (lib r)" using assms(1) by (simp_all add: uv_ok_def)
  show "\<exists>r'. uv_step m send z t r (From_clients ds) r'" if batch: "batch_ok m ds"
    using receive_from_clients [OF ok(2,1) batch, of z send] uv_step.clients [OF batch] by blast
  show "\<exists>r'. uv_step m send z t r (From_peers ds) r'" if batch: "batch_ok m ds"
    using receive_from_peers [OF ok(2,1) batch assms(2), of z] uv_step.peers [OF batch] by blast
  show "\<exists>r'. uv_step m send z t r (Sent_to (request_addr q) (read_buf (lib r) (request_packet q))) r'"
    if q: "q \<in> set (send_queue (lib r))"
    using send_cb_ok [OF ok(2) q ok(1)] uv_step.sent [OF q] by blast
qed

lemma uv_step_simulates:
  assumes "uv_step m send z t r l r'" and "uv_ok m t r" and "\<forall>a p. 0 \<le> send a p"
  shows "uv_ok m t r' \<and> uv_abs_step (uv_abs r) l (uv_abs r')"
  using assms(1)
proof cases
  case (clients ds)
  with receive_from_clients [of m r t ds z send] assms(2) show ?thesis
    by (auto simp: uv_ok_def uv_abs_def)
next
  case (peers ds)
  with receive_from_peers [of m r t ds send z] assms(2,3) show ?thesis
    by (auto simp: uv_ok_def uv_abs_def)
next
  case (sent q)
  with send_cb_ok [of m r q t] assms(2) show ?thesis
    by (auto simp: uv_ok_def uv_abs_def)
qed

inductive uv_run :: "bool \<Rightarrow> ('ep \<Rightarrow> uv_packet \<Rightarrow> int) \<Rightarrow> 'ep \<Rightarrow> nat
    \<Rightarrow> ('ep, 'ep uv_thread) relay \<Rightarrow> 'ep uv_label list \<Rightarrow> ('ep, 'ep uv_thread) relay \<Rightarrow> bool"
  for have_mmsg send zero_ep t
where
  uv_run_start: "uv_run have_mmsg send zero_ep t r [] r"
| uv_run_step: "uv_run have_mmsg send zero_ep t r ls r1 \<Longrightarrow> uv_step have_mmsg send zero_ep t r1 l r2
     \<Longrightarrow> uv_run have_mmsg send zero_ep t r (ls @ [l]) r2"

inductive uv_abs_run :: "'ep uv_abs \<Rightarrow> 'ep uv_label list \<Rightarrow> 'ep uv_abs \<Rightarrow> bool" where
  uv_abs_start: "uv_abs_run a [] a"
| uv_abs_next: "uv_abs_run a ls a1 \<Longrightarrow> uv_abs_step a1 l a2 \<Longrightarrow> uv_abs_run a (ls @ [l]) a2"

lemma uv_run_simulates:
  assumes "uv_run m send z t r ls r'" and "uv_ok m t r" and "\<forall>a p. 0 \<le> send a p"
  shows "uv_ok m t r' \<and> uv_abs_run (uv_abs r) ls (uv_abs r')"
  using assms
  by induction (auto intro: uv_abs_run.intros dest: uv_step_simulates)

text \<open>A thread before its loop: no buffers, and its counters assigned by \<open>on_thread_start\<close>.\<close>

definition thread_init :: "'ep uv_thread" where
  "thread_init = \<lparr>pool = stack_init (\<lambda>_. None), heap = (\<lambda>_. new_io_buf False), next_buf = 0,
     last_alloc = None, send_queue = []\<rparr>"

lemma thread_init_ok:
  assumes "on_thread_start t i (relay_init threads thread_init) = Inr r"
  shows "uv_ok m t r" "uv_abs r = (Map.empty, {#})"
proof -
  have r: "thread_ok t r" "lib r = thread_init" "sessions r = Map.empty"
    using assms by (auto simp: on_thread_start_def relay_init_def thread_ok_def split: if_splits)
  have "buffers_ok m {} (thread_init :: 'a uv_thread)"
    by (simp add: buffers_ok_def thread_init_def busy_def)
  with r show "uv_ok m t r" "uv_abs r = (Map.empty, {#})"
    by (auto simp: uv_ok_def uv_abs_def registered_def uv_outbox_def thread_init_def fun_eq_iff)
qed

section \<open>Properties\<close>

text \<open>C14. A thread of the libuv experiment implements the abstract relay, with and without recvmmsg:
  whatever batches it receives and in whatever order its sends complete, the registrations are
  the specified ones, and each completed send carries, to the registered endpoint, a peer datagram
  that was to be forwarded, unchanged and once, although the datagram is sent from the buffer it was
  received in and buffers are recycled.\<close>

theorem libuv_refines_relay:
  assumes "on_thread_start t i (relay_init threads thread_init) = Inr r0"
    and "\<forall>a p. 0 \<le> send a p" and "uv_run have_mmsg send z t r0 ls r"
  shows "uv_abs_run (Map.empty, {#}) ls (registered r, mset (uv_outbox (lib r)))"
  using uv_run_simulates [OF assms(3) thread_init_ok(1) [OF assms(1)] assms(2)] thread_init_ok(2) [OF assms(1)]
  by (simp add: uv_abs_def)

text \<open>A client registers, its peer sends, and the datagram is forwarded.\<close>

definition demo_start :: "(u64, u64 uv_thread) relay" where
  "demo_start = (relay_init 1 thread_init)\<lparr>this_thread_statistics := [0 \<mapsto> 0]\<rparr>"

lemma demo_start_eq: "on_thread_start 0 0 (relay_init 1 thread_init) = Inr demo_start"
  by (simp add: on_thread_start_def relay_init_def demo_start_def)

definition demo_labels :: "u64 uv_label list" where
  "demo_labels = [From_clients [(11, store_le 8 1)], From_peers [(12, store_le 8 1 @ [100])],
                  Sent_to 11 (store_le 8 1 @ [100])]"

lemma demo_uv_run: "\<exists>r. uv_run True (\<lambda>_ _. 0) 0 0 demo_start demo_labels r \<and> registered r = [1 \<mapsto> 11]
    \<and> send_queue (lib r) = []"
proof -
  let ?bs = "store_le 8 1 @ [100]" and ?step = "uv_step True (\<lambda>(_ :: u64) _. 0) 0 0"
  have ok: "\<forall>(a :: u64) p. (0 :: int) \<le> 0" by simp
  note start = thread_init_ok(1) [OF demo_start_eq, of True] thread_init_ok(2) [OF demo_start_eq]
  have batch: "batch_ok True [(11 :: u64, store_le 8 1)]" "batch_ok True [(12 :: u64, ?bs)]"
    by (simp_all add: batch_ok_def slot_bytes_def del: store_le.simps)
  from uv_progress(1) [OF start(1) ok batch(1)] obtain r1 where
    s1: "?step demo_start (From_clients [(11, store_le 8 1)]) r1" by blast
  from uv_step_simulates [OF s1 start(1) ok] start(2) have
    r1: "uv_ok True 0 r1" "uv_abs r1 = ([1 \<mapsto> 11], {#})"
    by (simp_all add: spec_clients_def spec_client_def del: store_le.simps)
  from uv_progress(2) [OF r1(1) ok batch(2)] obtain r2 where
    s2: "?step r1 (From_peers [(12, ?bs)]) r2" by blast
  from uv_step_simulates [OF s2 r1(1) ok] r1(2) have
    r2: "uv_ok True 0 r2" "uv_abs r2 = ([1 \<mapsto> 11], {#(11, ?bs)#})"
    by (simp_all add: spec_peer_def del: store_le.simps)
  from r2(2) have "uv_outbox (lib r2) = [(11, ?bs)]" by (simp add: uv_abs_def del: store_le.simps)
  then obtain q where q: "q \<in> set (send_queue (lib r2))" "request_addr q = 11" "read_buf (lib r2) (request_packet q) = ?bs"
    by (auto simp: uv_outbox_def simp del: store_le.simps)
  from uv_progress(3) [OF r2(1) ok q(1)] obtain r3 where s3: "?step r2 (Sent_to 11 ?bs) r3"
    using q(2,3) by auto
  from uv_step_simulates [OF s3 r2(1) ok] r2(2) have "uv_abs r3 = ([1 \<mapsto> 11], {#})"
    by (cases "uv_abs r3") (simp del: store_le.simps)
  moreover have "uv_run True (\<lambda>_ _. 0) 0 0 demo_start ((([] @ [From_clients [(11, store_le 8 1)]])
      @ [From_peers [(12, ?bs)]]) @ [Sent_to 11 ?bs]) r3"
    by (rule uv_run_step [OF uv_run_step [OF uv_run_step [OF uv_run_start s1] s2] s3])
  ultimately show ?thesis by (auto simp: demo_labels_def uv_abs_def uv_outbox_def simp del: store_le.simps)
qed

lemma libuv_refines_relay_witness:
  "\<exists>r. uv_run True (\<lambda>_ _. 0) 0 0 demo_start demo_labels r \<and> registered r = [1 \<mapsto> 11]
     \<and> uv_abs_run (Map.empty, {#}) demo_labels (registered r, mset (uv_outbox (lib r)))"
proof -
  have send: "\<forall>(a :: u64) p. (0 :: int) \<le> 0" by simp
  obtain r where "uv_run True (\<lambda>_ _. 0) 0 0 demo_start demo_labels r" "registered r = [1 \<mapsto> 11]"
    using demo_uv_run by blast
  with libuv_refines_relay [OF demo_start_eq send] show ?thesis by blast
qed

text \<open>C18. The buffer pool does not leak and no buffer is reused early: in every reachable state each
  buffer ever allocated is either in the pool or backs a send in flight, not both, its
  reference count is the number of those sends, and when all sends have completed every
  buffer is in the pool.\<close>

theorem libuv_buffers_conserved:
  assumes "on_thread_start t i (relay_init threads thread_init) = Inr r0"
    and "\<forall>a p. 0 \<le> send a p" and "uv_run have_mmsg send z t r0 ls r"
  shows "\<exists>xs. stack_repr (pool (lib r)) xs \<and> distinct xs
    \<and> set xs \<inter> request_buf ` set (send_queue (lib r)) = {}
    \<and> set xs \<union> request_buf ` set (send_queue (lib r)) = {..<next_buf (lib r)}
    \<and> (\<forall>b < next_buf (lib r). unat (ref_count (heap (lib r) b))
          = length (filter (\<lambda>q. request_buf q = b) (send_queue (lib r))))
    \<and> (send_queue (lib r) = [] \<longrightarrow> set xs = {..<next_buf (lib r)})"
proof -
  have ok: "buffers_ok have_mmsg {} (lib r)"
    using uv_run_simulates [OF assms(3) thread_init_ok(1) [OF assms(1)] assms(2)] by (simp add: uv_ok_def)
  then obtain xs where xs: "stack_repr (pool (lib r)) xs" "set xs \<inter> busy (lib r) = {}"
    "set xs \<union> busy (lib r) = {..<next_buf (lib r)}"
    unfolding buffers_ok_def by auto
  with stk.repr_distinct [OF xs(1)] buffers_okD(3) [OF ok] show ?thesis
    by (auto simp: busy_def refs_def)
qed

lemma libuv_buffers_conserved_witness:
  "\<exists>r xs. uv_run True (\<lambda>_ _. 0) 0 0 demo_start demo_labels r \<and> stack_repr (pool (lib r)) xs
     \<and> set xs = {..<next_buf (lib r)}"
proof -
  have send: "\<forall>(a :: u64) p. (0 :: int) \<le> 0" by simp
  obtain r where r: "uv_run True (\<lambda>_ _. 0) 0 0 demo_start demo_labels r" "send_queue (lib r) = []"
    using demo_uv_run by blast
  have "\<exists>xs. stack_repr (pool (lib r)) xs \<and> set xs = {..<next_buf (lib r)}"
    using libuv_buffers_conserved [OF demo_start_eq send r(1)] by (rule ex_forward) (simp add: r(2))
  with r(1) show ?thesis by blast
qed

text \<open>No callback of the libuv experiment faults: in every reachable state, every batch of
  datagrams from clients or from peers is handled, without ever running out of chunks or
  dereferencing a null pointer, and so is the completion of every send in flight.\<close>

theorem libuv_callbacks_return:
  assumes "on_thread_start t i (relay_init threads thread_init) = Inr r0"
    and "\<forall>a p. 0 \<le> send a p" and "uv_run have_mmsg send z t r0 ls r" and "batch_ok have_mmsg ds"
  shows "(\<exists>r'. uv_receive have_mmsg z (client_recv_cb send t) ds r = Inr r')
    \<and> (\<exists>r'. uv_receive have_mmsg z (peer_recv_cb send t) ds r = Inr r')
    \<and> (\<forall>q \<in> set (send_queue (lib r)). \<exists>r'. send_cb t (request_buf q, request_chunk q) 0
          (r\<lparr>lib := (lib r)\<lparr>send_queue := remove1 q (send_queue (lib r))\<rparr>\<rparr>) = Inr r')"
proof -
  have ok: "thread_ok t r" "buffers_ok have_mmsg {} (lib r)"
    using uv_run_simulates [OF assms(3) thread_init_ok(1) [OF assms(1)] assms(2)] by (simp_all add: uv_ok_def)
  have "\<exists>r'. uv_receive have_mmsg z (client_recv_cb send t) ds r = Inr r'"
    using receive_from_clients [OF ok(2,1) assms(4), of z send] by blast
  moreover have "\<exists>r'. uv_receive have_mmsg z (peer_recv_cb send t) ds r = Inr r'"
    using receive_from_peers [OF ok(2,1) assms(4,2), of z] by blast
  moreover have "\<exists>r'. send_cb t (request_buf q, request_chunk q) 0
          (r\<lparr>lib := (lib r)\<lparr>send_queue := remove1 q (send_queue (lib r))\<rparr>\<rparr>) = Inr r'"
    if "q \<in> set (send_queue (lib r))" for q
    using send_cb_ok [OF ok(2) that ok(1)] by blast
  ultimately show ?thesis by blast
qed

lemma libuv_callbacks_return_witness:
  "\<exists>r r'. uv_run True (\<lambda>_ _. 0) 0 0 demo_start demo_labels r
     \<and> uv_receive True 0 (peer_recv_cb (\<lambda>_ _. 0) 0) [(12, store_le 8 1), (13, [])] r = Inr r'"
proof -
  have send: "\<forall>(a :: u64) p. (0 :: int) \<le> 0" by simp
  obtain r where r: "uv_run True (\<lambda>_ _. 0) 0 0 demo_start demo_labels r"
    using demo_uv_run by blast
  have "batch_ok True [(12 :: u64, store_le 8 1), (13, [])]"
    by (simp add: batch_ok_def slot_bytes_def del: store_le.simps)
  from libuv_callbacks_return [OF demo_start_eq send r this] r show ?thesis by blast
qed

end
