(* ===== verification/Args.thy ===== *)
theory Args
  imports Statistics
begin

text \<open>
  The command lines: \<open>config\<close> of \<^verbatim>\<open>libuv/relay.cpp\<close>, which throws on what it does not accept, and
  \<open>config\<close> of \<^verbatim>\<open>mmsg/relay.cpp\<close>, \<^verbatim>\<open>uring/relay.cpp\<close> and \<^verbatim>\<open>demi/relay.cpp\<close>, which are the same code but
  for the default number of threads. \<open>std::stoull\<close> and \<open>atoi\<close> of the standard library are
  modelled; \<open>std::thread::hardware_concurrency()\<close> is a parameter. What is printed is left out.
\<close>

section \<open>Numbers in the standard library\<close>

definition is_digit :: "char \<Rightarrow> bool" where
  "is_digit c \<longleftrightarrow> 48 \<le> (of_char c :: nat) \<and> (of_char c :: nat) \<le> 57"

text \<open>\<open>isspace\<close> in the C locale.\<close>

definition is_space :: "char \<Rightarrow> bool" where
  "is_space c \<longleftrightarrow> (of_char c :: nat) \<in> {9, 10, 11, 12, 13, 32}"

definition digits_value :: "string \<Rightarrow> nat" where
  "digits_value ds = foldl (\<lambda>n c. 10 * n + (of_char c - 48)) 0 ds"

text \<open>White space, an optional sign, digits up to the first character that is none: the sign and
  the magnitude, or nothing when there is no digit.\<close>

definition scan_number :: "string \<Rightarrow> (bool \<times> nat) option" where
  "scan_number s =
     (let s1 = dropWhile is_space s;
          neg = (s1 \<noteq> [] \<and> hd s1 = CHR ''-'');
          s2 = (if s1 \<noteq> [] \<and> (hd s1 = CHR ''-'' \<or> hd s1 = CHR ''+'') then tl s1 else s1);
          ds = takeWhile is_digit s2
      in if ds = [] then None else Some (neg, digits_value ds))"

datatype stoull_result = Value u64 | Invalid_argument | Range_error

text \<open>\<open>std::stoull\<close>: a minus sign negates in 64 bits; only the magnitude is checked.\<close>

definition stoull :: "string \<Rightarrow> stoull_result" where
  "stoull s =
     (case scan_number s of
        None \<Rightarrow> Invalid_argument
      | Some (neg, n) \<Rightarrow>
          if n < 2 ^ 64 then Value (if neg then - of_nat n else of_nat n) else Range_error)"

text \<open>\<open>atoi\<close>: no digits is zero, a value outside \<open>int\<close> is undefined behaviour.\<close>

definition atoi :: "string \<Rightarrow> int res" where
  "atoi s =
     (case scan_number s of
        None \<Rightarrow> Inr 0
      | Some (neg, n) \<Rightarrow>
          let v = (if neg then - int n else int n)
          in if - (2 ^ 31) \<le> v \<and> v < 2 ^ 31 then Inr v else Inl Undefined_behaviour)"

section \<open>libuv\<close>

definition parse_numeric_argument :: "string \<Rightarrow> string \<Rightarrow> u16 res" where
  "parse_numeric_argument name v =
     (case stoull v of
        Value ull \<Rightarrow>
          if ull \<le> 65535 then Inr (ucast ull)
          else Inl (Runtime_error (name @ '': out of range ('' @ v @ '')''))
      | Invalid_argument \<Rightarrow> Inl (Runtime_error (name @ '': invalid argument ('' @ v @ '')''))
      | Range_error \<Rightarrow> Inl Out_of_range)"

record 'port config =
  conf_threads :: u16
  conf_client_port :: 'port
  conf_peer_port :: 'port

definition quote :: string where "quote = [char_of (39 :: nat)]"

text \<open>\<open>args.at(++i)\<close> throws when there is no value; so does an unknown flag.\<close>

fun libuv_args :: "string list \<Rightarrow> u16 config \<Rightarrow> u16 config res" where
  "libuv_args [] c = Inr c"
| "libuv_args [a] c =
     (if a = ''--threads'' \<or> a = ''--client.port'' \<or> a = ''--peer.port'' then Inl Out_of_range
      else Inl (Runtime_error (''invalid flag: '' @ quote @ a @ quote)))"
| "libuv_args (a # v # rest) c =
     (if a = ''--threads''
      then bindR (parse_numeric_argument ''threads'' v) (\<lambda>n. libuv_args rest (c\<lparr>conf_threads := n\<rparr>))
      else if a = ''--client.port''
      then bindR (parse_numeric_argument ''client.port'' v) (\<lambda>n. libuv_args rest (c\<lparr>conf_client_port := n\<rparr>))
      else if a = ''--peer.port''
      then bindR (parse_numeric_argument ''peer.port'' v) (\<lambda>n. libuv_args rest (c\<lparr>conf_peer_port := n\<rparr>))
      else Inl (Runtime_error (''invalid flag: '' @ quote @ a @ quote)))"

definition at_least_one_thread :: "'port config \<Rightarrow> 'port config" where
  "at_least_one_thread c = (if conf_threads c = 0 then c\<lparr>conf_threads := 1\<rparr> else c)"

definition libuv_config :: "nat \<Rightarrow> string list \<Rightarrow> u16 config res" where
  "libuv_config hardware_concurrency args =
     bindR (libuv_args args \<lparr>conf_threads = of_nat hardware_concurrency,
              conf_client_port = 3478, conf_peer_port = 3479\<rparr>) (\<lambda>c. Inr (at_least_one_thread c))"

section \<open>mmsg, uring and demi\<close>

text \<open>Ports stay strings. After the last argument comes the null pointer: \<open>atoi\<close> of it is
  undefined behaviour, and so is printing a port that was set to it.\<close>

fun c_args :: "string list \<Rightarrow> string option config \<Rightarrow> string option config res" where
  "c_args [] c = Inr c"
| "c_args [a] c =
     (if a = ''--threads'' then Inl Undefined_behaviour
      else if a = ''--client.port'' then Inr (c\<lparr>conf_client_port := None\<rparr>)
      else if a = ''--peer.port'' then Inr (c\<lparr>conf_peer_port := None\<rparr>)
      else Inr c)"
| "c_args (a # v # rest) c =
     (if a = ''--threads'' then bindR (atoi v) (\<lambda>n. c_args rest (c\<lparr>conf_threads := of_int n\<rparr>))
      else if a = ''--client.port'' then c_args rest (c\<lparr>conf_client_port := Some v\<rparr>)
      else if a = ''--peer.port'' then c_args rest (c\<lparr>conf_peer_port := Some v\<rparr>)
      else c_args (v # rest) c)"

text \<open>\<open>default_threads\<close> is \<open>hardware_concurrency()\<close> for mmsg and uring, 1 for demi.\<close>

definition c_config :: "nat \<Rightarrow> string list \<Rightarrow> string option config res" where
  "c_config default_threads args =
     bindR (c_args args \<lparr>conf_threads = of_nat default_threads,
              conf_client_port = Some ''3478'', conf_peer_port = Some ''3479''\<rparr>) (\<lambda>c.
     if conf_client_port c = None \<or> conf_peer_port c = None then Inl Undefined_behaviour
     else Inr (at_least_one_thread c))"

text \<open>The constructors of the other two experiments.\<close>

definition uring_config :: "nat \<Rightarrow> string list \<Rightarrow> string option config res" where
  "uring_config hardware_concurrency args = c_config hardware_concurrency args"

definition demi_config :: "string list \<Rightarrow> string option config res" where
  "demi_config args = c_config 1 args"

section \<open>Printed numbers scan back\<close>

definition digit_stop :: "string \<Rightarrow> bool" where
  "digit_stop rest \<longleftrightarrow> rest = [] \<or> \<not> is_digit (hd rest)"

lemma digit_char: "n < 10 \<Longrightarrow> is_digit (char_of (48 + n)) \<and> (of_char (char_of (48 + n) :: char) :: nat) = 48 + n"
  by (simp add: is_digit_def)

lemma show_nat_digits: "\<forall>c \<in> set (show_nat n). is_digit c" and show_nat_not_Nil: "show_nat n \<noteq> []"
proof (induction n rule: show_nat.induct)
  case (1 n)
  {
    case 1
    show ?case
    proof (cases "n < 10")
      case True
      then show ?thesis using digit_char [of n] by (simp add: show_nat.simps [of n])
    next
      case False
      then show ?thesis using "1.IH"(1) digit_char [of "n mod 10"] by (simp add: show_nat.simps [of n])
    qed
  next
    case 2
    show ?case by (simp add: show_nat.simps [of n])
  }
qed

lemma digits_value_snoc: "digits_value (ds @ [c]) = 10 * digits_value ds + (of_char c - 48)"
  by (simp add: digits_value_def)

lemma digits_value_show_nat [simp]: "digits_value (show_nat n) = n"
proof (induction n rule: show_nat.induct)
  case (1 n)
  show ?case
  proof (cases "n < 10")
    case True
    then show ?thesis using digit_char [of n] by (simp add: show_nat.simps [of n] digits_value_def)
  next
    case False
    then have "digits_value (show_nat n) = 10 * (n div 10) + n mod 10"
      using 1 digit_char [of "n mod 10"] by (simp add: show_nat.simps [of n] digits_value_snoc)
    then show ?thesis by simp
  qed
qed

lemma digit_not_space: "is_digit c \<Longrightarrow> \<not> is_space c \<and> c \<noteq> CHR ''-'' \<and> c \<noteq> CHR ''+''"
  by (auto simp: is_digit_def is_space_def)

lemma scan_number_show_nat:
  assumes "digit_stop rest"
  shows "scan_number (show_nat n @ rest) = Some (False, n)"
    and "scan_number (CHR ''-'' # show_nat n @ rest) = Some (True, n)"
proof -
  obtain c ds where cs: "show_nat n = c # ds" using show_nat_not_Nil [of n] by (cases "show_nat n") auto
  then have c: "is_digit c" using show_nat_digits [of n] by simp
  have take: "takeWhile is_digit (show_nat n @ rest) = show_nat n"
    using assms show_nat_digits [of n] by (cases rest) (auto simp: digit_stop_def takeWhile_append)
  have "dropWhile is_space (show_nat n @ rest) = show_nat n @ rest"
    using cs digit_not_space [OF c] by simp
  then show "scan_number (show_nat n @ rest) = Some (False, n)"
    using take cs digit_not_space [OF c] by (simp add: scan_number_def Let_def) (metis digits_value_show_nat)
  have "\<not> is_space (CHR ''-'')" by (simp add: is_space_def)
  then show "scan_number (CHR ''-'' # show_nat n @ rest) = Some (True, n)"
    using take show_nat_not_Nil [of n] by (simp add: scan_number_def Let_def)
qed

section \<open>Properties\<close>

lemma stoull_show_nat:
  assumes "digit_stop rest"
  shows "stoull (show_nat n @ rest) = (if n < 2 ^ 64 then Value (of_nat n) else Range_error)"
    and "stoull (CHR ''-'' # show_nat n @ rest) = (if n < 2 ^ 64 then Value (- of_nat n) else Range_error)"
  by (simp_all add: stoull_def scan_number_show_nat [OF assms])

lemma u64_le_iff: "n < 2 ^ 64 \<Longrightarrow> (of_nat n :: u64) \<le> 65535 \<longleftrightarrow> n \<le> 65535"
  by (simp add: word_le_nat_alt unat_of_nat)

lemma ucast_u64_u16: "n \<le> 65535 \<Longrightarrow> (ucast (of_nat n :: u64) :: u16) = of_nat n"
  by (rule word_unat_eq_iff [THEN iffD2]) (simp add: unat_of_nat unsigned_ucast_eq take_bit_nat_eq_self)

lemma parse_numeric_argument_show_nat:
  assumes "digit_stop rest"
  shows "parse_numeric_argument name (show_nat n @ rest) =
     (if n \<le> 65535 then Inr (of_nat n)
      else if n < 2 ^ 64 then Inl (Runtime_error (name @ '': out of range ('' @ (show_nat n @ rest) @ '')''))
      else Inl Out_of_range)"
proof -
  note s = stoull_show_nat(1) [OF assms, of n]
  consider "n \<le> 65535" | "65535 < n" "n < 2 ^ 64" | "2 ^ 64 \<le> n" by linarith
  then show ?thesis
  proof cases
    case 1
    then have lt: "n < 2 ^ 64" by simp
    show ?thesis
      unfolding parse_numeric_argument_def s if_P [OF lt]
      using 1 u64_le_iff [OF lt] ucast_u64_u16 by simp
  next
    case 2
    then show ?thesis
      unfolding parse_numeric_argument_def s if_P [OF 2(2)] using u64_le_iff [OF 2(2)] by simp
  next
    case 3
    then have "\<not> n < 2 ^ 64" "\<not> n \<le> 65535" by simp_all
    then show ?thesis unfolding parse_numeric_argument_def s by simp
  qed
qed

text \<open>What the numeric flags of the libuv experiment accept: a decimal numeral up to 65535 is
  read as its value, whatever follows its digits; up to 2^64 it is a \<open>runtime_error\<close> that
  names the flag; beyond, \<open>std::out_of_range\<close> escapes; and a negative numeral is accepted when it is
  zero or wraps around in 64 bits to at most 65535.\<close>

theorem numeric_argument_accepts:
  assumes "digit_stop rest"
  shows "parse_numeric_argument name (show_nat n @ rest) =
     (if n \<le> 65535 then Inr (of_nat n)
      else if n < 2 ^ 64 then Inl (Runtime_error (name @ '': out of range ('' @ (show_nat n @ rest) @ '')''))
      else Inl Out_of_range)
   \<and> ((\<exists>w. parse_numeric_argument name (CHR ''-'' # show_nat n @ rest) = Inr w)
        \<longleftrightarrow> n = 0 \<or> 2 ^ 64 - 65535 \<le> n \<and> n < 2 ^ 64)"
proof -
  have neg: "(- of_nat n :: u64) \<le> 65535 \<longleftrightarrow> n = 0 \<or> 2 ^ 64 - 65535 \<le> n" if n: "n < 2 ^ 64"
  proof (cases "n = 0")
    case False
    have "(- of_nat n :: u64) = of_nat (2 ^ 64 - n)" using n by (simp add: of_nat_diff)
    moreover have "2 ^ 64 - n < (2 :: nat) ^ 64" using False by simp
    ultimately have "(- of_nat n :: u64) \<le> 65535 \<longleftrightarrow> 2 ^ 64 - n \<le> 65535" using u64_le_iff by metis
    then show ?thesis using False n by auto
  qed simp
  have "(\<exists>w. parse_numeric_argument name (CHR ''-'' # show_nat n @ rest) = Inr w)
      \<longleftrightarrow> n < 2 ^ 64 \<and> (- of_nat n :: u64) \<le> 65535"
    unfolding parse_numeric_argument_def stoull_show_nat(2) [OF assms] by simp
  then show ?thesis
    using parse_numeric_argument_show_nat [OF assms, of name n] neg by auto
qed

lemma digit_chars: "char_of (48 :: nat) = CHR ''0''" "char_of (49 :: nat) = CHR ''1''" "char_of (50 :: nat) = CHR ''2''"
  by (simp_all add: char_of_def bit_0)

lemma show_nat_12: "show_nat 12 = ''12''" "show_nat 0 = ''0''"
  by (simp_all add: show_nat.simps [of 12] show_nat.simps [of "Suc 0"] show_nat.simps [of 0] digit_chars)

lemma numeric_argument_accepts_witness:
  "parse_numeric_argument ''threads'' ''12abc'' = Inr 12
   \<and> (\<exists>w. parse_numeric_argument ''threads'' (CHR ''-'' # show_nat (2 ^ 64 - 4) @ []) = Inr w)"
proof -
  have stop: "digit_stop ''abc''" "digit_stop []" by (simp_all add: digit_stop_def is_digit_def)
  from numeric_argument_accepts [OF stop(1), of "''threads''" 12] have
    "parse_numeric_argument ''threads'' ''12abc'' = Inr 12" by (simp add: show_nat_12)
  moreover have "\<exists>w. parse_numeric_argument ''threads'' (CHR ''-'' # show_nat (2 ^ 64 - 4) @ []) = Inr w"
    using numeric_argument_accepts [OF stop(2), of "''threads''" "2 ^ 64 - 4"] by simp
  ultimately show ?thesis by blast
qed

datatype flag = Threads | Client_port | Peer_port

fun flag_name :: "flag \<Rightarrow> string" where
  "flag_name Threads = ''--threads''"
| "flag_name Client_port = ''--client.port''"
| "flag_name Peer_port = ''--peer.port''"

fun set_flag :: "flag \<Rightarrow> 'port \<Rightarrow> ('port \<Rightarrow> u16) \<Rightarrow> 'port config \<Rightarrow> 'port config" where
  "set_flag Threads v num c = c\<lparr>conf_threads := num v\<rparr>"
| "set_flag Client_port v num c = c\<lparr>conf_client_port := v\<rparr>"
| "set_flag Peer_port v num c = c\<lparr>conf_peer_port := v\<rparr>"

lemma libuv_args_flags:
  assumes "\<forall>(f, n) \<in> set fs. n \<le> 65535"
  shows "libuv_args (concat (map (\<lambda>(f, n). [flag_name f, show_nat n]) fs)) c
       = Inr (fold (\<lambda>(f, n). set_flag f (of_nat n) id) fs c)"
  using assms
proof (induction fs arbitrary: c)
  case Nil
  then show ?case by simp
next
  case (Cons fn fs)
  obtain f n where fn: "fn = (f, n)" by (cases fn)
  have "parse_numeric_argument name (show_nat n) = Inr (of_nat n)" for name
    using parse_numeric_argument_show_nat [of "[]" name n] Cons.prems fn by (simp add: digit_stop_def)
  with Cons fn show ?case by (cases f) simp_all
qed

text \<open>The command line of the libuv experiment sets what it says: for any sequence of flags with
  values up to 65535, the last value of each flag is in force, a flag that is not given keeps its
  default, and no threads means one thread.\<close>

theorem libuv_config_sets_flags:
  assumes "\<forall>(f, n) \<in> set fs. n \<le> 65535"
  shows "libuv_config hc (concat (map (\<lambda>(f, n). [flag_name f, show_nat n]) fs)) =
    Inr (let value = (\<lambda>f d. case find (\<lambda>(g, _). g = f) (rev fs) of None \<Rightarrow> d | Some (_, n) \<Rightarrow> of_nat n);
             threads = value Threads (of_nat hc)
         in \<lparr>conf_threads = (if threads = 0 then 1 else threads),
             conf_client_port = value Client_port 3478, conf_peer_port = value Peer_port 3479\<rparr>)"
proof -
  have last: "fold (\<lambda>(f, n). set_flag f (of_nat n) id) fs c =
     \<lparr>conf_threads = (case find (\<lambda>(g, _). g = Threads) (rev fs) of None \<Rightarrow> conf_threads c | Some (_, n) \<Rightarrow> of_nat n),
      conf_client_port = (case find (\<lambda>(g, _). g = Client_port) (rev fs) of None \<Rightarrow> conf_client_port c | Some (_, n) \<Rightarrow> of_nat n),
      conf_peer_port = (case find (\<lambda>(g, _). g = Peer_port) (rev fs) of None \<Rightarrow> conf_peer_port c | Some (_, n) \<Rightarrow> of_nat n)\<rparr>"
    for c :: "u16 config"
  proof (induction fs rule: rev_induct)
    case (snoc fn fs)
    obtain f n where "fn = (f, n)" by (cases fn)
    with snoc show ?case by (cases f) simp_all
  qed simp
  show ?thesis
    by (simp add: libuv_config_def libuv_args_flags [OF assms] last at_least_one_thread_def Let_def split: option.split)
qed

lemma libuv_config_sets_flags_witness:
  "libuv_config 8 [''--threads'', ''12'', ''--threads'', ''0''] =
     Inr \<lparr>conf_threads = 1, conf_client_port = 3478, conf_peer_port = 3479\<rparr>"
  using libuv_config_sets_flags [of "[(Threads, 12), (Threads, 0)]" 8]
  by (simp add: show_nat_12)

lemma of_nat_u16_nonzero: "0 < k \<Longrightarrow> k < 65536 \<Longrightarrow> (of_nat k :: u16) \<noteq> 0"
proof
  assume k: "0 < k" "k < 65536" and "(of_nat k :: u16) = 0"
  then have "unat (of_nat k :: u16) = 0" by simp
  with k show False by (simp add: unat_of_nat)
qed

text \<open>The other experiments, all three alike, do not check the number of threads: it is reduced modulo 2^16, so
  that a multiple of 65536 means one thread and \<open>-n\<close> means 65536 - n; the flag without a value is
  undefined behaviour, and a flag that is not known is skipped.\<close>

theorem c_config_truncates_threads:
  assumes "n < 2 ^ 31"
  shows "c_config d [''--threads'', show_nat n] =
      Inr \<lparr>conf_threads = (if n mod 65536 = 0 then 1 else of_nat (n mod 65536)),
           conf_client_port = Some ''3478'', conf_peer_port = Some ''3479''\<rparr>
    \<and> (0 < n \<and> n < 65536 \<longrightarrow> c_config d [''--threads'', CHR ''-'' # show_nat n] =
      Inr \<lparr>conf_threads = of_nat (65536 - n), conf_client_port = Some ''3478'', conf_peer_port = Some ''3479''\<rparr>)
    \<and> c_config d [''--threads''] = Inl Undefined_behaviour
    \<and> c_config d (''--verbose'' # args) = c_config d args
    \<and> uring_config d [''--threads'', show_nat n] = demi_config [''--threads'', show_nat n]
    \<and> uring_config d [''--threads'', show_nat n] = c_config d [''--threads'', show_nat n]"
proof -
  have stop: "digit_stop []" by (simp add: digit_stop_def)
  have pos: "atoi (show_nat n) = Inr (int n)" and neg: "atoi (CHR ''-'' # show_nat n) = Inr (- int n)"
    using assms scan_number_show_nat [OF stop, of n] by (simp_all add: atoi_def Let_def)
  have unat: "(of_nat n :: u16) = of_nat (n mod 65536)"
    by (rule word_unat_eq_iff [THEN iffD2]) (simp add: unat_of_nat)
  have zero: "(of_nat n :: u16) = 0 \<longleftrightarrow> n mod 65536 = 0"
    unfolding word_unat_eq_iff by (simp add: unat_of_nat)
  have minus: "- (of_nat n :: u16) = of_nat (65536 - n)" if "n < 65536"
    using that by (simp add: of_nat_diff)
  have nonzero: "(of_nat (65536 - n) :: u16) \<noteq> 0" if "0 < n" "n < 65536"
    using of_nat_u16_nonzero [of "65536 - n"] that by simp
  have skip: "c_args (''--verbose'' # args) c = c_args args c" for c
    by (cases args) simp_all
  show ?thesis
  proof (intro conjI impI)
    show "c_config d [''--threads'', show_nat n] =
      Inr \<lparr>conf_threads = (if n mod 65536 = 0 then 1 else of_nat (n mod 65536)),
           conf_client_port = Some ''3478'', conf_peer_port = Some ''3479''\<rparr>"
      by (simp add: c_config_def at_least_one_thread_def pos zero unat [symmetric])
    show "c_config d [''--threads'', CHR ''-'' # show_nat n] =
      Inr \<lparr>conf_threads = of_nat (65536 - n), conf_client_port = Some ''3478'', conf_peer_port = Some ''3479''\<rparr>"
      if n: "0 < n \<and> n < 65536"
    proof -
      have "- (of_nat n :: u16) = of_nat (65536 - n)" "(of_nat (65536 - n) :: u16) \<noteq> 0"
        using minus nonzero n by blast+
      then show ?thesis by (simp add: c_config_def at_least_one_thread_def neg del: of_nat_diff)
    qed
    show "c_config d [''--threads''] = Inl Undefined_behaviour" by (simp add: c_config_def)
    show "c_config d (''--verbose'' # args) = c_config d args" by (simp only: c_config_def skip)
    show "uring_config d [''--threads'', show_nat n] = demi_config [''--threads'', show_nat n]"
      "uring_config d [''--threads'', show_nat n] = c_config d [''--threads'', show_nat n]"
      by (simp_all add: uring_config_def demi_config_def c_config_def pos)
  qed
qed

lemma c_config_truncates_threads_witness:
  "c_config 4 [''--threads'', show_nat 65536] =
     Inr \<lparr>conf_threads = 1, conf_client_port = Some ''3478'', conf_peer_port = Some ''3479''\<rparr>"
  using c_config_truncates_threads [of 65536 4 "[]"] by simp

end
