(* ===== verification/Latch.thy ===== *)
theory Latch
  imports Urn_Prelude
begin

text \<open>
  \<open>urn::countdown_latch\<close> of \<^verbatim>\<open>common/latch.h\<close>, which the mmsg and (as a copy in
  \<^verbatim>\<open>uring/relay.cpp\<close>) the uring experiment use to start their workers together. \<open>wait()\<close> is modelled
  statement by statement, with every interleaving of its callers; \<open>std::mutex\<close> and
  \<open>std::condition_variable\<close> behave as the standard says, spurious wake-ups included.
\<close>

section \<open>State\<close>

text \<open>Where a caller of \<open>wait()\<close> is. \<open>Testing\<close> is the predicate of \<open>cond.wait\<close>, with its
  captured \<open>gen\<close>; \<open>Blocked\<close> has released the mutex, \<open>Woken\<close> wants it back.\<close>

datatype pc =
    Outside
  | Entered
  | Gen_read int
  | Last_one
  | Notifying
  | Testing int
  | Blocked int
  | Woken int
  | Leaving
  | Returned

record latch =
  count :: int
  generation :: int
  owner :: "nat option"
  pc_of :: "nat \<Rightarrow> pc"

definition latch_init :: "int \<Rightarrow> latch" where
  "latch_init n = \<lparr>count = n, generation = 0, owner = None, pc_of = (\<lambda>_. Outside)\<rparr>"

section \<open>Steps\<close>

definition goto :: "nat \<Rightarrow> pc \<Rightarrow> latch \<Rightarrow> latch" where
  "goto t p l = l\<lparr>pc_of := (pc_of l)(t := p)\<rparr>"

definition notify_all :: "latch \<Rightarrow> latch" where
  "notify_all l = l\<lparr>pc_of := (\<lambda>u. case pc_of l u of Blocked g \<Rightarrow> Woken g | p \<Rightarrow> p)\<rparr>"

text \<open>What thread \<open>t\<close> does next, if it can: the statements of \<open>wait()\<close> in order.\<close>

definition latch_next :: "nat \<Rightarrow> latch \<Rightarrow> latch option" where
  "latch_next t l =
     (case pc_of l t of
        Outside \<Rightarrow> if owner l = None then Some (goto t Entered (l\<lparr>owner := Some t\<rparr>)) else None
      | Entered \<Rightarrow> Some (goto t (Gen_read (generation l)) l)
      | Gen_read g \<Rightarrow>
          (let l' = l\<lparr>count := count l - 1\<rparr>
           in Some (goto t (if count l' = 0 then Last_one else Testing g) l'))
      | Last_one \<Rightarrow> Some (goto t Notifying (l\<lparr>generation := generation l + 1\<rparr>))
      | Notifying \<Rightarrow> Some (goto t Leaving (notify_all l))
      | Testing g \<Rightarrow>
          if g \<noteq> generation l then Some (goto t Leaving l)
          else Some (goto t (Blocked g) (l\<lparr>owner := None\<rparr>))
      | Blocked g \<Rightarrow> None
      | Woken g \<Rightarrow> if owner l = None then Some (goto t (Testing g) (l\<lparr>owner := Some t\<rparr>)) else None
      | Leaving \<Rightarrow> Some (goto t Returned (l\<lparr>owner := None\<rparr>))
      | Returned \<Rightarrow> None)"

text \<open>\<open>n\<close> callers. A run is a list of steps: a thread runs, or wakes up spuriously.\<close>

datatype move = Runs nat | Wakes nat

inductive latch_step :: "nat \<Rightarrow> latch \<Rightarrow> move \<Rightarrow> latch \<Rightarrow> bool" for n where
  runs: "t < n \<Longrightarrow> latch_next t l = Some l' \<Longrightarrow> latch_step n l (Runs t) l'"
| wakes: "t < n \<Longrightarrow> pc_of l t = Blocked g \<Longrightarrow> latch_step n l (Wakes t) (goto t (Woken g) l)"

inductive latch_run :: "nat \<Rightarrow> move list \<Rightarrow> latch \<Rightarrow> bool" for n where
  latch_start: "latch_run n [] (latch_init (int n))"
| latch_more: "latch_run n ms l \<Longrightarrow> latch_step n l m l' \<Longrightarrow> latch_run n (ms @ [m]) l'"

section \<open>Invariant\<close>

fun holding :: "pc \<Rightarrow> bool" where
  "holding Outside = False"
| "holding (Blocked g) = False"
| "holding (Woken g) = False"
| "holding Returned = False"
| "holding _ = True"

fun arrived :: "pc \<Rightarrow> bool" where
  "arrived Outside = False"
| "arrived Entered = False"
| "arrived (Gen_read g) = False"
| "arrived _ = True"

text \<open>What a thread's position says: before the last arrival the generation is 0, and whoever is past
  the predicate has seen it change.\<close>

fun pc_ok :: "int \<Rightarrow> int \<Rightarrow> pc \<Rightarrow> bool" where
  "pc_ok g c (Gen_read h) \<longleftrightarrow> h = g"
| "pc_ok g c Last_one \<longleftrightarrow> g = 0 \<and> c = 0"
| "pc_ok g c Notifying \<longleftrightarrow> g = 1"
| "pc_ok g c (Testing h) \<longleftrightarrow> h = 0"
| "pc_ok g c (Blocked h) \<longleftrightarrow> h = 0"
| "pc_ok g c (Woken h) \<longleftrightarrow> h = 0"
| "pc_ok g c Leaving \<longleftrightarrow> g = 1"
| "pc_ok g c Returned \<longleftrightarrow> g = 1"
| "pc_ok g c _ \<longleftrightarrow> True"

definition waiting_for :: "nat \<Rightarrow> latch \<Rightarrow> nat" where
  "waiting_for n l = card {t. t < n \<and> \<not> arrived (pc_of l t)}"

definition latch_ok :: "nat \<Rightarrow> latch \<Rightarrow> bool" where
  "latch_ok n l \<longleftrightarrow>
     (\<forall>t < n. holding (pc_of l t) \<longleftrightarrow> owner l = Some t) \<and> (\<forall>t. owner l = Some t \<longrightarrow> t < n)
   \<and> count l = int (waiting_for n l) \<and> (generation l = 0 \<or> generation l = 1 \<and> count l = 0)
   \<and> (\<forall>t < n. pc_ok (generation l) (count l) (pc_of l t))
   \<and> (generation l = 0 \<and> count l = 0 \<longrightarrow> n = 0 \<or> (\<exists>t < n. pc_of l t = Last_one))
   \<and> (generation l = 1 \<longrightarrow> (\<exists>t < n. pc_of l t = Notifying) \<or> (\<forall>t < n. \<forall>g. pc_of l t \<noteq> Blocked g))"

section \<open>Every step keeps the invariant\<close>

lemma goto_simps [simp]:
  "count (goto t p l) = count l" "generation (goto t p l) = generation l" "owner (goto t p l) = owner l"
  "pc_of (goto t p l) u = (if u = t then p else pc_of l u)"
  by (simp_all add: goto_def)

lemma notify_all_simps [simp]:
  "count (notify_all l) = count l" "generation (notify_all l) = generation l" "owner (notify_all l) = owner l"
  "pc_of (notify_all l) u = (case pc_of l u of Blocked g \<Rightarrow> Woken g | p \<Rightarrow> p)"
  by (simp_all add: notify_all_def)

lemma woken_simps [simp]:
  "holding (case p of Blocked g \<Rightarrow> Woken g | p \<Rightarrow> p) = holding p"
  "arrived (case p of Blocked g \<Rightarrow> Woken g | p \<Rightarrow> p) = arrived p"
  "pc_ok g c (case p of Blocked h \<Rightarrow> Woken h | p \<Rightarrow> p) = pc_ok g c p"
  "(case p of Blocked h \<Rightarrow> Woken h | p \<Rightarrow> p) \<noteq> Blocked g"
  by (cases p; simp)+

lemma waiting_for_cong: "(\<And>t. t < n \<Longrightarrow> arrived (pc_of l' t) = arrived (pc_of l t)) \<Longrightarrow> waiting_for n l' = waiting_for n l"
  unfolding waiting_for_def by (rule arg_cong [of _ _ card]) auto

lemma waiting_for_arrive:
  assumes "t < n" "\<not> arrived (pc_of l t)" "arrived (pc_of l' t)" "\<And>u. u \<noteq> t \<Longrightarrow> pc_of l' u = pc_of l u"
  shows "waiting_for n l = Suc (waiting_for n l')"
proof -
  have "{u. u < n \<and> \<not> arrived (pc_of l u)} = insert t {u. u < n \<and> \<not> arrived (pc_of l' u)}"
    using assms by auto metis+
  then show ?thesis using assms by (simp add: waiting_for_def)
qed

lemma waiting_for_0: "waiting_for n l = 0 \<longleftrightarrow> (\<forall>t < n. arrived (pc_of l t))"
  by (auto simp: waiting_for_def)

lemma latch_ok_init: "latch_ok n (latch_init (int n))"
  by (auto simp: latch_ok_def latch_init_def waiting_for_def)

lemma latch_okD:
  assumes "latch_ok n l" "t < n"
  shows "holding (pc_of l t) \<longleftrightarrow> owner l = Some t" "pc_ok (generation l) (count l) (pc_of l t)"
  using assms by (auto simp: latch_ok_def)

lemma latch_ok_counts:
  assumes "latch_ok n l"
  shows "count l = int (waiting_for n l)" "generation l = 0 \<or> generation l = 1 \<and> count l = 0"
  using assms unfolding latch_ok_def by blast+

lemma latch_okI:
  assumes "\<And>t. t < n \<Longrightarrow> holding (pc_of l t) \<longleftrightarrow> owner l = Some t" "\<And>t. owner l = Some t \<Longrightarrow> t < n"
    "count l = int (waiting_for n l)" "generation l = 0 \<or> generation l = 1 \<and> count l = 0"
    "\<And>t. t < n \<Longrightarrow> pc_ok (generation l) (count l) (pc_of l t)"
    "generation l = 0 \<Longrightarrow> count l = 0 \<Longrightarrow> n = 0 \<or> (\<exists>t < n. pc_of l t = Last_one)"
    "generation l = 1 \<Longrightarrow> (\<exists>t < n. pc_of l t = Notifying) \<or> (\<forall>t < n. \<forall>g. pc_of l t \<noteq> Blocked g)"
  shows "latch_ok n l"
  using assms unfolding latch_ok_def by blast

lemma pc_ok_others: "pc_ok g c p \<Longrightarrow> \<not> holding p \<Longrightarrow> pc_ok g c' p"
  by (cases p) auto

lemma pc_ok_Last_one: "pc_ok g c p \<Longrightarrow> p = Last_one \<Longrightarrow> g = 0"
  by simp

text \<open>A step that only moves \<open>t\<close>, taking or releasing the mutex, or neither.\<close>

lemma latch_ok_goto:
  assumes ok: "latch_ok n l" and t: "t < n" and free: "holding p \<Longrightarrow> owner l = None \<or> owner l = Some t"
    and old: "pc_of l t \<noteq> Last_one" "pc_of l t \<noteq> Notifying"
    and new: "arrived p = arrived (pc_of l t)" "pc_ok (generation l) (count l) p" "generation l = 1 \<Longrightarrow> \<forall>g. p \<noteq> Blocked g"
  shows "latch_ok n (goto t p (l\<lparr>owner := if holding p then Some t else if owner l = Some t then None else owner l\<rparr>))" (is "latch_ok n ?l")
proof (rule latch_okI)
  have "waiting_for n ?l = waiting_for n l" by (rule waiting_for_cong) (simp add: new)
  then show "count ?l = int (waiting_for n ?l)" using latch_ok_counts(1) [OF ok] by simp
  show "generation ?l = 0 \<or> generation ?l = 1 \<and> count ?l = 0" using latch_ok_counts(2) [OF ok] by simp
  show "holding (pc_of ?l u) \<longleftrightarrow> owner ?l = Some u" if "u < n" for u
    using latch_okD(1) [OF ok that] free by auto
  show "u < n" if "owner ?l = Some u" for u using that t ok by (auto simp: latch_ok_def split: if_splits)
  show "pc_ok (generation ?l) (count ?l) (pc_of ?l u)" if "u < n" for u
    using latch_okD(2) [OF ok that] new(2) by simp
  show "n = 0 \<or> (\<exists>u<n. pc_of ?l u = Last_one)" if "generation ?l = 0" "count ?l = 0"
  proof -
    have "generation l = 0" "count l = 0" using that by simp_all
    then obtain u where "u < n" "pc_of l u = Last_one" using ok t unfolding latch_ok_def by blast
    then show ?thesis using old(1) by (intro disjI2 exI [of _ u]) auto
  qed
  show "(\<exists>u<n. pc_of ?l u = Notifying) \<or> (\<forall>u<n. \<forall>g. pc_of ?l u \<noteq> Blocked g)" if "generation ?l = 1"
  proof -
    have "generation l = 1" using that by simp
    then consider u where "u < n" "pc_of l u = Notifying" | "\<forall>u<n. \<forall>g. pc_of l u \<noteq> Blocked g"
      using ok unfolding latch_ok_def by blast
    then show ?thesis
    proof cases
      case 1
      then show ?thesis using old(2) by (intro disjI1 exI [of _ u]) auto
    next
      case 2
      then show ?thesis using new(3) that by simp
    qed
  qed
qed

text \<open>The three statements of the last arrival, which every other thread meets outside, parked or gone.\<close>

lemma latch_ok_others:
  assumes ok: "latch_ok n l" and t: "t < n" "holding (pc_of l t)" and u: "u < n" "u \<noteq> t"
  shows "\<not> holding (pc_of l u)" "pc_ok (generation l) c (pc_of l u)"
  using latch_okD [OF ok t(1)] latch_okD [OF ok u(1)] t u(2) pc_ok_others by auto

lemma latch_ok_count_down:
  assumes ok: "latch_ok n l" and t: "t < n" and pc: "pc_of l t = Gen_read g"
  shows "latch_ok n (goto t (if count l - 1 = 0 then Last_one else Testing g) (l\<lparr>count := count l - 1\<rparr>))"
    (is "latch_ok n ?l")
proof (rule latch_okI)
  have own: "owner l = Some t" and g: "g = generation l" using latch_okD [OF ok t] pc by simp_all
  have wait: "waiting_for n l = Suc (waiting_for n ?l)" by (rule waiting_for_arrive [OF t]) (simp_all add: pc)
  then have g0: "generation l = 0" using latch_ok_counts [OF ok] by linarith
  have others: "\<not> holding (pc_of l u)" "pc_ok (generation l) (count l - 1) (pc_of l u)" if "u < n" "u \<noteq> t" for u
    using latch_ok_others [OF ok t _ that] pc by auto
  show "count ?l = int (waiting_for n ?l)" using latch_ok_counts(1) [OF ok] wait by simp
  show "generation ?l = 0 \<or> generation ?l = 1 \<and> count ?l = 0" using g0 by simp
  show "holding (pc_of ?l u) \<longleftrightarrow> owner ?l = Some u" if "u < n" for u using others(1) [OF that] own by simp
  show "u < n" if "owner ?l = Some u" for u using that own t by simp
  show "pc_ok (generation ?l) (count ?l) (pc_of ?l u)" if "u < n" for u using others(2) [OF that] g g0 by simp
  show "n = 0 \<or> (\<exists>u<n. pc_of ?l u = Last_one)" if "generation ?l = 0" "count ?l = 0"
    using that t by (intro disjI2 exI [of _ t]) simp
  show "(\<exists>u<n. pc_of ?l u = Notifying) \<or> (\<forall>u<n. \<forall>g. pc_of ?l u \<noteq> Blocked g)" if "generation ?l = 1"
    using that g0 by simp
qed

lemma latch_ok_bump:
  assumes ok: "latch_ok n l" and t: "t < n" and pc: "pc_of l t = Last_one"
  shows "latch_ok n (goto t Notifying (l\<lparr>generation := generation l + 1\<rparr>))" (is "latch_ok n ?l")
proof (rule latch_okI)
  have own: "owner l = Some t" and g: "generation l = 0" "count l = 0" using latch_okD [OF ok t] pc by simp_all
  have others: "\<not> holding (pc_of l u)" "pc_ok 0 0 (pc_of l u)" if "u < n" "u \<noteq> t" for u
    using latch_ok_others [OF ok t _ that] pc g by auto
  have "waiting_for n ?l = waiting_for n l" by (rule waiting_for_cong) (simp add: pc)
  then show "count ?l = int (waiting_for n ?l)" using ok by (simp add: latch_ok_def)
  show "generation ?l = 0 \<or> generation ?l = 1 \<and> count ?l = 0" using g by simp
  show "holding (pc_of ?l u) \<longleftrightarrow> owner ?l = Some u" if "u < n" for u using others(1) [OF that] own by simp
  show "u < n" if "owner ?l = Some u" for u using that own t by simp
  show "pc_ok (generation ?l) (count ?l) (pc_of ?l u)" if "u < n" for u
    using others [OF that] g by (cases "pc_of l u") auto
  show "n = 0 \<or> (\<exists>u<n. pc_of ?l u = Last_one)" if "generation ?l = 0" "count ?l = 0" using that g by simp
  show "(\<exists>u<n. pc_of ?l u = Notifying) \<or> (\<forall>u<n. \<forall>g. pc_of ?l u \<noteq> Blocked g)"
    using t by (intro disjI1 exI [of _ t]) simp
qed

lemma latch_ok_notify:
  assumes ok: "latch_ok n l" and t: "t < n" and pc: "pc_of l t = Notifying"
  shows "latch_ok n (goto t Leaving (notify_all l))" (is "latch_ok n ?l")
proof (rule latch_okI)
  have own: "owner l = Some t" and g: "generation l = 1" using latch_okD [OF ok t] pc by simp_all
  have "waiting_for n ?l = waiting_for n l" by (rule waiting_for_cong) (simp add: pc)
  then show "count ?l = int (waiting_for n ?l)" using latch_ok_counts(1) [OF ok] by simp
  show "generation ?l = 0 \<or> generation ?l = 1 \<and> count ?l = 0" using latch_ok_counts(2) [OF ok] by simp
  show "holding (pc_of ?l u) \<longleftrightarrow> owner ?l = Some u" if "u < n" for u
    using latch_okD(1) [OF ok that] own by simp
  show "u < n" if "owner ?l = Some u" for u using that own t by simp
  show "pc_ok (generation ?l) (count ?l) (pc_of ?l u)" if "u < n" for u using latch_okD(2) [OF ok that] g by simp
  show "n = 0 \<or> (\<exists>u<n. pc_of ?l u = Last_one)" if "generation ?l = 0" "count ?l = 0" using that g by simp
  show "(\<exists>u<n. pc_of ?l u = Notifying) \<or> (\<forall>u<n. \<forall>g. pc_of ?l u \<noteq> Blocked g)" by simp
qed

lemma latch_ok_goto_held:
  assumes ok: "latch_ok n l" and t: "t < n" and old: "holding (pc_of l t)" "pc_of l t \<noteq> Last_one" "pc_of l t \<noteq> Notifying"
    and new: "holding p" "arrived p = arrived (pc_of l t)" "pc_ok (generation l) (count l) p"
  shows "latch_ok n (goto t p l)"
proof -
  have own: "owner l = Some t" using latch_okD(1) [OF ok t] old by simp
  then have "l\<lparr>owner := Some t\<rparr> = l" by (cases l) simp
  moreover have "latch_ok n (goto t p (l\<lparr>owner := Some t\<rparr>))"
    using latch_ok_goto [OF ok t, of p] own old new by (cases p) simp_all
  ultimately show ?thesis by metis
qed

lemma latch_ok_next:
  assumes ok: "latch_ok n l" and t: "t < n" and step: "latch_next t l = Some l'"
  shows "latch_ok n l'"
proof (cases "holding (pc_of l t)")
  case True
  then have own: "owner l = Some t" using latch_okD(1) [OF ok t] by simp
  have pc: "pc_ok (generation l) (count l) (pc_of l t)" "generation l = 0 \<or> generation l = 1 \<and> count l = 0"
    using latch_okD(2) [OF ok t] latch_ok_counts(2) [OF ok] by simp_all
  show ?thesis
    using step True pc latch_ok_goto_held [OF ok t True, of Leaving] latch_ok_goto [OF ok t, of Returned]
      latch_ok_goto_held [OF ok t True, of "Gen_read (generation l)"] latch_ok_goto [OF ok t, of "Blocked 0"]
      latch_ok_count_down [OF ok t] latch_ok_bump [OF ok t] latch_ok_notify [OF ok t]
    by (cases "pc_of l t") (auto simp: latch_next_def Let_def own split: if_splits)
next
  case False
  then show ?thesis
    using step latch_okD(2) [OF ok t] latch_ok_goto [OF ok t, of Entered] latch_ok_goto [OF ok t, of "Testing 0"]
    by (cases "pc_of l t") (auto simp: latch_next_def split: if_splits)
qed

lemma latch_ok_step:
  assumes ok: "latch_ok n l" and step: "latch_step n l m l'"
  shows "latch_ok n l'"
  using step
proof cases
  case (runs t)
  then show ?thesis using latch_ok_next ok by blast
next
  case (wakes t g)
  have "owner l \<noteq> Some t" "g = 0" using latch_okD [OF ok wakes(3)] wakes by auto
  then show ?thesis using latch_ok_goto [OF ok wakes(3), of "Woken 0"] wakes by (simp cong: if_cong)
qed

lemma latch_run_ok: "latch_run n ms l \<Longrightarrow> latch_ok n l"
  by (induction rule: latch_run.induct) (auto intro: latch_ok_init latch_ok_step)

section \<open>What the latch promises\<close>

lemma latch_ok_released:
  assumes ok: "latch_ok n l" and "t < n" and "pc_of l t = Leaving \<or> pc_of l t = Returned"
  shows "\<forall>u < n. arrived (pc_of l u)"
proof -
  have "generation l = 1" using latch_okD(2) [OF ok assms(2)] assms(3) by auto
  then have "waiting_for n l = 0" using latch_ok_counts [OF ok] by simp
  then show ?thesis by (simp add: waiting_for_0)
qed

text \<open>C29. Nobody gets past the latch early: in every interleaving of \<open>n\<close> calls of \<open>wait()\<close>,
  once one caller has got to the end of its call, every caller has decremented the counter.\<close>

theorem latch_releases_together:
  assumes "latch_run n ms l" "t < n" "pc_of l t = Leaving \<or> pc_of l t = Returned"
  shows "\<forall>u < n. arrived (pc_of l u)"
  using latch_ok_released [OF latch_run_ok] assms by blast

lemma holder_runs: "holding (pc_of l t) \<Longrightarrow> latch_next t l \<noteq> None"
  by (cases "pc_of l t") (simp_all add: latch_next_def Let_def)

text \<open>There is no lost wake-up and no deadlock: in every reachable state either all
  callers have returned, or one of them can run, without the help of a spurious wake-up.\<close>

theorem latch_no_lost_wakeup:
  assumes "latch_run n ms l"
  shows "(\<forall>t < n. pc_of l t = Returned) \<or> (\<exists>t < n. latch_next t l \<noteq> None)"
proof (rule disjCI)
  assume none: "\<not> (\<exists>t < n. latch_next t l \<noteq> None)"
  have ok: "latch_ok n l" using assms by (rule latch_run_ok)
  have idle: "\<not> holding (pc_of l t)" if "t < n" for t using none holder_runs that by blast
  then have not_last: "pc_of l t \<noteq> Last_one" "pc_of l t \<noteq> Notifying" if "t < n" for t using that by force+
  have free: "owner l = None" using idle ok unfolding latch_ok_def by (cases "owner l") auto
  have parked: "(\<exists>g. pc_of l t = Blocked g) \<or> pc_of l t = Returned" if "t < n" for t
    using none that idle [OF that] free by (cases "pc_of l t") (auto simp: latch_next_def)
  have "arrived (pc_of l t)" if "t < n" for t using parked [OF that] by auto
  then have "waiting_for n l = 0" by (simp add: waiting_for_0)
  then have "count l = 0" "generation l = 0 \<or> generation l = 1" using latch_ok_counts [OF ok] by simp_all
  then have "generation l = 1 \<or> n = 0" using ok not_last unfolding latch_ok_def by blast
  then have "\<forall>t < n. \<forall>g. pc_of l t \<noteq> Blocked g" using ok not_last unfolding latch_ok_def by blast
  then show "\<forall>t < n. pc_of l t = Returned" using parked by blast
qed

text \<open>The work a caller has left; a notification has to pay for the callers it wakes.\<close>

fun work :: "nat \<Rightarrow> pc \<Rightarrow> nat" where
  "work n Outside = 2 * n + 7"
| "work n Entered = 2 * n + 6"
| "work n (Gen_read g) = 2 * n + 5"
| "work n Last_one = 2 * n + 4"
| "work n Notifying = 2 * n + 3"
| "work n (Woken g) = 4"
| "work n (Testing g) = 3"
| "work n (Blocked g) = 2"
| "work n Leaving = 1"
| "work n Returned = 0"

definition work_left :: "nat \<Rightarrow> latch \<Rightarrow> nat" where
  "work_left n l = (\<Sum>t<n. work n (pc_of l t))"

lemma work_left_cong: "pc_of l' = pc_of l \<Longrightarrow> work_left n l' = work_left n l"
  by (simp add: work_left_def)

lemma work_left_goto:
  assumes "t < n"
  shows "work_left n (goto t p l) + work n (pc_of l t) = work_left n l + work n p"
proof -
  have "work_left n (goto t p l) = work n p + (\<Sum>u\<in>{..<n} - {t}. work n (pc_of l u))"
    using assms by (simp add: work_left_def sum.remove [of _ t])
  moreover have "work_left n l = work n (pc_of l t) + (\<Sum>u\<in>{..<n} - {t}. work n (pc_of l u))"
    using assms by (simp add: work_left_def sum.remove [of _ t])
  ultimately show ?thesis by simp
qed

lemma work_left_notify: "work_left n (notify_all l) \<le> work_left n l + 2 * n"
proof -
  have "work n (pc_of (notify_all l) u) \<le> work n (pc_of l u) + 2" for u by (cases "pc_of l u") simp_all
  then have "work_left n (notify_all l) \<le> (\<Sum>u<n. work n (pc_of l u) + 2)" unfolding work_left_def by (intro sum_mono)
  also have "\<dots> = work_left n l + 2 * n" by (simp only: work_left_def sum.distrib) simp
  finally show ?thesis .
qed

lemma work_left_next:
  assumes t: "t < n" and step: "latch_next t l = Some l'"
  shows "work_left n l' < work_left n l"
proof -
  have moved: "work_left n (goto t p k) < work_left n l" if "pc_of k = pc_of l" "work n p < work n (pc_of l t)" for p k
    using work_left_goto [OF t, of p k] work_left_cong [OF that(1)] that by simp
  show ?thesis
  proof (cases "pc_of l t = Notifying")
    case True
    then have "l' = goto t Leaving (notify_all l)" using step by (simp add: latch_next_def)
    then show ?thesis
      using True work_left_goto [OF t, of Leaving "notify_all l"] work_left_notify [of n l] by simp
  next
    case False
    then show ?thesis
      using step by (cases "pc_of l t") (auto simp: latch_next_def Let_def split: if_splits intro!: moved)
  qed
qed

fun runs_in :: "move list \<Rightarrow> nat" where
  "runs_in [] = 0"
| "runs_in (Runs t # ms) = Suc (runs_in ms)"
| "runs_in (Wakes t # ms) = runs_in ms"

lemma runs_in_append [simp]: "runs_in (ms @ ks) = runs_in ms + runs_in ks"
  by (induction ms rule: runs_in.induct) simp_all

lemma runs_in_le [simp]: "runs_in ms \<le> length ms"
  by (induction ms rule: runs_in.induct) simp_all

lemma latch_step_work:
  assumes "latch_step n l m l'"
  shows "runs_in [m] + work_left n l' \<le> work_left n l + 2 * (1 - runs_in [m])"
  using assms
proof cases
  case (runs t)
  then show ?thesis using work_left_next by fastforce
next
  case (wakes t g)
  then show ?thesis using work_left_goto [of t n "Woken g" l] by simp
qed

lemma latch_run_work: "latch_run n ms l \<Longrightarrow> runs_in ms + work_left n l \<le> n * (2 * n + 7) + 2 * (length ms - runs_in ms)"
proof (induction rule: latch_run.induct)
  case latch_start
  then show ?case by (simp add: work_left_def latch_init_def)
next
  case (latch_more ms l m l')
  have "runs_in [m] + work_left n l' \<le> work_left n l + 2 * (1 - runs_in [m])"
    using latch_more(2) by (rule latch_step_work)
  moreover have "runs_in [m] \<le> length [m]" "runs_in ms \<le> length ms" by (rule runs_in_le)+
  ultimately show ?case using latch_more(3) by (simp del: runs_in.simps runs_in_le)
qed

text \<open>A start of \<open>n\<close> workers takes at most \<open>n (2 n + 7)\<close> steps of \<open>wait()\<close>, and two
  more for each spurious wake-up: no schedule keeps the callers going round the predicate forever.\<close>

theorem latch_terminates:
  assumes "latch_run n ms l"
  shows "runs_in ms \<le> n * (2 * n + 7) + 2 * (length ms - runs_in ms)"
  using latch_run_work [OF assms] by simp

section \<open>A concrete start of two workers\<close>

text \<open>Moves executed one after the other.\<close>

fun latch_exec :: "nat \<Rightarrow> move list \<Rightarrow> latch \<Rightarrow> latch option" where
  "latch_exec n [] l = Some l"
| "latch_exec n (Runs t # ms) l =
     (if t < n then (case latch_next t l of Some l' \<Rightarrow> latch_exec n ms l' | None \<Rightarrow> None) else None)"
| "latch_exec n (Wakes t # ms) l =
     (if t < n then (case pc_of l t of Blocked g \<Rightarrow> latch_exec n ms (goto t (Woken g) l) | _ \<Rightarrow> None) else None)"

lemma latch_exec_run: "latch_exec n ks l = Some l' \<Longrightarrow> latch_run n ms l \<Longrightarrow> latch_run n (ms @ ks) l'"
proof (induction n ks l arbitrary: ms rule: latch_exec.induct)
  case (1 n l)
  then show ?case by simp
next
  case (2 n t ks l)
  then obtain k where k: "t < n" "latch_next t l = Some k" "latch_exec n ks k = Some l'"
    by (auto split: if_splits option.splits)
  then have "latch_run n ((ms @ [Runs t]) @ ks) l'" using 2 by (intro 2) (auto intro: latch_more runs)
  then show ?case by simp
next
  case (3 n t ks l)
  then obtain g where k: "t < n" "pc_of l t = Blocked g" "latch_exec n ks (goto t (Woken g) l) = Some l'"
    by (auto split: if_splits pc.splits)
  then have "latch_run n ((ms @ [Wakes t]) @ ks) l'" using 3 by (intro 3) (auto intro: latch_more wakes)
  then show ?case by simp
qed

lemmas latch_exec_start = latch_exec_run [OF _ latch_start, simplified]

text \<open>Thread 0 arrives, parks, is woken for no reason and parks again; thread 1 arrives last and gets
  to the end of its call, then thread 0 returns too.\<close>

definition two_arrivals :: "move list" where
  "two_arrivals = replicate 4 (Runs 0) @ [Wakes 0] @ replicate 2 (Runs 0) @ replicate 5 (Runs 1)"

definition two_returns :: "move list" where
  "two_returns = two_arrivals @ [Runs 1] @ replicate 3 (Runs 0)"

lemmas latch_eval = latch_init_def latch_next_def goto_def notify_all_def Let_def numeral_eq_Suc

lemma two_arrivals_run:
  "\<exists>l. latch_run 2 two_arrivals l \<and> pc_of l 1 = Leaving \<and> pc_of l 0 = Woken 0"
proof -
  have "\<exists>l. latch_exec 2 two_arrivals (latch_init (int 2)) = Some l \<and> pc_of l 1 = Leaving \<and> pc_of l 0 = Woken 0"
    by (simp add: two_arrivals_def latch_eval)
  then show ?thesis using latch_exec_start by blast
qed

lemma two_returns_run:
  "\<exists>l. latch_run 2 two_returns l \<and> (\<forall>t < 2. pc_of l t = Returned)"
proof -
  have "\<exists>l. latch_exec 2 two_returns (latch_init (int 2)) = Some l \<and> (\<forall>t < 2. pc_of l t = Returned)"
    by (simp add: two_returns_def two_arrivals_def latch_eval less_Suc_eq)
  then show ?thesis using latch_exec_start by blast
qed

theorem latch_releases_together_witness:
  "\<exists>l. latch_run 2 two_arrivals l \<and> pc_of l 1 = Leaving \<and> arrived (pc_of l 0)"
proof -
  obtain l where l: "latch_run 2 two_arrivals l" "pc_of l 1 = Leaving" using two_arrivals_run by blast
  then have "arrived (pc_of l 0)" using latch_releases_together [of 2 two_arrivals l 1] by simp
  then show ?thesis using l by blast
qed

theorem latch_no_lost_wakeup_witness:
  "\<exists>l. latch_run 2 two_arrivals l \<and> (\<exists>t < 2. latch_next t l \<noteq> None)"
proof -
  obtain l where l: "latch_run 2 two_arrivals l" "pc_of l 0 = Woken 0" using two_arrivals_run by blast
  then have "\<exists>t < 2. latch_next t l \<noteq> None" using latch_no_lost_wakeup [of 2 two_arrivals l] by force
  then show ?thesis using l by blast
qed

theorem latch_terminates_witness:
  "\<exists>l. latch_run 2 two_returns l \<and> runs_in two_returns \<le> 2 * (2 * 2 + 7) + 2 * (length two_returns - runs_in two_returns)"
proof -
  obtain l where l: "latch_run 2 two_returns l" using two_returns_run by blast
  then show ?thesis using latch_terminates [of 2 two_returns l] by blast
qed

end
