(* ===== verification/Libuv_Setup.thy ===== *)
theory Libuv_Setup
  imports Sockets Args Libuv
begin

text \<open>
  The set-up of the libuv experiment, \<^verbatim>\<open>libuv/relay.cpp\<close>: \<open>relay::run\<close>, \<open>thread::start\<close>,
  \<open>start_udp_listener\<close> and its helpers, as programs over a trace of system calls, and what a new
  thread does before its event loop. Sockets are named by the thread they belong to and their role.
\<close>

section \<open>Listeners\<close>

text \<open>\<open>libuv_call\<close>, and \<open>die_on_error\<close> around a system call.\<close>

definition libuv_call :: "string \<Rightarrow> uv_call \<Rightarrow> unit prog" where
  "libuv_call fn c = bindP (callP (Uv c)) (\<lambda>code. case die_on_error code fn of Inl e \<Rightarrow> failP e | Inr _ \<Rightarrow> returnP ())"

text \<open>What the preprocessor finds defined.\<close>

datatype platform = Has_reuseport_lb | Has_reuseport | Windows | Other_platform

definition make_ip4_addr_any_with_port :: "u16 \<Rightarrow> (string \<times> u16) prog" where
  "make_ip4_addr_any_with_port port =
     thenP (libuv_call ''uv_ip4_addr'' (Uv_ip4_addr ''0.0.0.0'' port)) (returnP (''0.0.0.0'', port))"

text \<open>A failed \<open>WSAIoctl\<close> throws, through functions that are \<open>noexcept\<close>: \<open>std::terminate\<close>.\<close>

definition enable_reuse_port :: "platform \<Rightarrow> uv_socket \<Rightarrow> nat \<Rightarrow> unit prog" where
  "enable_reuse_port pf socket thread_id =
     thenP (libuv_call ''uv_fileno'' (Uv_fileno thread_id socket))
     (case pf of
        Has_reuseport_lb \<Rightarrow> libuv_call ''setsockopt'' (Uv_setsockopt thread_id socket ''SO_REUSEPORT_LB'')
      | Has_reuseport \<Rightarrow> libuv_call ''setsockopt'' (Uv_setsockopt thread_id socket ''SO_REUSEPORT'')
      | Windows \<Rightarrow> bindP (callP (Uv (Wsa_ioctl thread_id socket thread_id))) (\<lambda>rv.
          if rv \<noteq> 0 then failP (Abort ''terminate'') else returnP ())
      | Other_platform \<Rightarrow> returnP ())"

definition AF_INET :: int where "AF_INET = 2"

definition UV_UDP_RECVMMSG :: int where "UV_UDP_RECVMMSG = 256"

definition UV_UDP_REUSEADDR :: int where "UV_UDP_REUSEADDR = 4"

definition bind_flags :: "platform \<Rightarrow> int" where
  "bind_flags pf = (if pf = Windows then 0 else UV_UDP_REUSEADDR)"

definition start_udp_listener :: "platform \<Rightarrow> bool \<Rightarrow> nat \<Rightarrow> uv_socket \<Rightarrow> u16 \<Rightarrow> unit prog" where
  "start_udp_listener pf have_mmsg tid socket port =
     thenP (libuv_call ''uv_udp_init_ex''
        (Uv_udp_init_ex tid socket (or AF_INET (if have_mmsg then UV_UDP_RECVMMSG else 0))))
    (thenP (enable_reuse_port pf socket tid)
    (bindP (make_ip4_addr_any_with_port port) (\<lambda>(host, port).
     thenP (libuv_call ''uv_udp_bind'' (Uv_udp_bind tid socket host port (bind_flags pf)))
           (libuv_call ''uv_udp_recv_start'' (Uv_udp_recv_start tid socket)))))"

section \<open>Threads\<close>

text \<open>\<open>std::thread\<close> throws when no thread can be created, and \<open>run\<close> is \<open>noexcept\<close>.\<close>

definition start_sys_thread :: "nat \<Rightarrow> unit prog" where
  "start_sys_thread tid = bindP (callP (Uv (Start_sys_thread tid))) (\<lambda>code.
     if code < 0 then failP (Abort ''terminate'') else returnP ())"

definition thread_start :: "platform \<Rightarrow> bool \<Rightarrow> u16 config \<Rightarrow> nat \<Rightarrow> unit prog" where
  "thread_start pf have_mmsg conf tid =
     thenP (libuv_call ''uv_loop_init'' (Uv_loop_init tid))
    (thenP (start_udp_listener pf have_mmsg tid Client_socket (conf_client_port conf))
    (thenP (start_udp_listener pf have_mmsg tid Peer_socket (conf_peer_port conf))
           (start_sys_thread tid)))"

text \<open>What the new thread runs before its event loop.\<close>

definition thread_main :: "nat \<Rightarrow> nat \<Rightarrow> ('ep, 'l) relay \<Rightarrow> ('ep, 'l) relay res" where
  "thread_main t tid r = on_thread_start t (of_nat tid) r"

definition statistics_print_interval_ms :: int where "statistics_print_interval_ms = 5 * 1000"

definition run_libuv :: "platform \<Rightarrow> bool \<Rightarrow> u16 config \<Rightarrow> int prog" where
  "run_libuv pf have_mmsg conf =
     thenP (libuv_call ''uv_timer_init'' Uv_timer_init)
    (thenP (libuv_call ''uv_timer_start'' (Uv_timer_start 0 statistics_print_interval_ms))
    (thenP (mapP (thread_start pf have_mmsg conf) [0..<unat (conf_threads conf)])
           (callP (Uv Uv_run_main))))"

text \<open>The constructor: the address of the client port is resolved, then the logic is set up.\<close>

definition relay_construct :: "u16 config \<Rightarrow> 'l \<Rightarrow> ((string \<times> u16) \<times> ('ep, 'l) relay) prog" where
  "relay_construct conf l =
     bindP (make_ip4_addr_any_with_port (conf_client_port conf)) (\<lambda>alloc_address.
     returnP (alloc_address, relay_init (conf_threads conf) l))"

section \<open>Straight-line programs\<close>

text \<open>\<open>makes_calls m cs\<close>: \<open>m\<close> makes the calls \<open>cs\<close> in order, and aborts after the first that fails.\<close>

definition failed :: "os \<Rightarrow> syscall list \<Rightarrow> syscall \<Rightarrow> bool" where
  "failed os tr c \<longleftrightarrow> (case c of Uv (Wsa_ioctl _ _ _) \<Rightarrow> os tr c \<noteq> 0 | _ \<Rightarrow> os tr c < 0)"

definition makes_calls :: "'a prog \<Rightarrow> syscall list \<Rightarrow> bool" where
  "makes_calls m cs \<longleftrightarrow> (\<forall>os tr. case m os tr of
       (Inr x, tr') \<Rightarrow> tr' = tr @ cs \<and> (\<forall>k < length cs. \<not> failed os (tr @ take k cs) (cs ! k))
     | (Inl e, tr') \<Rightarrow> (\<exists>s. e = Abort s) \<and> (\<exists>k < length cs. tr' = tr @ take (Suc k) cs
          \<and> failed os (tr @ take k cs) (cs ! k) \<and> (\<forall>j < k. \<not> failed os (tr @ take j cs) (cs ! j))))"

lemma makes_calls_returns: "makes_calls m cs \<Longrightarrow> m os tr = (Inr x, tr') \<Longrightarrow>
    tr' = tr @ cs \<and> (\<forall>k < length cs. \<not> failed os (tr @ take k cs) (cs ! k))"
  unfolding makes_calls_def by (drule spec [of _ os], drule spec [of _ tr]) simp

lemma makes_calls_fails: "makes_calls m cs \<Longrightarrow> m os tr = (Inl e, tr') \<Longrightarrow>
    (\<exists>s. e = Abort s) \<and> (\<exists>k < length cs. tr' = tr @ take (Suc k) cs
          \<and> failed os (tr @ take k cs) (cs ! k) \<and> (\<forall>j < k. \<not> failed os (tr @ take j cs) (cs ! j)))"
  unfolding makes_calls_def by (drule spec [of _ os], drule spec [of _ tr]) simp

lemma makes_callsI:
  assumes "\<And>os tr x tr'. m os tr = (Inr x, tr') \<Longrightarrow>
      tr' = tr @ cs \<and> (\<forall>k < length cs. \<not> failed os (tr @ take k cs) (cs ! k))"
    and "\<And>os tr e tr'. m os tr = (Inl e, tr') \<Longrightarrow> (\<exists>s. e = Abort s) \<and> (\<exists>k < length cs. tr' = tr @ take (Suc k) cs
          \<and> failed os (tr @ take k cs) (cs ! k) \<and> (\<forall>j < k. \<not> failed os (tr @ take j cs) (cs ! j)))"
  shows "makes_calls m cs"
  unfolding makes_calls_def using assms by (auto split: prod.split sum.split)

lemma makes_calls_return [simp]: "makes_calls (returnP x) []"
  by (rule makes_callsI) (simp_all add: returnP_def)

lemma no_failure_append:
  assumes "\<forall>k < length cs. \<not> failed os (tr @ take k cs) (cs ! k)"
    and "\<forall>j < i. \<not> failed os ((tr @ cs) @ take j ds) (ds ! j)"
  shows "\<forall>j < length cs + i. \<not> failed os (tr @ take j (cs @ ds)) ((cs @ ds) ! j)"
proof (intro allI impI)
  fix j assume j: "j < length cs + i"
  show "\<not> failed os (tr @ take j (cs @ ds)) ((cs @ ds) ! j)"
  proof (cases "j < length cs")
    case True
    then show ?thesis using assms(1) by (simp add: nth_append)
  next
    case False
    then have "j - length cs < i" using j by simp
    then show ?thesis using assms(2) False by (simp add: nth_append)
  qed
qed

lemma makes_calls_bind:
  assumes m: "makes_calls m cs" and k: "\<And>x. makes_calls (f x) ds"
  shows "makes_calls (bindP m f) (cs @ ds)"
proof (rule makes_callsI)
  fix os tr and y :: 'b and tr'
  assume "bindP m f os tr = (Inr y, tr')"
  then obtain x tr1 where 1: "m os tr = (Inr x, tr1)" "f x os tr1 = (Inr y, tr')"
    by (auto simp: bindP_def split: prod.splits sum.splits)
  note r = makes_calls_returns [OF m 1(1)] makes_calls_returns [OF k 1(2)]
  from no_failure_append [OF conjunct2 [OF r(1)], of "length ds" ds] r
  show "tr' = tr @ (cs @ ds) \<and> (\<forall>k < length (cs @ ds). \<not> failed os (tr @ take k (cs @ ds)) ((cs @ ds) ! k))"
    by simp
next
  fix os tr e tr'
  assume fails: "bindP m f os tr = (Inl e :: 'b res, tr')"
  show "(\<exists>s. e = Abort s) \<and> (\<exists>k < length (cs @ ds). tr' = tr @ take (Suc k) (cs @ ds)
    \<and> failed os (tr @ take k (cs @ ds)) ((cs @ ds) ! k)
    \<and> (\<forall>j < k. \<not> failed os (tr @ take j (cs @ ds)) ((cs @ ds) ! j)))"
  proof (cases "m os tr")
    case (Pair r1 tr1)
    show ?thesis
    proof (cases r1)
      case (Inl e1)
      with fails Pair have "m os tr = (Inl e, tr')" by (auto simp: bindP_def)
      from makes_calls_fails [OF m this] obtain s i where i: "e = Abort s" "i < length cs"
        "tr' = tr @ take (Suc i) cs" "failed os (tr @ take i cs) (cs ! i)"
        "\<forall>j < i. \<not> failed os (tr @ take j cs) (cs ! j)" by blast
      then show ?thesis by (intro conjI exI [of _ s] exI [of _ i]) (auto simp: nth_append)
    next
      case (Inr x)
      with Pair have "m os tr = (Inr x, tr1)" by simp
      note first = makes_calls_returns [OF m this]
      have "f x os tr1 = (Inl e, tr')" using fails Pair Inr by (simp add: bindP_def)
      from makes_calls_fails [OF k this] obtain s i where i: "e = Abort s" "i < length ds"
        "tr' = tr1 @ take (Suc i) ds" "failed os (tr1 @ take i ds) (ds ! i)"
        "\<forall>j < i. \<not> failed os (tr1 @ take j ds) (ds ! j)" by blast
      from i(5) first have before: "\<forall>j < length cs + i. \<not> failed os (tr @ take j (cs @ ds)) ((cs @ ds) ! j)"
        by (intro no_failure_append) simp_all
      show ?thesis
        by (intro conjI exI [of _ s] exI [of _ "length cs + i"] before) (use i first in simp_all)
    qed
  qed
qed

lemma makes_calls_then: "makes_calls m cs \<Longrightarrow> makes_calls n ds \<Longrightarrow> makes_calls (thenP m n) (cs @ ds)"
  by (simp add: thenP_def makes_calls_bind)

lemma makes_calls_map:
  assumes "\<And>x. makes_calls (f x) (cs x)"
  shows "makes_calls (mapP f xs) (concat (map cs xs))"
proof (induction xs)
  case (Cons x xs)
  have "makes_calls (mapP f (x # xs)) (cs x @ (concat (map cs xs) @ []))"
    unfolding mapP.simps by (intro makes_calls_bind assms Cons.IH) simp
  then show ?case by simp
qed simp

lemma makes_calls_libuv_call:
  assumes "\<And>i s n. c \<noteq> Wsa_ioctl i s n"
  shows "makes_calls (libuv_call fn c) [Uv c]"
  using assms
  by (intro makes_callsI)
    (auto simp: libuv_call_def die_on_error_def failed_def prog_defs split: if_splits uv_call.splits)

section \<open>The calls of a run\<close>

definition reuse_calls :: "platform \<Rightarrow> uv_socket \<Rightarrow> nat \<Rightarrow> syscall list" where
  "reuse_calls pf socket i =
     (case pf of
        Has_reuseport_lb \<Rightarrow> [Uv (Uv_setsockopt i socket ''SO_REUSEPORT_LB'')]
      | Has_reuseport \<Rightarrow> [Uv (Uv_setsockopt i socket ''SO_REUSEPORT'')]
      | Windows \<Rightarrow> [Uv (Wsa_ioctl i socket i)]
      | Other_platform \<Rightarrow> [])"

definition listener_calls :: "platform \<Rightarrow> bool \<Rightarrow> nat \<Rightarrow> uv_socket \<Rightarrow> u16 \<Rightarrow> syscall list" where
  "listener_calls pf have_mmsg i socket port =
     [Uv (Uv_udp_init_ex i socket (if have_mmsg then 258 else 2)), Uv (Uv_fileno i socket)] @ reuse_calls pf socket i
     @ [Uv (Uv_ip4_addr ''0.0.0.0'' port), Uv (Uv_udp_bind i socket ''0.0.0.0'' port (bind_flags pf)),
        Uv (Uv_udp_recv_start i socket)]"

definition thread_calls :: "platform \<Rightarrow> bool \<Rightarrow> u16 config \<Rightarrow> nat \<Rightarrow> syscall list" where
  "thread_calls pf have_mmsg conf i =
     [Uv (Uv_loop_init i)] @ listener_calls pf have_mmsg i Client_socket (conf_client_port conf)
     @ listener_calls pf have_mmsg i Peer_socket (conf_peer_port conf) @ [Uv (Start_sys_thread i)]"

definition run_calls :: "platform \<Rightarrow> bool \<Rightarrow> u16 config \<Rightarrow> syscall list" where
  "run_calls pf have_mmsg conf =
     [Uv Uv_timer_init, Uv (Uv_timer_start 0 5000)]
     @ concat (map (thread_calls pf have_mmsg conf) [0..<unat (conf_threads conf)])"

lemma makes_calls_checked:
  assumes "\<And>os tr. failed os tr c \<longleftrightarrow> P (os tr c)"
  shows "makes_calls (bindP (callP c) (\<lambda>code. if P code then failP (Abort s) else returnP ())) [c]"
  by (intro makes_callsI) (auto simp: assms prog_defs split: if_splits)

lemma makes_calls_reuse:
  "makes_calls (enable_reuse_port pf socket i) ([Uv (Uv_fileno i socket)] @ reuse_calls pf socket i)"
  unfolding enable_reuse_port_def
proof (rule makes_calls_then)
  show "makes_calls (case pf of
        Has_reuseport_lb \<Rightarrow> libuv_call ''setsockopt'' (Uv_setsockopt i socket ''SO_REUSEPORT_LB'')
      | Has_reuseport \<Rightarrow> libuv_call ''setsockopt'' (Uv_setsockopt i socket ''SO_REUSEPORT'')
      | Windows \<Rightarrow> bindP (callP (Uv (Wsa_ioctl i socket i))) (\<lambda>rv.
          if rv \<noteq> 0 then failP (Abort ''terminate'') else returnP ())
      | Other_platform \<Rightarrow> returnP ()) (reuse_calls pf socket i)"
    by (cases pf)
      (auto simp: reuse_calls_def intro!: makes_calls_libuv_call makes_calls_checked, simp_all add: failed_def)
qed (simp add: makes_calls_libuv_call)

lemma makes_calls_address:
  "makes_calls (make_ip4_addr_any_with_port port) [Uv (Uv_ip4_addr ''0.0.0.0'' port)]"
proof -
  have "makes_calls (make_ip4_addr_any_with_port port) ([Uv (Uv_ip4_addr ''0.0.0.0'' port)] @ [])"
    unfolding make_ip4_addr_any_with_port_def
    by (intro makes_calls_then makes_calls_libuv_call makes_calls_return) simp
  then show ?thesis by simp
qed

lemma address_value: "make_ip4_addr_any_with_port port os tr = (Inr a, tr') \<Longrightarrow> a = (''0.0.0.0'', port)"
  by (auto simp: make_ip4_addr_any_with_port_def prog_defs split: prod.splits sum.splits)

lemma bindP_address:
  "bindP (make_ip4_addr_any_with_port port) f = thenP (make_ip4_addr_any_with_port port) (f (''0.0.0.0'', port))"
  by (auto simp: fun_eq_iff thenP_def bindP_def split: prod.splits sum.splits dest: address_value)

lemma makes_calls_listener:
  "makes_calls (start_udp_listener pf have_mmsg i socket port) (listener_calls pf have_mmsg i socket port)"
proof -
  let ?flags = "or AF_INET (if have_mmsg then UV_UDP_RECVMMSG else 0)"
  have flags: "?flags = (if have_mmsg then 258 else 2)" by (simp add: AF_INET_def UV_UDP_RECVMMSG_def)
  have "makes_calls (start_udp_listener pf have_mmsg i socket port)
    ([Uv (Uv_udp_init_ex i socket ?flags)] @ ([Uv (Uv_fileno i socket)] @ reuse_calls pf socket i)
     @ [Uv (Uv_ip4_addr ''0.0.0.0'' port)] @ [Uv (Uv_udp_bind i socket ''0.0.0.0'' port (bind_flags pf))]
     @ [Uv (Uv_udp_recv_start i socket)])"
    unfolding start_udp_listener_def bindP_address prod.case
    by (intro makes_calls_then makes_calls_reuse makes_calls_address makes_calls_libuv_call) simp_all
  then show ?thesis by (simp add: listener_calls_def flags)
qed

lemma makes_calls_thread:
  "makes_calls (thread_start pf have_mmsg conf i) (thread_calls pf have_mmsg conf i)"
  unfolding thread_start_def thread_calls_def start_sys_thread_def
  by (intro makes_calls_then makes_calls_listener makes_calls_libuv_call makes_calls_checked)
    (simp_all add: failed_def)

lemma makes_calls_set_up:
  "makes_calls (thenP (libuv_call ''uv_timer_init'' Uv_timer_init)
    (thenP (libuv_call ''uv_timer_start'' (Uv_timer_start 0 statistics_print_interval_ms))
      (mapP (thread_start pf have_mmsg conf) [0..<unat (conf_threads conf)]))) (run_calls pf have_mmsg conf)"
proof -
  have "run_calls pf have_mmsg conf = [Uv Uv_timer_init] @ [Uv (Uv_timer_start 0 statistics_print_interval_ms)]
     @ concat (map (thread_calls pf have_mmsg conf) [0..<unat (conf_threads conf)])"
    by (simp add: run_calls_def statistics_print_interval_ms_def)
  then show ?thesis
    by (simp only:) (intro makes_calls_then makes_calls_map makes_calls_thread makes_calls_libuv_call; simp)
qed

lemma thenP_assoc: "thenP (thenP m n) k = thenP m (thenP n k)"
  by (auto simp: fun_eq_iff thenP_def bindP_def split: prod.splits sum.splits)

lemma bind_in_listener:
  "Uv (Uv_udp_bind i s host p flags) \<in> set (listener_calls pf have_mmsg j s' port)
     \<longleftrightarrow> i = j \<and> s = s' \<and> host = ''0.0.0.0'' \<and> p = port \<and> flags = bind_flags pf"
  by (cases pf) (auto simp: listener_calls_def reuse_calls_def)

lemma bind_in_thread:
  "Uv (Uv_udp_bind i s host p flags) \<in> set (thread_calls pf have_mmsg conf j)
     \<longleftrightarrow> i = j \<and> host = ''0.0.0.0'' \<and> flags = bind_flags pf
       \<and> p = (case s of Client_socket \<Rightarrow> conf_client_port conf | Peer_socket \<Rightarrow> conf_peer_port conf)"
  by (cases s) (auto simp: thread_calls_def bind_in_listener)

section \<open>The run\<close>

text \<open>\<open>run\<close> of the libuv experiment makes exactly these calls, whatever the operating system
  answers, or aborts after the first of them that fails: the statistics timer, then for each
  thread in turn its loop, its client listener and its peer listener, on the configured ports,
  and last the system thread, which so never runs before both its sockets receive.\<close>

theorem libuv_run_order:
  "(case run_libuv pf have_mmsg conf os [] of
     (Inr x, calls) \<Rightarrow> calls = run_calls pf have_mmsg conf @ [Uv Uv_run_main]
   | (Inl e, calls) \<Rightarrow> (\<exists>s. e = Abort s) \<and> (\<exists>k < length (run_calls pf have_mmsg conf).
        calls = take (Suc k) (run_calls pf have_mmsg conf)
      \<and> failed os (take k (run_calls pf have_mmsg conf)) (run_calls pf have_mmsg conf ! k)))
   \<and> (\<forall>i socket host port flags. Uv (Uv_udp_bind i socket host port flags) \<in> set (run_calls pf have_mmsg conf)
        \<longleftrightarrow> i < unat (conf_threads conf) \<and> host = ''0.0.0.0'' \<and> flags = bind_flags pf
          \<and> port = (case socket of Client_socket \<Rightarrow> conf_client_port conf | Peer_socket \<Rightarrow> conf_peer_port conf))"
proof (intro conjI)
  define m where "m = thenP (libuv_call ''uv_timer_init'' Uv_timer_init)
    (thenP (libuv_call ''uv_timer_start'' (Uv_timer_start 0 statistics_print_interval_ms))
      (mapP (thread_start pf have_mmsg conf) [0..<unat (conf_threads conf)]))"
  have run: "run_libuv pf have_mmsg conf = thenP m (callP (Uv Uv_run_main))"
    by (simp add: run_libuv_def m_def thenP_assoc)
  have m: "makes_calls m (run_calls pf have_mmsg conf)" unfolding m_def by (rule makes_calls_set_up)
  show "case run_libuv pf have_mmsg conf os [] of
     (Inr x, calls) \<Rightarrow> calls = run_calls pf have_mmsg conf @ [Uv Uv_run_main]
   | (Inl e, calls) \<Rightarrow> (\<exists>s. e = Abort s) \<and> (\<exists>k < length (run_calls pf have_mmsg conf).
        calls = take (Suc k) (run_calls pf have_mmsg conf)
      \<and> failed os (take k (run_calls pf have_mmsg conf)) (run_calls pf have_mmsg conf ! k))"
  proof (cases "m os []")
    case (Pair res tr)
    show ?thesis
    proof (cases res)
      case (Inl e)
      with Pair have "m os [] = (Inl e, tr)" by simp
      with makes_calls_fails [OF m this] run Pair Inl show ?thesis by (auto simp: thenP_def bindP_def)
    next
      case (Inr x)
      with Pair have "m os [] = (Inr x, tr)" by simp
      with makes_calls_returns [OF m this] run show ?thesis by (simp add: thenP_def bindP_def callP_def)
    qed
  qed
  show "\<forall>i socket host port flags. Uv (Uv_udp_bind i socket host port flags) \<in> set (run_calls pf have_mmsg conf)
        \<longleftrightarrow> i < unat (conf_threads conf) \<and> host = ''0.0.0.0'' \<and> flags = bind_flags pf
          \<and> port = (case socket of Client_socket \<Rightarrow> conf_client_port conf | Peer_socket \<Rightarrow> conf_peer_port conf)"
    by (auto simp: run_calls_def bind_in_thread)
qed

end
