(* ===== verification/Relay_Soundness.thy ===== *)
theory Relay_Soundness
  imports Relay
begin

text \<open>
  Type soundness of \<open>urn::relay\<close>: a discipline for the calls a library makes into the class (threads
  are started with an index in range before they handle anything, statistics intervals are not
  zero), checked call by call, and the proof that calls which obey it never fault, for any
  library whose packets are well formed and whose sends return.
\<close>

section \<open>The discipline\<close>

fun event_typed :: "nat \<Rightarrow> nat set \<Rightarrow> ('ep, 'p) relay_event \<Rightarrow> bool" where
  "event_typed n T (Thread_start t i) \<longleftrightarrow> unat i < n"
| "event_typed n T (Client_received t src p) \<longleftrightarrow> t \<in> T"
| "event_typed n T (Peer_received t p) \<longleftrightarrow> t \<in> T"
| "event_typed n T (Peer_data t p) \<longleftrightarrow> t \<in> T"
| "event_typed n T (Session_sent t k) \<longleftrightarrow> t \<in> T"
| "event_typed n T (Statistics_tick interval) \<longleftrightarrow> interval \<noteq> 0"

fun started :: "nat set \<Rightarrow> ('ep, 'p) relay_event \<Rightarrow> nat set" where
  "started T (Thread_start t i) = insert t T"
| "started T _ = T"

fun calls_typed :: "nat \<Rightarrow> nat set \<Rightarrow> ('ep, 'p) relay_event list \<Rightarrow> bool" where
  "calls_typed n T [] \<longleftrightarrow> True"
| "calls_typed n T (e # es) \<longleftrightarrow> event_typed n T e \<and> calls_typed n (started T e) es"

definition state_typed :: "nat \<Rightarrow> nat set \<Rightarrow> ('ep, 'l) relay \<Rightarrow> bool" where
  "state_typed n T r \<longleftrightarrow> length (per_thread_statistics r) = n \<and> (\<forall>t \<in> T. thread_ok t r)"

definition library_typed :: "('ep, 'p, 'l) library \<Rightarrow> bool" where
  "library_typed L \<longleftrightarrow> (\<forall>l p. length (packet_data L l p) = unat (packet_size L p))
     \<and> (\<forall>t s p r. thread_ok t r \<longrightarrow> (\<exists>r'. session_start_send L t s p r = Inr r'
          \<and> length (per_thread_statistics r') = length (per_thread_statistics r)
          \<and> this_thread_statistics r' = this_thread_statistics r))"

section \<open>Preservation and progress\<close>

text \<open>What the discipline depends on.\<close>

definition same_threads :: "('ep, 'l) relay \<Rightarrow> ('ep, 'l) relay \<Rightarrow> bool" where
  "same_threads r r' \<longleftrightarrow> length (per_thread_statistics r') = length (per_thread_statistics r)
     \<and> this_thread_statistics r' = this_thread_statistics r"

lemma same_threads_typed: "same_threads r r' \<Longrightarrow> state_typed n T r \<Longrightarrow> state_typed n T r'"
  by (auto simp: same_threads_def state_typed_def thread_ok_def)

lemma library_typed_sizes:
  assumes "library_typed L"
  shows "packet_size L p = 8 \<longleftrightarrow> length (packet_data L l p) = 8" "8 \<le> packet_size L p \<longleftrightarrow> 8 \<le> length (packet_data L l p)"
proof -
  have "relay_library L (\<lambda>_ _. True)" using assms by unfold_locales (simp add: library_typed_def)
  from relay_library.size_cases [OF this] show "packet_size L p = 8 \<longleftrightarrow> length (packet_data L l p) = 8"
    "8 \<le> packet_size L p \<longleftrightarrow> 8 \<le> length (packet_data L l p)" by blast+
qed

lemma counted:
  assumes "thread_ok t r"
  obtains r1 where "count_in t k r = Inr r1" "same_threads r r1" "lib r1 = lib r" "thread_ok t r1"
proof -
  from count_returns(1) [OF assms] obtain r1 where r1: "count_in t k r = Inr r1" by blast
  with count_frame(1) [OF r1] thread_ok_count(1) [OF r1] assms that show ?thesis
    by (auto simp: same_threads_def)
qed

lemma client_typed:
  assumes L: "library_typed L" and t: "thread_ok t r"
  shows "\<exists>r'. on_client_received L t src p r = Inr r' \<and> same_threads r r'"
proof -
  from counted [OF t] obtain r1 where
    r1: "count_in t (packet_size L p) r = Inr r1" "same_threads r r1" "lib r1 = lib r" by blast
  show ?thesis using r1 library_typed_sizes(1) [OF L, of p "lib r"]
    by (auto simp: on_client_received_eq get_session_id_def same_threads_def)
qed

lemma peer_typed:
  assumes L: "library_typed L" and t: "thread_ok t r"
  shows "\<exists>b r'. on_peer_received L t p r = Inr (b, r') \<and> same_threads r r'"
proof -
  from counted [OF t] obtain r1 where
    r1: "count_in t (packet_size L p) r = Inr r1" "same_threads r r1" "lib r1 = lib r" "thread_ok t r1" by blast
  have send: "\<exists>r'. session_start_send L t s p r1 = Inr r' \<and> same_threads r r'" for s
    using L r1(2,4) unfolding library_typed_def same_threads_def by metis
  have size: "8 \<le> packet_size L p \<longleftrightarrow> 8 \<le> length (packet_data L (lib r) p)" by (rule library_typed_sizes(2) [OF L])
  show ?thesis
  proof (cases "8 \<le> packet_size L p \<and> sessions r1 (load_le (take 8 (packet_data L (lib r) p))) \<noteq> None")
    case True
    then obtain s where "sessions r1 (load_le (take 8 (packet_data L (lib r) p))) = Some s" by blast
    with True send [of s] r1 size show ?thesis
      by (auto simp: on_peer_received_def get_session_id_def find_session_def)
  next
    case False
    then have "on_peer_received L t p r = Inr (False, restart_peer_receive L r1)"
      using r1 size by (auto simp: on_peer_received_def get_session_id_def find_session_def)
    with r1(2) show ?thesis by (auto simp: same_threads_def)
  qed
qed

lemma peer_data_typed:
  assumes L: "library_typed L" and t: "thread_ok t r"
  shows "\<exists>s r'. receive_peer_data L t p r = Inr (s, r') \<and> same_threads r r'"
proof -
  from counted [OF t] obtain r1 where
    r1: "count_in t (packet_size L p) r = Inr r1" "same_threads r r1" "lib r1 = lib r" by blast
  then show ?thesis using library_typed_sizes(2) [OF L, of p "lib r"]
    by (auto simp: receive_peer_data_def get_session_id_def)
qed

lemma sent_typed: "thread_ok t r \<Longrightarrow> \<exists>r'. on_session_sent f t k r = Inr r' \<and> same_threads r r'"
  using on_session_sent_returns [of t r f k] by (auto simp: same_threads_def)

lemma tick_typed: "interval \<noteq> 0 \<Longrightarrow> \<exists>line r'. on_statistics_tick interval r = Inr (line, r') \<and> same_threads r r'"
  using print_statistics_returns [of interval "per_thread_statistics r"]
  by (auto simp: on_statistics_tick_def same_threads_def)

lemma thread_start_typed:
  assumes "unat i < n" and "state_typed n T r"
  shows "\<exists>r'. on_thread_start t i r = Inr r' \<and> state_typed n (insert t T) r'"
  using assms by (auto simp: on_thread_start_def state_typed_def thread_ok_def)

lemma relay_step_typed:
  assumes L: "library_typed L" and r: "state_typed n T r" and e: "event_typed n T e"
  shows "\<exists>r'. relay_step L e r = Inr r' \<and> state_typed n (started T e) r'"
proof -
  have t: "thread_ok t r" if "t \<in> T" for t using r that by (simp add: state_typed_def)
  show ?thesis
  proof (cases e)
    case (Thread_start t i)
    then show ?thesis using thread_start_typed [OF _ r] e by simp
  next
    case (Client_received t src p)
    then show ?thesis using client_typed [OF L, of t r src p] t e same_threads_typed [OF _ r] by auto
  next
    case (Peer_received t p)
    then show ?thesis using peer_typed [OF L, of t r p] t e same_threads_typed [OF _ r] by auto
  next
    case (Peer_data t p)
    then show ?thesis using peer_data_typed [OF L, of t r p] t e same_threads_typed [OF _ r] by auto
  next
    case (Session_sent t k)
    then show ?thesis using sent_typed [of t r "peer_start_receive L" k] t e same_threads_typed [OF _ r] by auto
  next
    case (Statistics_tick interval)
    then show ?thesis using tick_typed [of interval r] e same_threads_typed [OF _ r] by auto
  qed
qed

lemma relay_run_typed:
  "library_typed L \<Longrightarrow> calls_typed n T es \<Longrightarrow> state_typed n T r
     \<Longrightarrow> \<exists>r'. relay_run L es r = Inr r' \<and> state_typed n (foldl started T es) r'"
proof (induction es arbitrary: T r)
  case Nil
  then show ?case by (simp add: relay_run_def)
next
  case (Cons e es)
  from relay_step_typed [OF Cons.prems(1,3)] Cons.prems(2) obtain r1 where
    r1: "relay_step L e r = Inr r1" "state_typed n (started T e) r1" by auto
  with Cons.IH [OF Cons.prems(1) _ r1(2)] Cons.prems(2) show ?case by (simp add: relay_run_def)
qed

section \<open>Property\<close>

text \<open>C19. Calls that obey the discipline never fault: with a library whose packets are as long as they
  say and whose sends return, every sequence of calls in which each thread is started with an
  index below the thread count before it handles anything, and no statistics interval is zero, is
  handled to its end: no null or dangling counter pointer is followed, no packet read beyond its
  end, nothing thrown, and at the end every thread started has its counters.\<close>

theorem relay_type_sound:
  assumes "library_typed L" and "calls_typed (unat n) {} es"
  shows "\<exists>r. relay_run L es (relay_init n l) = Inr r \<and> state_typed (unat n) (foldl started {} es) r"
proof -
  have "state_typed (unat n) {} (relay_init n l)" by (simp add: state_typed_def relay_init_def)
  from relay_run_typed [OF assms this] show ?thesis .
qed

text \<open>A library of packets that fit in memory, here of at most ten bytes.\<close>

definition short_lib :: "(u64, u8 list, unit) library" where
  "short_lib =
     \<lparr>packet_data = (\<lambda>_ p. take 10 p), packet_size = (\<lambda>p. of_nat (length (take 10 p))),
      client_start_receive = (\<lambda>l. l), peer_start_receive = (\<lambda>l. l), session_start_send = (\<lambda>_ _ _ r. Inr r)\<rparr>"

lemma short_lib_typed: "library_typed short_lib"
proof -
  have "unat (of_nat k :: u64) = k" if "k \<le> 10" for k using that by (simp add: unat_of_nat)
  then show ?thesis by (simp add: library_typed_def short_lib_def)
qed

definition two_thread_calls :: "(u64, u8 list) relay_event list" where
  "two_thread_calls = [Thread_start 5 0, Client_received 5 11 (store_le 8 1), Thread_start 6 1,
     Peer_received 6 (store_le 8 1 @ [100]), Session_sent 6 9, Statistics_tick 5, Peer_data 5 [1]]"

lemma relay_type_sound_witness:
  "\<exists>r. relay_run short_lib two_thread_calls (relay_init 2 ()) = Inr r \<and> state_typed 2 {5, 6} r"
proof -
  have "calls_typed (unat (2 :: u16)) {} two_thread_calls" by (simp add: two_thread_calls_def)
  from relay_type_sound [OF short_lib_typed this, of "()"] show ?thesis
    by (simp add: two_thread_calls_def insert_commute)
qed

end
