(* ===== verification/Session_Concurrency.thy ===== *)
theory Session_Concurrency
  imports Relay
begin

text \<open>
  The session table under concurrent callers: \<open>shared_mutex<MultiThreaded>\<close> of \<^verbatim>\<open>urn/mutex.hpp\<close>, and
  \<open>find_session\<close> and \<open>try_register_session\<close> of \<^verbatim>\<open>urn/relay.hpp\<close> at the grain of their statements,
  with the use of the pointer \<open>find_session\<close> returns after the lock has been given back.
  \<open>std::shared_mutex\<close> behaves as the standard says; \<open>std::unordered_map\<close> keeps its elements where
  they are, so that a pointer to one is named by its key.
\<close>

section \<open>The mutex\<close>

record rwlock =
  writer :: "nat option"
  readers :: "nat set"

text \<open>Both specialisations: with \<open>MultiThreaded = false\<close> every operation does nothing.\<close>

definition lock :: "bool \<Rightarrow> nat \<Rightarrow> rwlock \<Rightarrow> rwlock option" where
  "lock mt t l =
     (if mt then (if writer l = None \<and> readers l = {} then Some (l\<lparr>writer := Some t\<rparr>) else None) else Some l)"

definition unlock :: "bool \<Rightarrow> nat \<Rightarrow> rwlock \<Rightarrow> rwlock" where
  "unlock mt t l = (if mt then l\<lparr>writer := None\<rparr> else l)"

definition lock_shared :: "bool \<Rightarrow> nat \<Rightarrow> rwlock \<Rightarrow> rwlock option" where
  "lock_shared mt t l =
     (if mt then (if writer l = None then Some (l\<lparr>readers := insert t (readers l)\<rparr>) else None) else Some l)"

definition unlock_shared :: "bool \<Rightarrow> nat \<Rightarrow> rwlock \<Rightarrow> rwlock" where
  "unlock_shared mt t l = (if mt then l\<lparr>readers := readers l - {t}\<rparr> else l)"

section \<open>Callers\<close>

text \<open>Where a thread is. \<open>try_emplace\<close> is a search and, if the key is new, an insertion; a found
  session is used after the call has returned.\<close>

datatype 'ep caller =
    Idle
  | Find_lock u64
  | Find_search u64
  | Find_unlock u64 "u64 option"
  | Use_session u64
  | Register_lock u64 'ep
  | Register_search u64 'ep
  | Register_insert u64 'ep bool
  | Register_unlock u64 'ep bool

text \<open>What the calls did, in the order in which they did it.\<close>

datatype 'ep call =
    Looked_up nat u64 bool
  | Used nat u64 "'ep session option"
  | Registered nat u64 'ep bool

record 'ep shared =
  mutex :: rwlock
  shared_sessions :: "u64 \<rightharpoonup> 'ep session"
  caller_of :: "nat \<Rightarrow> 'ep caller"
  calls :: "'ep call list"

definition shared_init :: "'ep shared" where
  "shared_init = \<lparr>mutex = \<lparr>writer = None, readers = {}\<rparr>, shared_sessions = Map.empty,
     caller_of = (\<lambda>_. Idle), calls = []\<rparr>"

definition to :: "nat \<Rightarrow> 'ep caller \<Rightarrow> 'ep shared \<Rightarrow> 'ep shared" where
  "to t c s = s\<lparr>caller_of := (caller_of s)(t := c)\<rparr>"

definition log_call :: "'ep call \<Rightarrow> 'ep shared \<Rightarrow> 'ep shared" where
  "log_call c s = s\<lparr>calls := calls s @ [c]\<rparr>"

text \<open>\<open>find_session\<close>, and the use of its result.\<close>

definition find_next :: "bool \<Rightarrow> nat \<Rightarrow> 'ep shared \<Rightarrow> 'ep shared option" where
  "find_next mt t s =
     (case caller_of s t of
        Find_lock i \<Rightarrow> map_option (\<lambda>m. to t (Find_search i) (s\<lparr>mutex := m\<rparr>)) (lock_shared mt t (mutex s))
      | Find_search i \<Rightarrow>
          let found = (shared_sessions s i \<noteq> None)
          in Some (to t (Find_unlock i (if found then Some i else None)) (log_call (Looked_up t i found) s))
      | Find_unlock i found \<Rightarrow>
          Some (to t (case found of Some p \<Rightarrow> Use_session p | None \<Rightarrow> Idle)
                     (s\<lparr>mutex := unlock_shared mt t (mutex s)\<rparr>))
      | Use_session p \<Rightarrow> Some (to t Idle (log_call (Used t p (shared_sessions s p)) s))
      | _ \<Rightarrow> None)"

definition register_next :: "bool \<Rightarrow> nat \<Rightarrow> 'ep shared \<Rightarrow> 'ep shared option" where
  "register_next mt t s =
     (case caller_of s t of
        Register_lock i src \<Rightarrow> map_option (\<lambda>m. to t (Register_search i src) (s\<lparr>mutex := m\<rparr>)) (lock mt t (mutex s))
      | Register_search i src \<Rightarrow> Some (to t (Register_insert i src (shared_sessions s i \<noteq> None)) s)
      | Register_insert i src found \<Rightarrow>
          let s' = (if found then s
                    else s\<lparr>shared_sessions := (shared_sessions s)(i \<mapsto> \<lparr>client_endpoint = src\<rparr>)\<rparr>)
          in Some (to t (Register_unlock i src (\<not> found)) (log_call (Registered t i src (\<not> found)) s'))
      | Register_unlock i src fresh \<Rightarrow> Some (to t Idle (s\<lparr>mutex := unlock mt t (mutex s)\<rparr>))
      | _ \<Rightarrow> None)"

text \<open>The threads in \<open>T\<close>: an idle one starts a call, another one runs.\<close>

inductive shared_step :: "bool \<Rightarrow> nat set \<Rightarrow> 'ep shared \<Rightarrow> 'ep shared \<Rightarrow> bool" for mt T where
  start_find: "t \<in> T \<Longrightarrow> caller_of s t = Idle \<Longrightarrow> shared_step mt T s (to t (Find_lock i) s)"
| start_register: "t \<in> T \<Longrightarrow> caller_of s t = Idle \<Longrightarrow> shared_step mt T s (to t (Register_lock i src) s)"
| find: "t \<in> T \<Longrightarrow> find_next mt t s = Some s' \<Longrightarrow> shared_step mt T s s'"
| register: "t \<in> T \<Longrightarrow> register_next mt t s = Some s' \<Longrightarrow> shared_step mt T s s'"

inductive shared_reach :: "bool \<Rightarrow> nat set \<Rightarrow> 'ep shared \<Rightarrow> bool" for mt T where
  reach_start: "shared_reach mt T shared_init"
| reach_step: "shared_reach mt T s \<Longrightarrow> shared_step mt T s s' \<Longrightarrow> shared_reach mt T s'"

section \<open>Data races\<close>

text \<open>Who is inside an operation of the hash table. Using a found session reads the element,
  which no operation of the table changes.\<close>

fun reads_table :: "'ep caller \<Rightarrow> bool" where
  "reads_table (Find_search i) = True"
| "reads_table _ = False"

fun writes_table :: "'ep caller \<Rightarrow> bool" where
  "writes_table (Register_search i src) = True"
| "writes_table (Register_insert i src b) = True"
| "writes_table _ = False"

definition data_race :: "'ep shared \<Rightarrow> bool" where
  "data_race s \<longleftrightarrow> (\<exists>t u. t \<noteq> u \<and> writes_table (caller_of s t)
     \<and> (reads_table (caller_of s u) \<or> writes_table (caller_of s u)))"

section \<open>Sequential meaning\<close>

text \<open>The calls replayed one after the other with the operations of theory \<open>Relay\<close>.\<close>

fun replay :: "'ep call list \<Rightarrow> ('ep, unit) relay \<Rightarrow> ('ep, unit) relay option" where
  "replay [] r = Some r"
| "replay (Looked_up t i found # cs) r = (if found = (find_session i r \<noteq> None) then replay cs r else None)"
| "replay (Used t i v # cs) r = (if v \<noteq> None \<and> find_session i r = v then replay cs r else None)"
| "replay (Registered t i src b # cs) r =
     (case try_register_session i src r of (b', r') \<Rightarrow> if b = b' then replay cs r' else None)"

lemma replay_append: "replay (cs @ ds) r = Option.bind (replay cs r) (replay ds)"
  by (induction cs r rule: replay.induct) (auto split: prod.split)

section \<open>Invariant\<close>

fun holds_shared :: "'ep caller \<Rightarrow> bool" where
  "holds_shared (Find_search i) = True"
| "holds_shared (Find_unlock i p) = True"
| "holds_shared _ = False"

fun holds_lock :: "'ep caller \<Rightarrow> bool" where
  "holds_lock (Register_search i src) = True"
| "holds_lock (Register_insert i src b) = True"
| "holds_lock (Register_unlock i src b) = True"
| "holds_lock _ = False"

text \<open>What a caller knows of the table.\<close>

fun knows :: "(u64 \<rightharpoonup> 'ep session) \<Rightarrow> 'ep caller \<Rightarrow> bool" where
  "knows m (Find_unlock i p) \<longleftrightarrow> p = None \<or> p = Some i \<and> m i \<noteq> None"
| "knows m (Use_session p) \<longleftrightarrow> m p \<noteq> None"
| "knows m (Register_insert i src found) \<longleftrightarrow> found = (m i \<noteq> None)"
| "knows m _ \<longleftrightarrow> True"

definition exclusive :: "'ep shared \<Rightarrow> bool" where
  "exclusive s \<longleftrightarrow> (\<forall>t u. t \<noteq> u \<longrightarrow> holds_lock (caller_of s t) \<longrightarrow>
     \<not> holds_lock (caller_of s u) \<and> \<not> holds_shared (caller_of s u))"

definition lock_ok :: "bool \<Rightarrow> nat set \<Rightarrow> 'ep shared \<Rightarrow> bool" where
  "lock_ok mt T s \<longleftrightarrow> (\<forall>t. t \<notin> T \<longrightarrow> caller_of s t = Idle)
     \<and> (mt \<longrightarrow> (\<forall>t. holds_lock (caller_of s t) \<longleftrightarrow> writer (mutex s) = Some t)
            \<and> (\<forall>t. holds_shared (caller_of s t) \<longleftrightarrow> t \<in> readers (mutex s))
            \<and> (writer (mutex s) \<noteq> None \<longrightarrow> readers (mutex s) = {}))"

definition table_ok :: "'ep shared \<Rightarrow> bool" where
  "table_ok s \<longleftrightarrow> (\<forall>t. knows (shared_sessions s) (caller_of s t))
     \<and> (\<exists>r. replay (calls s) (relay_init 0 ()) = Some r \<and> sessions r = shared_sessions s)"

lemma shared_simps [simp]:
  "mutex (to t c s) = mutex s" "shared_sessions (to t c s) = shared_sessions s" "calls (to t c s) = calls s"
  "caller_of (to t c s) u = (if u = t then c else caller_of s u)"
  "mutex (log_call k s) = mutex s" "shared_sessions (log_call k s) = shared_sessions s"
  "calls (log_call k s) = calls s @ [k]" "caller_of (log_call k s) = caller_of s"
  by (simp_all add: to_def log_call_def)

lemmas lock_defs = lock_def unlock_def lock_shared_def unlock_shared_def

text \<open>One thread alone, or a real mutex: nobody shares the table with a thread that writes to it.\<close>

lemma lock_ok_exclusive:
  assumes "lock_ok mt T s" and "mt \<or> T \<subseteq> {t}"
  shows "exclusive s"
proof (cases mt)
  case True
  then show ?thesis using assms(1) unfolding lock_ok_def exclusive_def by auto
next
  case False
  then have "caller_of s u = Idle" if "u \<noteq> t" for u using assms that unfolding lock_ok_def by blast
  then show ?thesis unfolding exclusive_def by (metis holds_lock.simps(4) holds_shared.simps(3))
qed

lemma lock_okD:
  assumes "lock_ok mt T s" and mt
  shows "holds_lock (caller_of s t) \<longleftrightarrow> writer (mutex s) = Some t"
    "holds_shared (caller_of s t) \<longleftrightarrow> t \<in> readers (mutex s)"
proof -
  from assms show "holds_lock (caller_of s t) \<longleftrightarrow> writer (mutex s) = Some t"
    "holds_shared (caller_of s t) \<longleftrightarrow> t \<in> readers (mutex s)"
    unfolding lock_ok_def by blast+
qed

lemma lock_ok_alone: "lock_ok mt T s \<Longrightarrow> mt \<Longrightarrow> writer (mutex s) \<noteq> None \<Longrightarrow> readers (mutex s) = {}"
  unfolding lock_ok_def by blast

lemma lock_ok_move:
  assumes ok: "lock_ok mt T s" and t: "t \<in> T" and moved: "caller_of s' = (caller_of s)(t := c)"
    and m: "mt \<Longrightarrow> (holds_lock c \<longleftrightarrow> writer (mutex s') = Some t) \<and> (holds_shared c \<longleftrightarrow> t \<in> readers (mutex s'))
       \<and> (\<forall>u. u \<noteq> t \<longrightarrow> (writer (mutex s') = Some u \<longleftrightarrow> writer (mutex s) = Some u))
       \<and> readers (mutex s') - {t} = readers (mutex s) - {t}
       \<and> (writer (mutex s') \<noteq> None \<longrightarrow> readers (mutex s') = {})"
  shows "lock_ok mt T s'"
proof (cases mt)
  case True
  have "holds_lock (caller_of s' u) \<longleftrightarrow> writer (mutex s') = Some u" for u
    using lock_okD(1) [OF ok True, of u] m [OF True] by (simp add: moved)
  moreover have "holds_shared (caller_of s' u) \<longleftrightarrow> u \<in> readers (mutex s')" for u
    using lock_okD(2) [OF ok True, of u] m [OF True] by (cases "u = t") (simp_all add: moved, blast)
  moreover have "\<forall>u. u \<notin> T \<longrightarrow> caller_of s' u = Idle" using ok t by (auto simp: lock_ok_def moved)
  ultimately show ?thesis using m [OF True] unfolding lock_ok_def by blast
next
  case False
  then show ?thesis using ok t by (auto simp: lock_ok_def moved)
qed

lemma lock_ok_step:
  assumes ok: "lock_ok mt T s" and step: "shared_step mt T s s'"
  shows "lock_ok mt T s'"
  using step
proof cases
  case (start_find t i)
  show ?thesis
    using lock_okD [OF ok, of t] lock_ok_alone [OF ok] start_find(3)
    by (intro lock_ok_move [OF ok start_find(2), of _ "Find_lock i"]) (auto simp: start_find(1) fun_eq_iff)
next
  case (start_register t i src)
  show ?thesis
    using lock_okD [OF ok, of t] lock_ok_alone [OF ok] start_register(3)
    by (intro lock_ok_move [OF ok start_register(2), of _ "Register_lock i src"])
      (auto simp: start_register(1) fun_eq_iff)
next
  case (find t)
  show ?thesis
    using lock_okD [OF ok, of t] lock_ok_alone [OF ok] find(2)
    by (intro lock_ok_move [OF ok find(1), of _ "caller_of s' t"])
      (auto simp: find_next_def lock_defs Let_def fun_eq_iff split: caller.splits option.splits if_splits)
next
  case (register t)
  show ?thesis
    using lock_okD [OF ok, of t] lock_ok_alone [OF ok] register(2)
    by (intro lock_ok_move [OF ok register(1), of _ "caller_of s' t"])
      (auto simp: register_next_def lock_defs Let_def fun_eq_iff split: caller.splits option.splits if_splits)
qed

lemma knows_insert:
  assumes "knows m c" "\<not> holds_lock c" shows "knows (m(i \<mapsto> v)) c"
  using assms by (cases c) auto

text \<open>A step that leaves the table alone.\<close>

lemma table_ok_move:
  assumes ok: "table_ok s" and moved: "caller_of s' = (caller_of s)(t := c)" "shared_sessions s' = shared_sessions s"
    and c: "knows (shared_sessions s) c" and ks: "calls s' = calls s @ ks"
    and replayed: "\<And>r. sessions r = shared_sessions s \<Longrightarrow> replay ks r = Some r"
  shows "table_ok s'"
proof -
  from ok obtain r where "replay (calls s) (relay_init 0 ()) = Some r" "sessions r = shared_sessions s"
    unfolding table_ok_def by blast
  then have "replay (calls s') (relay_init 0 ()) = Some r \<and> sessions r = shared_sessions s'"
    by (simp add: ks moved(2) replay_append replayed)
  moreover have "knows (shared_sessions s') (caller_of s' u)" for u
    using ok c unfolding table_ok_def by (simp add: moved)
  ultimately show ?thesis unfolding table_ok_def by blast
qed

text \<open>The second half of \<open>try_emplace\<close>.\<close>

lemma table_ok_insert:
  assumes ok: "table_ok s" and ex: "exclusive s" and t: "caller_of s t = Register_insert i src found"
    and step: "register_next mt t s = Some s'"
  shows "table_ok s'"
proof -
  let ?m = "shared_sessions s"
  have found: "found = (?m i \<noteq> None)" using ok t unfolding table_ok_def by (metis knows.simps(3))
  from ok obtain r where r: "replay (calls s) (relay_init 0 ()) = Some r" "sessions r = ?m"
    unfolding table_ok_def by blast
  have s': "caller_of s' = (caller_of s)(t := Register_unlock i src (\<not> found))"
    "shared_sessions s' = (if found then ?m else ?m(i \<mapsto> \<lparr>client_endpoint = src\<rparr>))"
    "calls s' = calls s @ [Registered t i src (\<not> found)]"
    using step t by (auto simp: register_next_def Let_def fun_eq_iff)
  have "knows (shared_sessions s') (caller_of s' u)" for u
  proof (cases "u = t")
    case True
    then show ?thesis by (simp add: s'(1))
  next
    case False
    then have "\<not> holds_lock (caller_of s u)" using ex t unfolding exclusive_def by (metis holds_lock.simps(2))
    moreover have "knows ?m (caller_of s u)" using ok unfolding table_ok_def by blast
    ultimately show ?thesis using False knows_insert [of ?m "caller_of s u"] by (simp add: s')
  qed
  moreover have "\<exists>r'. replay (calls s') (relay_init 0 ()) = Some r' \<and> sessions r' = shared_sessions s'"
    using r found by (auto simp: s' replay_append try_register_session_def split: option.split)
  ultimately show ?thesis unfolding table_ok_def by blast
qed

lemma table_ok_step:
  assumes ok: "table_ok s" and ex: "exclusive s" and step: "shared_step mt T s s'"
  shows "table_ok s'"
  using step
proof cases
  case (start_find t i)
  then show ?thesis by (intro table_ok_move [OF ok, of _ t "Find_lock i" "[]"]) (simp_all add: fun_eq_iff)
next
  case (start_register t i src)
  then show ?thesis by (intro table_ok_move [OF ok, of _ t "Register_lock i src" "[]"]) (simp_all add: fun_eq_iff)
next
  case (find t)
  have k: "knows (shared_sessions s) (caller_of s t)" using ok unfolding table_ok_def by blast
  show ?thesis
    using find(2) k
    by (intro table_ok_move [OF ok, of _ t "caller_of s' t" "drop (length (calls s)) (calls s')"])
      (auto simp: find_next_def Let_def fun_eq_iff find_session_def split: caller.splits option.splits)
next
  case (register t)
  show ?thesis
  proof (cases "\<exists>i src found. caller_of s t = Register_insert i src found")
    case True
    then show ?thesis using table_ok_insert [OF ok ex _ register(2)] by blast
  next
    case False
    then show ?thesis
      using register(2)
      by (intro table_ok_move [OF ok, of _ t "caller_of s' t" "[]"])
        (auto simp: register_next_def Let_def fun_eq_iff split: caller.splits)
  qed
qed

lemma shared_reach_ok:
  assumes "shared_reach mt T s" and alone: "mt \<or> T \<subseteq> {t}"
  shows "lock_ok mt T s \<and> table_ok s"
  using assms(1)
proof induction
  case reach_start
  show ?case by (simp add: lock_ok_def table_ok_def shared_init_def relay_init_def)
next
  case (reach_step s s')
  then show ?case using lock_ok_step table_ok_step lock_ok_exclusive [OF _ alone] by blast
qed

section \<open>Progress\<close>

text \<open>What is left of a call. The session found is used last.\<close>

fun steps_left :: "'ep caller \<Rightarrow> nat" where
  "steps_left Idle = 0"
| "steps_left (Use_session p) = 1"
| "steps_left (Find_unlock i p) = 2"
| "steps_left (Find_search i) = 3"
| "steps_left (Find_lock i) = 4"
| "steps_left (Register_unlock i src b) = 1"
| "steps_left (Register_insert i src b) = 2"
| "steps_left (Register_search i src) = 3"
| "steps_left (Register_lock i src) = 4"

lemma find_next_less: "find_next mt t s = Some s' \<Longrightarrow>
    steps_left (caller_of s' t) < steps_left (caller_of s t) \<and> (\<forall>v. v \<noteq> t \<longrightarrow> caller_of s' v = caller_of s v)"
  by (auto simp: find_next_def Let_def split: caller.splits option.splits)

lemma register_next_less: "register_next mt t s = Some s' \<Longrightarrow>
    steps_left (caller_of s' t) < steps_left (caller_of s t) \<and> (\<forall>v. v \<noteq> t \<longrightarrow> caller_of s' v = caller_of s v)"
  by (auto simp: register_next_def Let_def split: caller.splits)

lemma holder_steps:
  "holds_shared (caller_of s t) \<Longrightarrow> find_next mt t s \<noteq> None"
  "holds_lock (caller_of s t) \<Longrightarrow> register_next mt t s \<noteq> None"
  by (cases "caller_of s t"; simp add: find_next_def register_next_def Let_def)+

lemma free_steps:
  assumes "mt \<Longrightarrow> writer (mutex s) = None \<and> readers (mutex s) = {}" and "caller_of s t \<noteq> Idle"
  shows "find_next mt t s \<noteq> None \<or> register_next mt t s \<noteq> None"
  using assms by (cases "caller_of s t") (auto simp: find_next_def register_next_def lock_defs Let_def)

lemma shared_reach_lock_ok: "shared_reach mt T s \<Longrightarrow> lock_ok mt T s"
proof (induction rule: shared_reach.induct)
  case reach_start
  show ?case by (simp add: lock_ok_def shared_init_def)
qed (blast intro: lock_ok_step)

lemma some_thread_steps:
  assumes ok: "lock_ok mt T s" and busy: "caller_of s t \<noteq> Idle"
  shows "\<exists>u \<in> T. find_next mt u s \<noteq> None \<or> register_next mt u s \<noteq> None"
proof -
  have T: "u \<in> T" if "caller_of s u \<noteq> Idle" for u using ok that unfolding lock_ok_def by blast
  consider w where mt "holds_lock (caller_of s w)" | w where mt "holds_shared (caller_of s w)"
    | "mt \<Longrightarrow> writer (mutex s) = None \<and> readers (mutex s) = {}"
    using lock_okD [OF ok] by (cases mt; cases "writer (mutex s)") blast+
  then show ?thesis
  proof cases
    case 1
    then have "w \<in> T" using T [of w] by force
    then show ?thesis using holder_steps(2) 1 by blast
  next
    case 2
    then have "w \<in> T" using T [of w] by force
    then show ?thesis using holder_steps(1) 2 by blast
  next
    case 3
    then show ?thesis using free_steps [OF _ busy] T [OF busy] by blast
  qed
qed

section \<open>A race of two threads with the dummy mutex\<close>

text \<open>The schedules of the model, executed: each step is a call started or the next statement.\<close>

fun starts_call :: "'ep caller \<Rightarrow> bool" where
  "starts_call (Find_lock i) = True"
| "starts_call (Register_lock i src) = True"
| "starts_call _ = False"

datatype 'ep act = Call nat "'ep caller" | Next nat

fun shared_exec :: "bool \<Rightarrow> nat set \<Rightarrow> 'ep act list \<Rightarrow> 'ep shared \<Rightarrow> 'ep shared option" where
  "shared_exec mt T [] s = Some s"
| "shared_exec mt T (Call t c # as) s =
     (if t \<in> T \<and> caller_of s t = Idle \<and> starts_call c
      then shared_exec mt T as (to t c s) else None)"
| "shared_exec mt T (Next t # as) s =
     (if t \<in> T then (case (find_next mt t s, register_next mt t s) of
          (Some s', _) \<Rightarrow> shared_exec mt T as s'
        | (None, Some s') \<Rightarrow> shared_exec mt T as s'
        | (None, None) \<Rightarrow> None) else None)"

lemma shared_exec_reach: "shared_exec mt T as s = Some s' \<Longrightarrow> shared_reach mt T s \<Longrightarrow> shared_reach mt T s'"
proof (induction mt T as s rule: shared_exec.induct)
  case (1 mt T s)
  then show ?case by simp
next
  case (2 mt T t c as s)
  then have c: "t \<in> T" "caller_of s t = Idle" "starts_call c" "shared_exec mt T as (to t c s) = Some s'"
    by (auto split: if_splits)
  then have "shared_step mt T s (to t c s)" by (cases c) (auto intro: shared_step.intros)
  then have "shared_reach mt T (to t c s)" using 2(3) by (rule reach_step [rotated])
  then show ?case using 2(1) c by blast
next
  case (3 mt T t as s)
  then obtain k where k: "t \<in> T" "find_next mt t s = Some k \<or> find_next mt t s = None \<and> register_next mt t s = Some k"
    "shared_exec mt T as k = Some s'"
    by (auto split: if_splits option.splits)
  then have "shared_reach mt T k" using 3(4) by (auto intro: reach_step shared_step.intros)
  then show ?case using 3(1,2) k by auto
qed

lemma shared_exec_start:
  assumes "\<exists>s. shared_exec mt T as shared_init = Some s \<and> P s" shows "\<exists>s. shared_reach mt T s \<and> P s"
  using assms by (blast intro: shared_exec_reach reach_start)

lemmas shared_eval = shared_init_def find_next_def register_next_def to_def log_call_def lock_defs Let_def numeral_eq_Suc

text \<open>Both threads search, then both insert.\<close>

definition both_search :: "u64 \<Rightarrow> 'ep \<Rightarrow> 'ep \<Rightarrow> 'ep act list" where
  "both_search i a b = [Call 0 (Register_lock i a), Call 1 (Register_lock i b), Next 0, Next 1, Next 0, Next 1]"

definition both_insert :: "u64 \<Rightarrow> 'ep \<Rightarrow> 'ep \<Rightarrow> 'ep act list" where
  "both_insert i a b = both_search i a b @ [Next 0, Next 1]"

section \<open>Properties\<close>

text \<open>C21. No data race on the session table: with the real mutex and any number of threads, or
  with the dummy mutex and one thread, no thread is ever inside \<open>try_emplace\<close> while another is
  inside \<open>try_emplace\<close> or \<open>find\<close>.\<close>

theorem session_table_race_free:
  assumes "shared_reach mt T s" and "mt \<or> T \<subseteq> {t}"
  shows "\<not> data_race s"
proof -
  have "exclusive s" using lock_ok_exclusive [OF conjunct1 [OF shared_reach_ok [OF assms]] assms(2)] .
  moreover have "writes_table c \<Longrightarrow> holds_lock c" "reads_table c \<Longrightarrow> holds_shared c" for c :: "'a caller"
    by (cases c; simp)+
  ultimately show ?thesis unfolding exclusive_def data_race_def by blast
qed

text \<open>C15. The table is linearizable: whatever the interleaving, the calls made so far, in the order in
  which they touched the table, are a run of the one-step \<open>find_session\<close> and
  \<open>try_register_session\<close> of theory \<open>Relay\<close> with the same results and the same table; a session
  used after the lock was given back is one that is registered, with the endpoint it was
  registered with.\<close>

theorem session_table_linearizable:
  assumes "shared_reach mt T s" and "mt \<or> T \<subseteq> {t}"
  shows "\<exists>r. replay (calls s) (relay_init 0 ()) = Some r \<and> sessions r = shared_sessions s"
  using shared_reach_ok [OF assms] unfolding table_ok_def by blast

text \<open>The mutex does not deadlock: when some thread is inside a call, some thread can take a
  step of its call, and a step never leads back.\<close>

theorem session_calls_progress:
  assumes "shared_reach mt T s" and "caller_of s t \<noteq> Idle"
  shows "\<exists>u \<in> T. \<exists>s'. (find_next mt u s = Some s' \<or> register_next mt u s = Some s')
     \<and> steps_left (caller_of s' u) < steps_left (caller_of s u) \<and> (\<forall>v. v \<noteq> u \<longrightarrow> caller_of s' v = caller_of s v)"
proof -
  from some_thread_steps [OF shared_reach_lock_ok [OF assms(1)] assms(2)] obtain u s' where
    "u \<in> T" "find_next mt u s = Some s' \<or> register_next mt u s = Some s'" by blast
  then show ?thesis using find_next_less register_next_less by blast
qed

text \<open>C39. With the dummy mutex and two threads, as the seastar experiment runs them, the table does race:
  both threads can be inside \<open>try_emplace\<close>, and then both registrations of one identifier
  succeed, the second endpoint replacing the first, which no order of the two calls explains.\<close>

theorem dummy_mutex_races:
  fixes a b :: 'ep
  shows "(\<exists>s :: 'ep shared. shared_reach False {0, 1} s \<and> data_race s)
   \<and> (\<exists>s. shared_reach False {0, 1} s \<and> calls s = [Registered 0 i a True, Registered 1 i b True]
        \<and> shared_sessions s i = Some \<lparr>client_endpoint = b\<rparr>
        \<and> replay (calls s) (relay_init 0 ()) = None
        \<and> replay (rev (calls s)) (relay_init 0 ()) = None)"
proof
  have "\<exists>s. shared_exec False {0, 1} (both_search i a b) shared_init = Some s
     \<and> writes_table (caller_of s 0) \<and> writes_table (caller_of s 1)"
    by (simp add: both_search_def shared_eval)
  from shared_exec_start [OF this] obtain s :: "'ep shared" where
    "shared_reach False {0, 1} s" "writes_table (caller_of s 0)" "writes_table (caller_of s 1)" by blast
  then show "\<exists>s :: 'ep shared. shared_reach False {0, 1} s \<and> data_race s"
    unfolding data_race_def by (metis zero_neq_one)
  have "\<exists>s. shared_exec False {0, 1} (both_insert i a b) shared_init = Some s
     \<and> calls s = [Registered 0 i a True, Registered 1 i b True] \<and> shared_sessions s i = Some \<lparr>client_endpoint = b\<rparr>"
    by (simp add: both_insert_def both_search_def shared_eval)
  from shared_exec_start [OF this] obtain s where
    "shared_reach False {0, 1} s" "calls s = [Registered 0 i a True, Registered 1 i b True]"
    "shared_sessions s i = Some \<lparr>client_endpoint = b\<rparr>" by blast
  moreover have "replay [Registered 0 i a True, Registered 1 i b True] (relay_init 0 ()) = None"
    "replay [Registered 1 i b True, Registered 0 i a True] (relay_init 0 ()) = None"
    by (simp_all add: try_register_session_def relay_init_def)
  ultimately show "\<exists>s. shared_reach False {0, 1} s \<and> calls s = [Registered 0 i a True, Registered 1 i b True]
        \<and> shared_sessions s i = Some \<lparr>client_endpoint = b\<rparr>
        \<and> replay (calls s) (relay_init 0 ()) = None
        \<and> replay (rev (calls s)) (relay_init 0 ()) = None" by auto
qed

section \<open>Concrete runs\<close>

text \<open>With the real mutex: thread 0 registers, thread 1 finds and uses the session while thread 0 waits
  to register again.\<close>

definition two_threads :: "u64 act list" where
  "two_threads = [Call 0 (Register_lock 7 11), Next 0, Next 0, Next 0, Next 0,
     Call 1 (Find_lock 7), Call 0 (Register_lock 7 12), Next 1, Next 1, Next 1, Next 1, Next 0, Next 0]"

lemma two_threads_run:
  "\<exists>s. shared_reach True {0, 1} s \<and> caller_of s 0 = Register_insert 7 (12 :: u64) True
     \<and> calls s = [Registered 0 7 11 True, Looked_up 1 7 True, Used 1 7 (Some \<lparr>client_endpoint = 11\<rparr>)]"
proof -
  have "\<exists>s. shared_exec True {0, 1} two_threads shared_init = Some s \<and> caller_of s 0 = Register_insert 7 (12 :: u64) True
     \<and> calls s = [Registered 0 7 11 True, Looked_up 1 7 True, Used 1 7 (Some \<lparr>client_endpoint = 11\<rparr>)]"
    by (simp add: two_threads_def shared_eval)
  then show ?thesis by (rule shared_exec_start)
qed

theorem session_table_race_free_witness:
  "\<exists>s. shared_reach True {0, 1} s \<and> caller_of s 0 = Register_insert 7 (12 :: u64) True \<and> \<not> data_race s"
proof -
  obtain s where s: "shared_reach True {0, 1} s" "caller_of s 0 = Register_insert 7 (12 :: u64) True"
    using two_threads_run by blast
  then show ?thesis using session_table_race_free [OF s(1)] by blast
qed

theorem session_table_linearizable_witness:
  "\<exists>s r. shared_reach True {0, 1} (s :: u64 shared) \<and> calls s \<noteq> [] \<and> replay (calls s) (relay_init 0 ()) = Some r
     \<and> sessions r = shared_sessions s"
proof -
  obtain s :: "u64 shared" where s: "shared_reach True {0, 1} s" "calls s \<noteq> []" using two_threads_run by fastforce
  then show ?thesis using session_table_linearizable [OF s(1)] by blast
qed

theorem session_calls_progress_witness:
  "\<exists>s. shared_reach True {0, 1} (s :: u64 shared)
     \<and> (\<exists>u \<in> {0, 1}. find_next True u s \<noteq> None \<or> register_next True u s \<noteq> None)"
proof -
  obtain s :: "u64 shared" where s: "shared_reach True {0, 1} s" "caller_of s 0 = Register_insert 7 12 True"
    using two_threads_run by blast
  then have "caller_of s 0 \<noteq> Idle" by simp
  from session_calls_progress [OF s(1) this] s(1) show ?thesis by blast
qed

end
