(* ===== verification/Seastar.thy ===== *)
theory Seastar
  imports Relay
begin

text \<open>
  The seastar experiment, \<^verbatim>\<open>seastar/main.cpp\<close>: one relay for all shards, and on each shard a loop
  over the datagrams of clients and one over those of peers. A datagram is a list of
  fragments, of which the code looks at the first. The reactor is the environment: it resumes
  the loops in any order; a future that fails ends the loop that waits for it (\<open>keep_doing\<close>).
  Each continuation is one step. On one shard that is so, since its reactor runs one continuation at a time. With
  several shards it is an assumption on the execution: each shard has a thread, the table is shared, and
  the relay is instantiated without a lock, so nothing keeps two shards from being in their continuations at
  the same time; what then can happen is in theory \<open>Session_Concurrency\<close>
  (\<open>dummy_mutex_races\<close>).
\<close>

section \<open>State\<close>

type_synonym fragments = "u8 list list"

record 'ep shard =
  client_loop :: bool
  peer_loop :: bool
  in_flight :: "('ep \<times> fragments \<times> u8 list) option"
  transmitted :: "('ep \<times> fragments) list"

type_synonym 'ep shards = "nat \<Rightarrow> 'ep shard"

definition set_shard :: "nat \<Rightarrow> ('ep shard \<Rightarrow> 'ep shard) \<Rightarrow> ('ep, 'ep shards) relay \<Rightarrow> ('ep, 'ep shards) relay" where
  "set_shard t f r = r\<lparr>lib := (lib r)(t := f (lib r t))\<rparr>"

text \<open>A packet is the first fragment; the sessions of this library send nothing.\<close>

definition seastar_lib :: "('ep, u8 list, 'ep shards) library" where
  "seastar_lib =
     \<lparr>packet_data = (\<lambda>_ p. p),
      packet_size = (\<lambda>p. of_nat (length p)),
      client_start_receive = (\<lambda>l. l),
      peer_start_receive = (\<lambda>l. l),
      session_start_send = (\<lambda>_ _ _ r. Inr r)\<rparr>"

section \<open>The loops\<close>

definition frag0 :: "fragments \<Rightarrow> u8 list res" where
  "frag0 pkt = (case pkt of [] \<Rightarrow> Inl Out_of_bounds | f # _ \<Rightarrow> Inr f)"

definition client_body :: "nat \<Rightarrow> 'ep \<Rightarrow> fragments \<Rightarrow> ('ep, 'ep shards) relay \<Rightarrow> ('ep, 'ep shards) relay res" where
  "client_body t src pkt r = bindR (frag0 pkt) (\<lambda>frag. on_client_received seastar_lib t src frag r)"

definition peer_body :: "nat \<Rightarrow> fragments \<Rightarrow> ('ep, 'ep shards) relay \<Rightarrow> ('ep, 'ep shards) relay res" where
  "peer_body t pkt r =
     bindR (frag0 pkt) (\<lambda>frag.
     bindR (receive_peer_data seastar_lib t frag r) (\<lambda>(session, r).
     case session of
       None \<Rightarrow> Inr r
     | Some s \<Rightarrow> Inr (set_shard t (\<lambda>sh. sh\<lparr>in_flight := Some (client_endpoint s, pkt, frag)\<rparr>) r)))"

text \<open>The continuation of the send.\<close>

definition sent_body :: "nat \<Rightarrow> ('ep, 'ep shards) relay \<Rightarrow> ('ep, 'ep shards) relay res" where
  "sent_body t r =
     (case in_flight (lib r t) of
        None \<Rightarrow> Inl Undefined_behaviour
      | Some (ep, pkt, frag) \<Rightarrow>
          on_session_sent (\<lambda>l. l) t (of_nat (length frag))
            (set_shard t (\<lambda>sh. sh\<lparr>in_flight := None, transmitted := transmitted sh @ [(ep, pkt)]\<rparr>) r))"

definition shard_init :: "'ep shard" where
  "shard_init = \<lparr>client_loop = True, peer_loop = True, in_flight = None, transmitted = []\<rparr>"

text \<open>\<open>main\<close>: the relay for \<open>smp::count\<close> shards, and \<open>start\<close> on each of them.\<close>

definition seastar_main :: "nat \<Rightarrow> ('ep, 'ep shards) relay res" where
  "seastar_main smp_count =
     foldR (\<lambda>i. on_thread_start i (of_nat i)) [0..<smp_count] (relay_init (of_nat smp_count) (\<lambda>_. shard_init))"

datatype 'ep reactor_event =
    Client_datagram nat 'ep fragments
  | Peer_datagram nat fragments
  | Send_ready nat
  | Send_failed nat
  | Client_receive_failed nat
  | Peer_receive_failed nat

inductive reactor_step :: "nat \<Rightarrow> ('ep, 'ep shards) relay \<Rightarrow> 'ep reactor_event \<Rightarrow> ('ep, 'ep shards) relay \<Rightarrow> bool"
  for n where
  client: "t < n \<Longrightarrow> client_loop (lib r t) \<Longrightarrow> client_body t src pkt r = Inr r'
     \<Longrightarrow> reactor_step n r (Client_datagram t src pkt) r'"
| peer: "t < n \<Longrightarrow> peer_loop (lib r t) \<Longrightarrow> in_flight (lib r t) = None \<Longrightarrow> peer_body t pkt r = Inr r'
     \<Longrightarrow> reactor_step n r (Peer_datagram t pkt) r'"
| ready: "t < n \<Longrightarrow> peer_loop (lib r t) \<Longrightarrow> in_flight (lib r t) \<noteq> None \<Longrightarrow> sent_body t r = Inr r'
     \<Longrightarrow> reactor_step n r (Send_ready t) r'"
| send_failed: "t < n \<Longrightarrow> peer_loop (lib r t) \<Longrightarrow> in_flight (lib r t) \<noteq> None
     \<Longrightarrow> reactor_step n r (Send_failed t) (set_shard t (\<lambda>sh. sh\<lparr>peer_loop := False, in_flight := None\<rparr>) r)"
| client_failed: "t < n \<Longrightarrow> client_loop (lib r t)
     \<Longrightarrow> reactor_step n r (Client_receive_failed t) (set_shard t (\<lambda>sh. sh\<lparr>client_loop := False\<rparr>) r)"
| peer_failed: "t < n \<Longrightarrow> peer_loop (lib r t) \<Longrightarrow> in_flight (lib r t) = None
     \<Longrightarrow> reactor_step n r (Peer_receive_failed t) (set_shard t (\<lambda>sh. sh\<lparr>peer_loop := False\<rparr>) r)"

inductive reactor_run :: "nat \<Rightarrow> ('ep, 'ep shards) relay \<Rightarrow> 'ep reactor_event list \<Rightarrow> ('ep, 'ep shards) relay \<Rightarrow> bool"
  for n where
  reactor_start: "reactor_run n r [] r"
| reactor_more: "reactor_run n r es r1 \<Longrightarrow> reactor_step n r1 e r2 \<Longrightarrow> reactor_run n r (es @ [e]) r2"

section \<open>The handlers do what the relay specifies\<close>

context relay_library
begin

lemma receive_peer_data_refines:
  assumes ok: "thread_ok t r" and valid: "valid (lib r) p"
  defines "bs \<equiv> packet_data L (lib r) p"
  shows "\<exists>r1. receive_peer_data L t p r =
      Inr (if 8 \<le> length bs then sessions r (load_le (take 8 bs)) else None, r1)
    \<and> sessions r1 = sessions r \<and> lib r1 = lib r \<and> (\<forall>u. thread_ok u r1 = thread_ok u r)
    \<and> in_packets r1 = in_packets r + 1 \<and> in_bytes r1 = in_bytes r + packet_size L p"
proof -
  from count_returns(1) [OF ok] obtain r1 where r1: "count_in t (packet_size L p) r = Inr r1" by blast
  show ?thesis
    using r1 count_frame(1) [OF r1] thread_ok_count(1) [OF r1] count_in_totals [OF r1] size_cases(2) [OF valid]
    by (intro exI [of _ r1])
      (auto simp: receive_peer_data_def get_session_id_def find_session_def bs_def)
qed

end

interpretation sea: relay_library seastar_lib "\<lambda>_ p. length p < 2 ^ 64"
  by unfold_locales (simp add: seastar_lib_def unat_of_nat)

lemma seastar_lib_simps [simp]:
  "packet_data seastar_lib l p = p" "packet_size seastar_lib p = of_nat (length p)"
  "client_start_receive seastar_lib l = l" "peer_start_receive seastar_lib l = l"
  by (simp_all add: seastar_lib_def)

lemma set_shard_simps [simp]:
  "sessions (set_shard t f r) = sessions r" "registered (set_shard t f r) = registered r"
  "thread_ok u (set_shard t f r) = thread_ok u r"
  "lib (set_shard t f r) u = (if u = t then f (lib r u) else lib r u)"
  "in_bytes (set_shard t f r) = in_bytes r" "in_packets (set_shard t f r) = in_packets r"
  by (simp_all add: set_shard_def registered_def)

text \<open>A datagram the reactor can deliver: the size of a fragment is a \<open>size_t\<close>.\<close>

definition pkt_ok :: "fragments \<Rightarrow> bool" where
  "pkt_ok pkt \<longleftrightarrow> (pkt \<noteq> [] \<longrightarrow> length (hd pkt) < 2 ^ 64)"

lemma body_fragment:
  "client_body t src pkt r = Inr r' \<Longrightarrow> pkt \<noteq> []" "peer_body t pkt r = Inr r' \<Longrightarrow> pkt \<noteq> []"
  by (auto simp: client_body_def peer_body_def frag0_def)

lemma on_client_received_threads:
  assumes "on_client_received L t src p r = Inr r'" shows "thread_ok u r' = thread_ok u r"
proof -
  from assms obtain r1 where r1: "count_in t (packet_size L p) r = Inr r1"
    and rest: "(if packet_size L p = 8
       then bindR (get_session_id (packet_data L (lib r1) p)) (\<lambda>i.
              Inr (if sessions r1 i = None
                   then restart_client_receive L (restart_peer_receive L
                          (r1\<lparr>sessions := (sessions r1)(i \<mapsto> \<lparr>client_endpoint = src\<rparr>)\<rparr>))
                   else restart_client_receive L r1))
       else Inr (restart_client_receive L r1)) = Inr r'"
    unfolding on_client_received_eq by (rule bindR_InrE)
  then have "thread_ok u r' = thread_ok u r1" by (auto split: if_splits)
  then show ?thesis using thread_ok_count(1) [OF r1] by simp
qed

lemma client_body_spec:
  assumes ok: "thread_ok t r" and pkt: "pkt_ok pkt" "pkt \<noteq> []"
  shows "\<exists>r'. client_body t src pkt r = Inr r' \<and> registered r' = spec_client src (hd pkt) (registered r)
    \<and> lib r' = lib r \<and> (\<forall>u. thread_ok u r' = thread_ok u r)"
proof -
  obtain f fs where f: "pkt = f # fs" "length f < 2 ^ 64" using pkt by (cases pkt) (auto simp: pkt_ok_def)
  from sea.on_client_received_refines [OF ok, of f src] f(2) obtain r' where
    "on_client_received seastar_lib t src f r = Inr r'" "registered r' = spec_client src f (registered r)"
    "lib r' = lib r" by auto
  then show ?thesis using on_client_received_threads [of seastar_lib t src f r r']
    by (auto simp: client_body_def frag0_def f(1))
qed

lemma peer_body_spec:
  assumes ok: "thread_ok t r" and pkt: "pkt_ok pkt" "pkt \<noteq> []"
  shows "\<exists>r'. peer_body t pkt r = Inr r' \<and> registered r' = registered r \<and> (\<forall>u. thread_ok u r' = thread_ok u r)
    \<and> lib r' = (case spec_peer (registered r) (hd pkt) of
         None \<Rightarrow> lib r
       | Some (ep, _) \<Rightarrow> (lib r)(t := (lib r t)\<lparr>in_flight := Some (ep, pkt, hd pkt)\<rparr>))
    \<and> in_packets r' = in_packets r + 1 \<and> in_bytes r' = in_bytes r + of_nat (length (hd pkt))"
proof -
  obtain f fs where f: "pkt = f # fs" "length f < 2 ^ 64" using pkt by (cases pkt) (auto simp: pkt_ok_def)
  from sea.receive_peer_data_refines [OF ok, of f] f(2) obtain r1 where
    r1: "receive_peer_data seastar_lib t f r = Inr (if 8 \<le> length f then sessions r (load_le (take 8 f)) else None, r1)"
    "sessions r1 = sessions r" "lib r1 = lib r" "\<forall>u. thread_ok u r1 = thread_ok u r"
    "in_packets r1 = in_packets r + 1" "in_bytes r1 = in_bytes r + of_nat (length f)" by auto
  then show ?thesis
    by (auto simp: peer_body_def frag0_def f(1) spec_peer_def registered_def set_shard_def split: option.split)
qed

lemma sent_body_spec:
  assumes ok: "thread_ok t r" and flight: "in_flight (lib r t) = Some (ep, pkt, f)"
  shows "\<exists>r'. sent_body t r = Inr r' \<and> registered r' = registered r \<and> (\<forall>u. thread_ok u r' = thread_ok u r)
    \<and> lib r' = (lib r)(t := (lib r t)\<lparr>in_flight := None, transmitted := transmitted (lib r t) @ [(ep, pkt)]\<rparr>)"
proof -
  let ?r = "set_shard t (\<lambda>sh. sh\<lparr>in_flight := None, transmitted := transmitted sh @ [(ep, pkt)]\<rparr>) r"
  have "thread_ok t ?r" using ok by simp
  from on_session_sent_returns [OF this, of "\<lambda>l. l" "of_nat (length f)"] obtain sts where
    "on_session_sent (\<lambda>l. l) t (of_nat (length f)) ?r = Inr (?r\<lparr>per_thread_statistics := sts, lib := lib ?r\<rparr>)"
    "length sts = length (per_thread_statistics ?r)" by blast
  then show ?thesis
    using flight by (simp add: sent_body_def thread_ok_def registered_def set_shard_def)
qed

section \<open>Abstract specification\<close>

record 'ep seastar_spec =
  table :: "u64 \<rightharpoonup> 'ep"
  waiting :: "nat \<Rightarrow> ('ep \<times> fragments) option"
  sent :: "nat \<Rightarrow> ('ep \<times> fragments) list"

definition seastar_spec_init :: "'ep seastar_spec" where
  "seastar_spec_init = \<lparr>table = Map.empty, waiting = (\<lambda>_. None), sent = (\<lambda>_. [])\<rparr>"

text \<open>A shard handles the next peer datagram only when its send is over, so there is one slot for a
  datagram that waits. The datagram looked up is the first fragment, the one sent is the
  whole.\<close>

fun spec_event :: "'ep reactor_event \<Rightarrow> 'ep seastar_spec \<Rightarrow> 'ep seastar_spec" where
  "spec_event (Client_datagram t src pkt) a = a\<lparr>table := spec_client src (hd pkt) (table a)\<rparr>"
| "spec_event (Peer_datagram t pkt) a =
     a\<lparr>waiting := (waiting a)(t := map_option (\<lambda>(ep, _). (ep, pkt)) (spec_peer (table a) (hd pkt)))\<rparr>"
| "spec_event (Send_ready t) a =
     a\<lparr>waiting := (waiting a)(t := None),
       sent := (sent a)(t := sent a t @ (case waiting a t of None \<Rightarrow> [] | Some x \<Rightarrow> [x]))\<rparr>"
| "spec_event (Send_failed t) a = a\<lparr>waiting := (waiting a)(t := None)\<rparr>"
| "spec_event _ a = a"

definition seastar_abs :: "('ep, 'ep shards) relay \<Rightarrow> 'ep seastar_spec" where
  "seastar_abs r = \<lparr>table = registered r,
     waiting = (\<lambda>t. map_option (\<lambda>(ep, pkt, _). (ep, pkt)) (in_flight (lib r t))),
     sent = (\<lambda>t. transmitted (lib r t))\<rparr>"

fun event_ok :: "'ep reactor_event \<Rightarrow> bool" where
  "event_ok (Client_datagram t src pkt) = pkt_ok pkt"
| "event_ok (Peer_datagram t pkt) = pkt_ok pkt"
| "event_ok _ = True"

definition shards_ok :: "nat \<Rightarrow> ('ep, 'ep shards) relay \<Rightarrow> bool" where
  "shards_ok n r \<longleftrightarrow> (\<forall>t < n. thread_ok t r)"

lemma reactor_step_simulates:
  assumes ok: "shards_ok n r" and e: "event_ok e" and step: "reactor_step n r e r'"
  shows "shards_ok n r' \<and> seastar_abs r' = spec_event e (seastar_abs r)"
  using step
proof cases
  case (client t src pkt)
  with ok e client_body_spec [of t r pkt src] body_fragment(1) [OF client(4)] show ?thesis
    by (auto simp: shards_ok_def seastar_abs_def)
next
  case (peer t pkt)
  with ok e peer_body_spec [of t r pkt] body_fragment(2) [OF peer(5)] show ?thesis
    by (auto simp: shards_ok_def seastar_abs_def fun_eq_iff split: option.splits)
next
  case (ready t)
  then obtain ep pkt f where "in_flight (lib r t) = Some (ep, pkt, f)" by auto
  with ready ok sent_body_spec [of t r ep pkt f] show ?thesis
    by (auto simp: shards_ok_def seastar_abs_def fun_eq_iff)
next
  case (send_failed t)
  with ok show ?thesis by (auto simp: shards_ok_def seastar_abs_def fun_eq_iff)
next
  case (client_failed t)
  with ok show ?thesis by (auto simp: shards_ok_def seastar_abs_def fun_eq_iff)
next
  case (peer_failed t)
  with ok show ?thesis by (auto simp: shards_ok_def seastar_abs_def fun_eq_iff)
qed

lemma reactor_run_simulates:
  assumes "reactor_run n r es r'" and "shards_ok n r" and "\<forall>e \<in> set es. event_ok e"
  shows "shards_ok n r' \<and> seastar_abs r' = fold spec_event es (seastar_abs r)"
  using assms
proof induction
  case (reactor_more r es r1 e r2)
  then show ?case using reactor_step_simulates [of n r1 e r2] by simp
qed simp

lemma start_shards:
  assumes "k \<le> n" and "n < 2 ^ 16" and "length (per_thread_statistics r) = n"
  shows "\<exists>r'. foldR (\<lambda>i. on_thread_start i (of_nat i)) [0..<k] r = Inr r'
    \<and> (\<forall>t < k. thread_ok t r') \<and> length (per_thread_statistics r') = n \<and> lib r' = lib r \<and> sessions r' = sessions r"
  using assms(1)
proof (induction k)
  case 0
  show ?case using assms(3) by simp
next
  case (Suc k)
  then obtain r' where r': "foldR (\<lambda>i. on_thread_start i (of_nat i)) [0..<k] r = Inr r'" "\<forall>t < k. thread_ok t r'"
    "length (per_thread_statistics r') = n" "lib r' = lib r" "sessions r' = sessions r" by auto
  have "unat (of_nat k :: u16) = k" using Suc(2) assms(2) by (simp add: unat_of_nat)
  then have "on_thread_start k (of_nat k) r' = Inr (r'\<lparr>this_thread_statistics := (this_thread_statistics r')(k \<mapsto> k)\<rparr>)"
    using r'(3) Suc(2) by (simp add: on_thread_start_def)
  then have "foldR (\<lambda>i. on_thread_start i (of_nat i)) [0..<Suc k] r
      = Inr (r'\<lparr>this_thread_statistics := (this_thread_statistics r')(k \<mapsto> k)\<rparr>)"
    by (simp add: foldR_append r'(1))
  then show ?case using r' Suc(2) by (auto simp: thread_ok_def less_Suc_eq)
qed

lemma seastar_main_ok:
  assumes "n < 2 ^ 16"
  shows "\<exists>r. seastar_main n = Inr (r :: ('ep, 'ep shards) relay) \<and> shards_ok n r \<and> seastar_abs r = seastar_spec_init
    \<and> lib r = (\<lambda>_. shard_init)"
proof -
  let ?r = "relay_init (of_nat n) (\<lambda>_. shard_init) :: ('ep, 'ep shards) relay"
  have len: "length (per_thread_statistics ?r) = n" using assms by (simp add: relay_init_def unat_of_nat)
  from start_shards [OF order_refl assms len] obtain r where
    "seastar_main n = Inr r" "shards_ok n r" "lib r = lib ?r" "sessions r = sessions ?r"
    by (auto simp: seastar_main_def shards_ok_def)
  then show ?thesis
    by (auto simp: seastar_abs_def seastar_spec_init_def relay_init_def registered_def shard_init_def fun_eq_iff)
qed

text \<open>The index of a shard is 16 bits wide: with 65536 shards or more \<open>main\<close> does not get to its loops.\<close>

lemma start_frame: "foldR (\<lambda>i. on_thread_start i (of_nat i)) is r = Inr r' \<Longrightarrow>
    length (per_thread_statistics r') = length (per_thread_statistics r)"
  by (induction "is" arbitrary: r) (auto simp: on_thread_start_def split: if_splits)

lemma seastar_main_count:
  assumes "seastar_main n = Inr (r :: ('ep, 'ep shards) relay)" shows "n < 2 ^ 16"
proof (rule ccontr)
  assume many: "\<not> n < 2 ^ 16"
  define k where "k = n mod 2 ^ 16"
  let ?r = "relay_init (of_nat n) (\<lambda>_. shard_init) :: ('ep, 'ep shards) relay"
  have len: "length (per_thread_statistics ?r) = k" by (simp add: k_def relay_init_def unsigned_of_nat take_bit_eq_mod)
  have k: "k < 2 ^ 16" "unat (of_nat k :: u16) = k" by (simp_all add: k_def unat_of_nat)
  then have "k < n" using many by linarith
  then have "[0..<n] = [0..<k] @ k # [Suc k..<n]"
    using upt_add_eq_append [of 0 k "n - k"] by (simp add: upt_conv_Cons)
  with assms obtain r1 r2 where r1: "foldR (\<lambda>i. on_thread_start i (of_nat i)) [0..<k] ?r = Inr r1"
    and r2: "on_thread_start k (of_nat k) r1 = Inr r2"
    by (auto simp: seastar_main_def foldR_append)
  from start_frame [OF r1] len have "length (per_thread_statistics r1) = k" by simp
  with r2 k(2) show False by (simp add: on_thread_start_def)
qed

lemma seastar_mainD:
  assumes "seastar_main n = Inr (r :: ('ep, 'ep shards) relay)"
  shows "shards_ok n r" "seastar_abs r = seastar_spec_init" "lib r = (\<lambda>_. shard_init)"
  using seastar_main_ok [OF seastar_main_count [OF assms], where ?'ep = 'ep] assms(1) by auto

section \<open>A loop that has ended\<close>

lemma reactor_run_append:
  "reactor_run n r (es @ ks) r' \<Longrightarrow> \<exists>r1. reactor_run n r es r1 \<and> reactor_run n r1 ks r'"
proof (induction ks arbitrary: r' rule: rev_induct)
  case Nil
  then show ?case using reactor_start by auto
next
  case (snoc k ks)
  from snoc.prems obtain r2 where r2: "reactor_run n r (es @ ks) r2" "reactor_step n r2 k r'"
    by (cases rule: reactor_run.cases) (auto simp flip: append_assoc)
  from snoc.IH [OF r2(1)] r2(2) show ?case using reactor_more by blast
qed

lemma peer_loop_stays_down:
  assumes step: "reactor_step n r e r'" and ok: "shards_ok n r" "event_ok e" and down: "\<not> peer_loop (lib r t)"
  shows "\<not> peer_loop (lib r' t) \<and> transmitted (lib r' t) = transmitted (lib r t)
    \<and> (\<forall>pkt. e \<noteq> Peer_datagram t pkt) \<and> e \<noteq> Send_ready t"
  using step
proof cases
  case (client u src pkt)
  with ok down client_body_spec [of u r pkt src] body_fragment(1) [OF client(4)] show ?thesis by (auto simp: shards_ok_def)
next
  case (peer u pkt)
  with ok down peer_body_spec [of u r pkt] body_fragment(2) [OF peer(5)] show ?thesis by (auto simp: shards_ok_def split: option.splits)
next
  case (ready u)
  then obtain ep pkt f where "in_flight (lib r u) = Some (ep, pkt, f)" by auto
  with ready ok down sent_body_spec [of u r ep pkt f] show ?thesis by (auto simp: shards_ok_def)
qed (use down in auto)

lemma peer_loop_down_run:
  assumes "reactor_run n r es r'" and "shards_ok n r" "\<forall>e \<in> set es. event_ok e" and "\<not> peer_loop (lib r t)"
  shows "\<not> peer_loop (lib r' t) \<and> transmitted (lib r' t) = transmitted (lib r t)
    \<and> (\<forall>e \<in> set es. (\<forall>pkt. e \<noteq> Peer_datagram t pkt) \<and> e \<noteq> Send_ready t)"
  using assms
proof induction
  case (reactor_more r es r1 e r2)
  then have "shards_ok n r1" using reactor_run_simulates by auto
  with reactor_more peer_loop_stays_down [of n r1 e r2 t] show ?case by auto
qed simp

section \<open>Properties\<close>

text \<open>A loop of shard \<open>t\<close> that has not ended takes any datagram that has a fragment (without one, \<open>frag(0)\<close> is out
  of bounds), and the end of its send.\<close>

definition loops_go_on :: "nat \<Rightarrow> ('ep, 'ep shards) relay \<Rightarrow> nat \<Rightarrow> bool" where
  "loops_go_on n r t \<longleftrightarrow>
     (client_loop (lib r t) \<longrightarrow> (\<forall>src pkt. pkt_ok pkt \<and> pkt \<noteq> [] \<longrightarrow> (\<exists>r'. reactor_step n r (Client_datagram t src pkt) r')))
   \<and> (peer_loop (lib r t) \<and> in_flight (lib r t) = None \<longrightarrow>
       (\<forall>pkt. pkt_ok pkt \<and> pkt \<noteq> [] \<longrightarrow> (\<exists>r'. reactor_step n r (Peer_datagram t pkt) r')))
   \<and> (peer_loop (lib r t) \<and> in_flight (lib r t) \<noteq> None \<longrightarrow> (\<exists>r'. reactor_step n r (Send_ready t) r'))"

lemma loops_go_onI:
  assumes "shards_ok n r" and t: "t < n"
  shows "loops_go_on n r t"
proof -
  have ok: "thread_ok t r" using assms by (simp add: shards_ok_def)
  have "\<exists>r'. sent_body t r = Inr r'" if "in_flight (lib r t) \<noteq> None"
  proof -
    from that obtain ep pkt f where "in_flight (lib r t) = Some (ep, pkt, f)" by auto
    from sent_body_spec [OF ok this] show ?thesis by blast
  qed
  then show ?thesis
    using client_body_spec [OF ok] peer_body_spec [OF ok] t unfolding loops_go_on_def
    by (meson reactor_step.client reactor_step.peer reactor_step.ready)
qed

text \<open>C27. The seastar experiment forwards: from \<open>main\<close> on, in any order of reactor events, the registrations are
  the specified ones, in the one table of all shards, and each shard has transmitted, whole and in
  order, the peer datagrams whose first fragment starts with an identifier registered by then, but for
  those whose send failed; and a loop that has not ended can go on. This is for one shard, and for several in an
  execution in which the continuations of different shards do not overlap, which the code does not
  see to (\<open>dummy_mutex_races\<close>). Shards are fewer than 65536, or \<open>main\<close> fails.\<close>

theorem seastar_forwards:
  assumes "\<forall>e \<in> set es. event_ok e"
    and "seastar_main n = Inr r0" and "reactor_run n r0 es r"
  shows "registered r = table (fold spec_event es seastar_spec_init)
    \<and> (\<forall>t. transmitted (lib r t) = sent (fold spec_event es seastar_spec_init) t)
    \<and> (\<forall>t < n. loops_go_on n r t) \<and> n < 2 ^ 16"
proof -
  note seastar_mainD(1,2) [OF assms(2)]
  with reactor_run_simulates [OF assms(3) _ assms(1)]
  have "shards_ok n r" "seastar_abs r = fold spec_event es seastar_spec_init" by simp_all
  then show ?thesis
    using loops_go_onI seastar_main_count [OF assms(2)] by (auto simp: seastar_abs_def dest: sym)
qed

text \<open>C40. One failed send ends the forwarding of a shard for good: after it, the shard's peer loop
  handles no datagram any more, and what the shard has transmitted stays what it was, whatever
  happens later.\<close>

theorem seastar_failed_send_stops_forwarding:
  assumes "\<forall>e \<in> set (es @ Send_failed t # ks). event_ok e"
    and "seastar_main n = Inr r0" and "reactor_run n r0 (es @ Send_failed t # ks) r"
  shows "transmitted (lib r t) = sent (fold spec_event es seastar_spec_init) t
    \<and> (\<forall>e \<in> set ks. (\<forall>pkt. e \<noteq> Peer_datagram t pkt) \<and> e \<noteq> Send_ready t)"
proof -
  note init = seastar_mainD [OF assms(2)]
  have "reactor_run n r0 ((es @ [Send_failed t]) @ ks) r" using assms(3) by simp
  from reactor_run_append [OF this] obtain r2 where r2: "reactor_run n r0 (es @ [Send_failed t]) r2" "reactor_run n r2 ks r"
    by blast
  from r2(1) obtain r1 where r1: "reactor_run n r0 es r1" "reactor_step n r1 (Send_failed t) r2"
    by (cases rule: reactor_run.cases) auto
  have ok1: "shards_ok n r1" "seastar_abs r1 = fold spec_event es seastar_spec_init"
    using reactor_run_simulates [OF r1(1) init(1)] assms(1) init(2) by auto
  then have "shards_ok n r2" using reactor_step_simulates [OF _ _ r1(2)] by simp
  moreover have "\<not> peer_loop (lib r2 t)" "transmitted (lib r2 t) = transmitted (lib r1 t)"
    using r1(2) by (cases rule: reactor_step.cases; simp)+
  ultimately show ?thesis
    using peer_loop_down_run [OF r2(2), of t] assms(1) ok1(2) [symmetric] by (auto simp: seastar_abs_def)
qed

text \<open>Only the first fragment counts: a peer datagram whose first fragment is shorter than an
  identifier is dropped even if the whole of it starts with a registered one, and one that is
  forwarded is counted, in and out, with the size of its first fragment, though all of it is sent.
  No datagram makes a handler fault.\<close>

theorem seastar_first_fragment:
  assumes "thread_ok t r" and "length f < 2 ^ 64"
  shows "\<exists>r'. peer_body t (f # fs) r = Inr r' \<and> in_bytes r' = in_bytes r + of_nat (length f)
    \<and> (length f < 8 \<or> registered r (load_le (take 8 f)) = None \<longrightarrow> lib r' = lib r)
    \<and> (\<forall>ep. 8 \<le> length f \<and> registered r (load_le (take 8 f)) = Some ep \<longrightarrow>
          in_flight (lib r' t) = Some (ep, f # fs, f)
        \<and> (\<exists>r''. sent_body t r' = Inr r'' \<and> transmitted (lib r'' t) = transmitted (lib r' t) @ [(ep, f # fs)]
              \<and> on_session_sent (\<lambda>l. l) t (of_nat (length f)) (r'\<lparr>lib := lib r''\<rparr>) = Inr r''))"
proof -
  have pkt: "pkt_ok (f # fs)" using assms(2) by (simp add: pkt_ok_def)
  from peer_body_spec [OF assms(1) pkt list.distinct(2), unfolded list.sel] obtain r' where
    r': "peer_body t (f # fs) r = Inr r'" "thread_ok t r'" "in_bytes r' = in_bytes r + of_nat (length f)"
    "lib r' = (case spec_peer (registered r) f of
         None \<Rightarrow> lib r
       | Some (ep, _) \<Rightarrow> (lib r)(t := (lib r t)\<lparr>in_flight := Some (ep, f # fs, f)\<rparr>))" using assms(1) by auto
  have "\<exists>r''. sent_body t r' = Inr r'' \<and> transmitted (lib r'' t) = transmitted (lib r' t) @ [(ep, f # fs)]
      \<and> on_session_sent (\<lambda>l. l) t (of_nat (length f)) (r'\<lparr>lib := lib r''\<rparr>) = Inr r''"
    if flight: "in_flight (lib r' t) = Some (ep, f # fs, f)" for ep
  proof -
    from sent_body_spec [OF r'(2) flight] obtain r'' where
      r'': "sent_body t r' = Inr r''" "lib r'' = (lib r')(t := (lib r' t)\<lparr>in_flight := None,
        transmitted := transmitted (lib r' t) @ [(ep, f # fs)]\<rparr>)" by blast
    moreover have "on_session_sent (\<lambda>l. l) t (of_nat (length f)) (r'\<lparr>lib := lib r''\<rparr>) = Inr r''"
      using r'' flight by (simp add: sent_body_def set_shard_def)
    ultimately show ?thesis by simp
  qed
  then show ?thesis
    using r' by (intro exI [of _ r']) (auto simp: spec_peer_def)
qed

section \<open>A concrete run on one shard\<close>

text \<open>A client registers, its peer sends twice, the second send fails.\<close>

definition sea_before :: "u64 reactor_event list" where
  "sea_before = [Client_datagram 0 11 [store_le 8 1], Peer_datagram 0 [store_le 8 1, [100]], Send_ready 0,
     Peer_datagram 0 [store_le 8 1 @ [101]]]"

definition sea_after :: "u64 reactor_event list" where
  "sea_after = [Client_datagram 0 12 [store_le 8 2]]"

lemma sea_events_ok: "\<forall>e \<in> set (sea_before @ Send_failed 0 # sea_after). event_ok e"
  by (simp add: sea_before_def sea_after_def pkt_ok_def)

lemma sea_spec:
  "sent (fold spec_event sea_before seastar_spec_init) 0 = [(11, [store_le 8 1, [100]])]"
  "table (fold spec_event (sea_before @ Send_failed 0 # sea_after) seastar_spec_init) = [1 \<mapsto> 11, 2 \<mapsto> 12]"
  by (simp_all add: sea_before_def sea_after_def seastar_spec_init_def spec_client_def spec_peer_def del: store_le.simps)

lemma sea_run:
  "\<exists>r0 r. seastar_main 1 = Inr (r0 :: (u64, u64 shards) relay) \<and> reactor_run 1 r0 sea_before r
     \<and> thread_ok 0 r \<and> in_flight (lib r 0) \<noteq> None \<and> peer_loop (lib r 0) \<and> client_loop (lib r 0)"
proof -
  obtain r0 :: "(u64, u64 shards) relay" where r0: "seastar_main 1 = Inr r0" using seastar_main_ok [of 1] by auto
  note init = seastar_mainD [OF r0]
  have ok0: "thread_ok 0 r0" "registered r0 = Map.empty" "lib r0 = (\<lambda>_. shard_init)"
    using init by (auto simp: shards_ok_def seastar_abs_def seastar_spec_init_def)
  have pkts: "pkt_ok [store_le 8 1]" "pkt_ok [store_le 8 1, [100]]" "pkt_ok [store_le 8 1 @ [101]]"
    by (simp_all add: pkt_ok_def)
  from client_body_spec [OF ok0(1) pkts(1) list.distinct(2), of 11] obtain r1 where
    r1: "client_body 0 11 [store_le 8 1] r0 = Inr r1" "registered r1 = [1 \<mapsto> 11]" "lib r1 = lib r0" "thread_ok 0 r1"
    using ok0 by (auto simp: spec_client_def simp del: store_le.simps)
  from peer_body_spec [OF r1(4) pkts(2) list.distinct(2)] obtain r2 where
    r2: "peer_body 0 [store_le 8 1, [100]] r1 = Inr r2" "registered r2 = [1 \<mapsto> 11]" "thread_ok 0 r2"
    "lib r2 0 = shard_init\<lparr>in_flight := Some (11, [store_le 8 1, [100]], store_le 8 1)\<rparr>"
    using r1 ok0 by (auto simp: spec_peer_def simp del: store_le.simps)
  then have "in_flight (lib r2 0) = Some (11, [store_le 8 1, [100]], store_le 8 1)" by simp
  from sent_body_spec [OF r2(3) this] obtain r3 where
    r3: "sent_body 0 r2 = Inr r3" "registered r3 = [1 \<mapsto> 11]" "thread_ok 0 r3"
    "lib r3 0 = shard_init\<lparr>in_flight := None, transmitted := [(11, [store_le 8 1, [100]])]\<rparr>"
    using r2 by (auto simp: shard_init_def)
  from peer_body_spec [OF r3(3) pkts(3) list.distinct(2)] obtain r4 where
    r4: "peer_body 0 [store_le 8 1 @ [101]] r3 = Inr r4" "thread_ok 0 r4"
    "in_flight (lib r4 0) \<noteq> None" "peer_loop (lib r4 0)" "client_loop (lib r4 0)"
    using r3 by (auto simp: spec_peer_def shard_init_def simp del: store_le.simps)
  have s1: "reactor_step 1 r0 (Client_datagram 0 11 [store_le 8 1]) r1"
    by (rule reactor_step.client) (use r1(1) ok0(3) in \<open>simp_all add: shard_init_def\<close>)
  have s2: "reactor_step 1 r1 (Peer_datagram 0 [store_le 8 1, [100]]) r2"
    by (rule reactor_step.peer) (use r2(1) r1(3) ok0(3) in \<open>simp_all add: shard_init_def\<close>)
  have s3: "reactor_step 1 r2 (Send_ready 0) r3"
    by (rule reactor_step.ready) (use r3(1) r2(4) in \<open>simp_all add: shard_init_def\<close>)
  have s4: "reactor_step 1 r3 (Peer_datagram 0 [store_le 8 1 @ [101]]) r4"
    by (rule reactor_step.peer) (use r4(1) r3(4) in \<open>simp_all add: shard_init_def\<close>)
  have "reactor_run 1 r0 (((([] @ [Client_datagram 0 11 [store_le 8 1]]) @ [Peer_datagram 0 [store_le 8 1, [100]]])
      @ [Send_ready 0]) @ [Peer_datagram 0 [store_le 8 1 @ [101]]]) r4"
    by (rule reactor_more [OF reactor_more [OF reactor_more [OF reactor_more [OF reactor_start s1] s2] s3] s4])
  then have "reactor_run 1 r0 sea_before r4" by (simp add: sea_before_def del: store_le.simps)
  with r0 r4 show ?thesis by blast
qed

lemma sea_run_failed:
  "\<exists>r0 r. seastar_main 1 = Inr (r0 :: (u64, u64 shards) relay) \<and> reactor_run 1 r0 (sea_before @ Send_failed 0 # sea_after) r"
proof -
  from sea_run obtain r0 r where r: "seastar_main 1 = Inr (r0 :: (u64, u64 shards) relay)" "reactor_run 1 r0 sea_before r"
    "thread_ok 0 r" "in_flight (lib r 0) \<noteq> None" "peer_loop (lib r 0)" "client_loop (lib r 0)" by blast
  let ?r = "set_shard 0 (\<lambda>sh. sh\<lparr>peer_loop := False, in_flight := None\<rparr>) r"
  have "pkt_ok [store_le 8 2]" by (simp add: pkt_ok_def)
  from client_body_spec [of 0 ?r, OF _ this list.distinct(2), of 12] r(3) obtain r' where
    r': "client_body 0 12 [store_le 8 2] ?r = Inr r'" by auto
  have s1: "reactor_step 1 r (Send_failed 0) ?r" by (rule reactor_step.send_failed) (use r in simp_all)
  have s2: "reactor_step 1 ?r (Client_datagram 0 12 [store_le 8 2]) r'"
    by (rule reactor_step.client) (use r r' in simp_all)
  have "reactor_run 1 r0 ((sea_before @ [Send_failed 0]) @ [Client_datagram 0 12 [store_le 8 2]]) r'"
    by (rule reactor_more [OF reactor_more [OF r(2) s1] s2])
  then have "reactor_run 1 r0 (sea_before @ Send_failed 0 # sea_after) r'" by (simp add: sea_after_def del: store_le.simps)
  with r(1) show ?thesis by blast
qed

theorem seastar_forwards_witness:
  "\<exists>r0 r. seastar_main 1 = Inr (r0 :: (u64, u64 shards) relay)
     \<and> reactor_run 1 r0 (sea_before @ Send_failed 0 # sea_after) r \<and> registered r = [1 \<mapsto> 11, 2 \<mapsto> 12]"
proof -
  from sea_run_failed obtain r0 r where r: "seastar_main 1 = Inr (r0 :: (u64, u64 shards) relay)"
    "reactor_run 1 r0 (sea_before @ Send_failed 0 # sea_after) r" by blast
  from seastar_forwards [OF sea_events_ok r] have "registered r = [1 \<mapsto> 11, 2 \<mapsto> 12]"
    by (simp only: sea_spec)
  with r show ?thesis by blast
qed

theorem seastar_failed_send_stops_forwarding_witness:
  "\<exists>r0 r. seastar_main 1 = Inr (r0 :: (u64, u64 shards) relay)
     \<and> reactor_run 1 r0 (sea_before @ Send_failed 0 # sea_after) r \<and> transmitted (lib r 0) = [(11, [store_le 8 1, [100]])]"
proof -
  from sea_run_failed obtain r0 r where r: "seastar_main 1 = Inr (r0 :: (u64, u64 shards) relay)"
    "reactor_run 1 r0 (sea_before @ Send_failed 0 # sea_after) r" by blast
  from seastar_failed_send_stops_forwarding [OF sea_events_ok r] r show ?thesis
    by (auto simp: sea_spec simp del: store_le.simps)
qed

theorem seastar_first_fragment_witness:
  "\<exists>r r'. thread_ok 0 (r :: (u64, u64 shards) relay) \<and> peer_body 0 [[1], store_le 8 1] r = Inr r' \<and> lib r' = lib r"
proof -
  from sea_run obtain r :: "(u64, u64 shards) relay" where r: "thread_ok 0 r" by blast
  have "length [1 :: u8] < 2 ^ 64" by simp
  from seastar_first_fragment [OF r this, of "[store_le 8 1]"] r show ?thesis by force
qed

end
