(* ===== verification/Demi.thy ===== *)
theory Demi
  imports Relay
begin

text \<open>
  The demikernel experiment, \<^verbatim>\<open>demi/relay.cpp\<close> and \<^verbatim>\<open>demi/relay.hpp\<close>: its one worker, \<open>begin_frame\<close>, the
  loop that waits for a pop of either socket, and \<open>start_send\<close>. The libOS (\<^verbatim>\<open>demi/dmtr\<close> holds only its
  headers) is the environment. What the code relies on: a pop gives a new token, a datagram
  that arrives completes one pop of its queue, \<open>dmtr_wait_any\<close> returns the result of one of the
  tokens it is given, and \<open>dmtr_pushto\<close> sends its first segment to the address. The codes the calls
  return are parameters; in a run they are different for each step and may be errors, on which the worker aborts.
\<close>

section \<open>State\<close>

record 'ep qresult =
  sga_addr :: 'ep
  sga_seg :: "u8 list"

record 'ep io_vectors =
  capacity :: int
  vec_packet_size :: int
  res :: "'ep qresult option"
  op_token :: nat

record 'ep io_state =
  tx_length :: int
  rx :: "'ep io_vectors"
  tx :: "'ep io_vectors"

text \<open>The worker, and the part of the libOS its calls change: the tokens given out, the pops that wait,
  those that are complete, and what was pushed.\<close>

record 'ep demi_worker =
  peer_socket :: nat
  client_socket :: nat
  peers_io :: "'ep io_state"
  clients_io :: "'ep io_state"
  next_token :: nat
  pending :: "(nat \<times> nat) list"
  completed :: "(nat \<times> 'ep qresult) list"
  pushed :: "('ep \<times> u8 list) list"
  tokens :: "nat list"

definition k_memory_per_packet :: int where "k_memory_per_packet = 1024"

definition k_demi_capacity :: int where "k_demi_capacity = 65536"

text \<open>\<open>res\<close> and \<open>op_token\<close> are not initialised.\<close>

definition io_vectors_init :: "int \<Rightarrow> int \<Rightarrow> 'ep io_vectors" where
  "io_vectors_init cap size_of_packet = \<lparr>capacity = cap, vec_packet_size = size_of_packet, res = None, op_token = 0\<rparr>"

definition io_state_init :: "int \<Rightarrow> 'ep io_state" where
  "io_state_init cap = \<lparr>tx_length = 0, rx = io_vectors_init cap k_memory_per_packet, tx = io_vectors_init cap k_memory_per_packet\<rparr>"

definition dmtr_ok :: "int \<Rightarrow> unit res" where
  "dmtr_ok code = (if code = 0 then Inr () else Inl (Abort ''dmtr error code''))"

text \<open>An address is named by the port it was resolved from. \<open>gai_rc\<close>, \<open>socket_rc\<close> and \<open>bind_rc\<close> are the
  codes of the calls; the \<open>sfd\<close>-th socket has the number \<open>sfd\<close>.\<close>

definition ensure_success :: "int \<Rightarrow> unit res" where
  "ensure_success code = (if code \<ge> 0 then Inr () else Inl (Abort ''ensure_success''))"

definition bindable_address :: "(string \<Rightarrow> int) \<Rightarrow> string \<Rightarrow> string res" where
  "bindable_address gai_rc port = bindR (ensure_success (gai_rc port)) (\<lambda>_. Inr port)"

definition create_udp_socket :: "(nat \<Rightarrow> int) \<Rightarrow> (nat \<Rightarrow> string \<Rightarrow> int) \<Rightarrow> nat \<Rightarrow> string \<Rightarrow> nat res" where
  "create_udp_socket socket_rc bind_rc sfd address =
     bindR (dmtr_ok (socket_rc sfd)) (\<lambda>_. bindR (dmtr_ok (bind_rc sfd address)) (\<lambda>_. Inr sfd))"

definition io_worker_init ::
  "(nat \<Rightarrow> int) \<Rightarrow> (nat \<Rightarrow> string \<Rightarrow> int) \<Rightarrow> string \<Rightarrow> string \<Rightarrow> 'ep demi_worker res"
where
  "io_worker_init socket_rc bind_rc local_client_address local_peer_address =
     bindR (create_udp_socket socket_rc bind_rc 0 local_peer_address) (\<lambda>p.
     bindR (create_udp_socket socket_rc bind_rc 1 local_client_address) (\<lambda>c.
     Inr \<lparr>peer_socket = p, client_socket = c, peers_io = io_state_init k_demi_capacity,
          clients_io = io_state_init k_demi_capacity, next_token = 0, pending = [], completed = [],
          pushed = [], tokens = []\<rparr>))"

section \<open>Calls into the libOS\<close>

definition dmtr_pop :: "(nat \<Rightarrow> int) \<Rightarrow> nat \<Rightarrow> 'ep demi_worker \<Rightarrow> (nat \<times> 'ep demi_worker) res" where
  "dmtr_pop pop_rc qd w =
     bindR (dmtr_ok (pop_rc (next_token w))) (\<lambda>_.
     Inr (next_token w, w\<lparr>next_token := next_token w + 1, pending := pending w @ [(next_token w, qd)]\<rparr>))"

definition set_rx :: "('ep io_vectors \<Rightarrow> 'ep io_vectors) \<Rightarrow> 'ep io_state \<Rightarrow> 'ep io_state" where
  "set_rx f io = io\<lparr>rx := f (rx io)\<rparr>"

definition io_worker_begin_frame :: "(nat \<Rightarrow> int) \<Rightarrow> 'ep demi_worker \<Rightarrow> 'ep demi_worker res" where
  "io_worker_begin_frame pop_rc w =
     (let w = w\<lparr>clients_io := (clients_io w)\<lparr>tx_length := 0\<rparr>\<rparr>
      in bindR (dmtr_pop pop_rc (client_socket w) w) (\<lambda>(t, w).
         let w = w\<lparr>clients_io := set_rx (\<lambda>v. v\<lparr>op_token := t\<rparr>) (clients_io w)\<rparr>
         in bindR (dmtr_pop pop_rc (peer_socket w) w) (\<lambda>(t, w).
            Inr (w\<lparr>peers_io := set_rx (\<lambda>v. v\<lparr>op_token := t\<rparr>) (peers_io w)\<rparr>))))"

text \<open>\<open>demi::session::start_send\<close>: the last datagram of a client is pushed, to its own sender; then
  \<open>on_session_sent\<close> counts the packet.\<close>

definition start_send ::
  "(nat \<Rightarrow> int) \<Rightarrow> (nat \<Rightarrow> int) \<Rightarrow> nat \<Rightarrow> 'ep session \<Rightarrow> u8 list
     \<Rightarrow> ('ep, 'ep demi_worker) relay \<Rightarrow> ('ep, 'ep demi_worker) relay res"
where
  "start_send push_rc wait_rc t s p r =
     (let w = (lib r)\<lparr>clients_io := (clients_io (lib r))\<lparr>tx_length := tx_length (clients_io (lib r)) + 1\<rparr>\<rparr>
      in case res (rx (clients_io w)) of
           None \<Rightarrow> Inl Undefined_behaviour
         | Some qr \<Rightarrow>
             bindR (dmtr_ok (push_rc (next_token w))) (\<lambda>_.
             bindR (dmtr_ok (if wait_rc (next_token w) \<noteq> 0 then 1 else 0)) (\<lambda>_.
             on_session_sent (\<lambda>l. l) t (of_nat (length p))
               (r\<lparr>lib := w\<lparr>next_token := next_token w + 1, pushed := pushed w @ [(sga_addr qr, sga_seg qr)]\<rparr>\<rparr>))))"

definition demi_lib :: "(nat \<Rightarrow> int) \<Rightarrow> (nat \<Rightarrow> int) \<Rightarrow> ('ep, u8 list, 'ep demi_worker) library" where
  "demi_lib push_rc wait_rc =
     \<lparr>packet_data = (\<lambda>_ p. p),
      packet_size = (\<lambda>p. of_nat (length p)),
      client_start_receive = (\<lambda>l. l),
      peer_start_receive = (\<lambda>l. l),
      session_start_send = start_send push_rc wait_rc\<rparr>"

section \<open>The worker\<close>

text \<open>The loop body up to \<open>dmtr_wait_any\<close>: the tokens waited for, the peer's first.\<close>

definition worker_begin :: "(nat \<Rightarrow> int) \<Rightarrow> ('ep, 'ep demi_worker) relay \<Rightarrow> ('ep, 'ep demi_worker) relay res" where
  "worker_begin pop_rc r =
     bindR (io_worker_begin_frame pop_rc (lib r)) (\<lambda>w.
     Inr (r\<lparr>lib := w\<lparr>tokens := [op_token (rx (peers_io w)), op_token (rx (clients_io w))]\<rparr>\<rparr>))"

text \<open>The rest of the body: \<open>dmtr_wait_any\<close> has returned \<open>result\<close> for the token with index \<open>token_index\<close>.\<close>

definition worker_handle ::
  "(nat \<Rightarrow> int) \<Rightarrow> (nat \<Rightarrow> int) \<Rightarrow> nat \<Rightarrow> nat \<Rightarrow> 'ep qresult
     \<Rightarrow> ('ep, 'ep demi_worker) relay \<Rightarrow> ('ep, 'ep demi_worker) relay res"
where
  "worker_handle push_rc wait_rc t token_index result r =
     (if token_index = 0
      then bindR (on_peer_received (demi_lib push_rc wait_rc) t (sga_seg result)
             (r\<lparr>lib := (lib r)\<lparr>peers_io := set_rx (\<lambda>v. v\<lparr>res := Some result\<rparr>) (peers_io (lib r))\<rparr>\<rparr>)) (\<lambda>(_, r). Inr r)
      else if token_index = 1
      then on_client_received (demi_lib push_rc wait_rc) t (sga_addr result) (sga_seg result)
             (r\<lparr>lib := (lib r)\<lparr>clients_io := set_rx (\<lambda>v. v\<lparr>res := Some result\<rparr>) (clients_io (lib r))\<rparr>\<rparr>)
      else Inr r)"

definition worker_start ::
  "(nat \<Rightarrow> int) \<Rightarrow> (nat \<Rightarrow> string \<Rightarrow> int) \<Rightarrow> string \<Rightarrow> string \<Rightarrow> u16 \<Rightarrow> nat \<Rightarrow> ('ep, 'ep demi_worker) relay res"
where
  "worker_start socket_rc bind_rc local_client_address local_peer_address threads t =
     bindR (io_worker_init socket_rc bind_rc local_client_address local_peer_address) (\<lambda>w.
     on_thread_start t 0 (relay_init threads w))"

text \<open>\<open>run\<close>, up to the loop of its one worker: the ports of the command line are not used.\<close>

definition run_demi ::
  "(string \<Rightarrow> int) \<Rightarrow> (nat \<Rightarrow> int) \<Rightarrow> (nat \<Rightarrow> string \<Rightarrow> int) \<Rightarrow> u16 \<Rightarrow> nat \<Rightarrow> ('ep, 'ep demi_worker) relay res"
where
  "run_demi gai_rc socket_rc bind_rc threads t =
     bindR (bindable_address gai_rc ''3478'') (\<lambda>local_client_address.
     bindR (bindable_address gai_rc ''3479'') (\<lambda>local_peer_address.
     worker_start socket_rc bind_rc local_client_address local_peer_address threads t))"

text \<open>The worker starts a frame when it waits for nothing; a datagram on a queue completes any pop of that
  queue; a completed pop that is waited for is handled.\<close>

datatype 'ep demi_event =
    Begins
  | Arrives nat nat "'ep qresult"
  | Handles nat nat "'ep qresult"

inductive demi_step :: "nat \<Rightarrow> ('ep, 'ep demi_worker) relay \<Rightarrow> 'ep demi_event \<Rightarrow> ('ep, 'ep demi_worker) relay \<Rightarrow> bool"
  for t where
  begins: "tokens (lib r) = [] \<Longrightarrow> worker_begin pop_rc r = Inr r' \<Longrightarrow> demi_step t r Begins r'"
| arrives: "(tok, qd) \<in> set (pending (lib r)) \<Longrightarrow> demi_step t r (Arrives tok qd qr)
     (r\<lparr>lib := (lib r)\<lparr>pending := remove1 (tok, qd) (pending (lib r)), completed := completed (lib r) @ [(tok, qr)]\<rparr>\<rparr>)"
| handles: "k < length (tokens (lib r)) \<Longrightarrow> (tokens (lib r) ! k, qr) \<in> set (completed (lib r)) \<Longrightarrow>
     worker_handle push_rc wait_rc t k qr
       (r\<lparr>lib := (lib r)\<lparr>tokens := [], completed := remove1 (tokens (lib r) ! k, qr) (completed (lib r))\<rparr>\<rparr>) = Inr r'
     \<Longrightarrow> demi_step t r (Handles (tokens (lib r) ! k) k qr) r'"

inductive demi_run :: "nat \<Rightarrow> ('ep, 'ep demi_worker) relay \<Rightarrow> 'ep demi_event list \<Rightarrow> ('ep, 'ep demi_worker) relay \<Rightarrow> bool"
  for t where
  demi_start: "demi_run t r [] r"
| demi_more: "demi_run t r es r1 \<Longrightarrow> demi_step t r1 e r2 \<Longrightarrow> demi_run t r (es @ [e]) r2"

section \<open>Handlers\<close>

interpretation dem: relay_library "demi_lib push_rc wait_rc" "\<lambda>_ p. length p < 2 ^ 64"
  for push_rc :: "nat \<Rightarrow> int" and wait_rc :: "nat \<Rightarrow> int"
  by unfold_locales (simp add: demi_lib_def unat_of_nat)

lemma demi_lib_simps [simp]:
  "packet_data (demi_lib a b) l p = p" "packet_size (demi_lib a b) p = of_nat (length p)"
  "client_start_receive (demi_lib a b) l = l" "peer_start_receive (demi_lib a b) l = l"
  "session_start_send (demi_lib a b) = start_send a b"
  by (simp_all add: demi_lib_def)

text \<open>The state but for the counters of the sends.\<close>

definition last_client :: "'ep demi_worker \<Rightarrow> ('ep \<times> u8 list) option" where
  "last_client w = map_option (\<lambda>qr. (sga_addr qr, sga_seg qr)) (res (rx (clients_io w)))"

definition demi_ok :: "nat \<Rightarrow> ('ep, 'ep demi_worker) relay \<Rightarrow> bool" where
  "demi_ok t r \<longleftrightarrow> thread_ok t r \<and> (sessions r \<noteq> Map.empty \<longrightarrow> last_client (lib r) \<noteq> None)"

lemma client_handler:
  assumes ok: "thread_ok t r" and len: "length (sga_seg qr) < 2 ^ 64"
  shows "\<exists>r'. worker_handle (\<lambda>_. 0) (\<lambda>_. 0) t 1 qr r = Inr r' \<and> thread_ok t r'
    \<and> registered r' = spec_client (sga_addr qr) (sga_seg qr) (registered r)
    \<and> lib r' = (lib r)\<lparr>clients_io := set_rx (\<lambda>v. v\<lparr>res := Some qr\<rparr>) (clients_io (lib r))\<rparr>"
proof -
  let ?r = "r\<lparr>lib := (lib r)\<lparr>clients_io := set_rx (\<lambda>v. v\<lparr>res := Some qr\<rparr>) (clients_io (lib r))\<rparr>\<rparr>"
  have "thread_ok t ?r" "registered ?r = registered r" using ok by (simp_all add: registered_def)
  with dem.on_client_received_refines [of t ?r "sga_seg qr" "\<lambda>_. 0" "\<lambda>_. 0" "sga_addr qr"] len show ?thesis
    by (auto simp: worker_handle_def)
qed

lemma start_send_spec:
  assumes ok: "thread_ok t r" and last: "last_client (lib r) = Some x"
  shows "\<exists>r'. start_send (\<lambda>_. 0) (\<lambda>_. 0) t s p r = Inr r' \<and> thread_ok t r' \<and> sessions r' = sessions r
    \<and> last_client (lib r') = Some x \<and> tokens (lib r') = tokens (lib r) \<and> pending (lib r') = pending (lib r)
    \<and> completed (lib r') = completed (lib r) \<and> next_token (lib r') = next_token (lib r) + 1
    \<and> pushed (lib r') = pushed (lib r) @ [x]
    \<and> peer_socket (lib r') = peer_socket (lib r) \<and> client_socket (lib r') = client_socket (lib r)"
proof -
  from last obtain qr where qr: "res (rx (clients_io (lib r))) = Some qr" "x = (sga_addr qr, sga_seg qr)"
    by (auto simp: last_client_def)
  let ?w = "(lib r)\<lparr>clients_io := (clients_io (lib r))\<lparr>tx_length := tx_length (clients_io (lib r)) + 1\<rparr>,
     next_token := next_token (lib r) + 1, pushed := pushed (lib r) @ [x]\<rparr>"
  have "thread_ok t (r\<lparr>lib := ?w\<rparr>)" using ok by simp
  from on_session_sent_returns [OF this, of "\<lambda>l. l" "of_nat (length p)"] obtain sts where
    "on_session_sent (\<lambda>l. l) t (of_nat (length p)) (r\<lparr>lib := ?w\<rparr>)
       = Inr ((r\<lparr>lib := ?w\<rparr>)\<lparr>per_thread_statistics := sts, lib := lib (r\<lparr>lib := ?w\<rparr>)\<rparr>)"
    "length sts = length (per_thread_statistics (r\<lparr>lib := ?w\<rparr>))" by blast
  with ok qr show ?thesis
    by (simp add: start_send_def Let_def dmtr_ok_def last_client_def thread_ok_def)
qed

lemma peer_handler:
  assumes ok: "demi_ok t r" and len: "length (sga_seg qr) < 2 ^ 64"
  shows "\<exists>r'. worker_handle (\<lambda>_. 0) (\<lambda>_. 0) t 0 qr r = Inr r' \<and> thread_ok t r' \<and> registered r' = registered r
    \<and> sessions r' = sessions r
    \<and> last_client (lib r') = last_client (lib r) \<and> tokens (lib r') = tokens (lib r) \<and> pending (lib r') = pending (lib r)
    \<and> completed (lib r') = completed (lib r) \<and> next_token (lib r) \<le> next_token (lib r')
    \<and> pushed (lib r') = pushed (lib r) @
        (if spec_peer (registered r) (sga_seg qr) = None then [] else [the (last_client (lib r))])
    \<and> peer_socket (lib r') = peer_socket (lib r) \<and> client_socket (lib r') = client_socket (lib r)"
proof -
  let ?r = "r\<lparr>lib := (lib r)\<lparr>peers_io := set_rx (\<lambda>v. v\<lparr>res := Some qr\<rparr>) (peers_io (lib r))\<rparr>\<rparr>" and ?bs = "sga_seg qr"
  let ?L = "demi_lib (\<lambda>_. 0) (\<lambda>_. 0)"
  have r: "thread_ok t ?r" using ok by (simp add: demi_ok_def)
  from dem.on_peer_received_cases [OF r len, of "\<lambda>_. 0" "\<lambda>_. 0", unfolded demi_lib_simps] obtain r1 where
    r1': "sessions r1 = sessions ?r" "lib r1 = lib ?r" "thread_ok t r1" and
    run: "on_peer_received ?L t ?bs ?r =
        (if 8 \<le> length ?bs
         then case sessions ?r (load_le (take 8 ?bs)) of
                None \<Rightarrow> Inr (False, restart_peer_receive ?L r1)
              | Some s \<Rightarrow> bindR (start_send (\<lambda>_. 0) (\<lambda>_. 0) t s ?bs r1) (\<lambda>r'. Inr (True, r'))
         else Inr (False, restart_peer_receive ?L r1))"
    by blast
  have r1: "sessions r1 = sessions r" "lib r1 = lib ?r" "thread_ok t r1" "sessions ?r = sessions r" using r1' by simp_all
  show ?thesis
  proof (cases "spec_peer (registered r) ?bs")
    case None
    then have "on_peer_received ?L t ?bs ?r = Inr (False, restart_peer_receive ?L r1)"
      unfolding run by (simp add: spec_peer_def registered_def split: if_splits)
    with None r1 show ?thesis by (simp add: worker_handle_def registered_def last_client_def)
  next
    case (Some y)
    then obtain s where s: "8 \<le> length ?bs" "sessions r (load_le (take 8 ?bs)) = Some s"
      by (auto simp: spec_peer_def registered_def split: if_splits)
    then have "sessions r \<noteq> Map.empty" by auto
    then obtain x where x: "last_client (lib r) = Some x" using ok by (auto simp: demi_ok_def)
    then have "last_client (lib r1) = Some x" using r1(2) by (simp add: last_client_def)
    from start_send_spec [OF r1(3) this, of s ?bs] obtain r' where
      "start_send (\<lambda>_. 0) (\<lambda>_. 0) t s ?bs r1 = Inr r'" "thread_ok t r'" "sessions r' = sessions r"
      "last_client (lib r') = Some x" "tokens (lib r') = tokens (lib r)" "pending (lib r') = pending (lib r)"
      "completed (lib r') = completed (lib r)" "next_token (lib r') = next_token (lib r) + 1"
      "pushed (lib r') = pushed (lib r) @ [x]" "peer_socket (lib r') = peer_socket (lib r)"
      "client_socket (lib r') = client_socket (lib r)" using r1(1,2) by auto
    with Some s x run show ?thesis by (auto simp: worker_handle_def registered_def)
  qed
qed

lemma worker_begin_spec:
  "\<exists>r'. worker_begin (\<lambda>_. 0) r = Inr r' \<and> sessions r' = sessions r \<and> registered r' = registered r
     \<and> thread_ok t r' = thread_ok t r \<and> last_client (lib r') = last_client (lib r)
     \<and> tokens (lib r') = [next_token (lib r) + 1, next_token (lib r)]
     \<and> pending (lib r') = pending (lib r) @ [(next_token (lib r), client_socket (lib r)), (next_token (lib r) + 1, peer_socket (lib r))]
     \<and> completed (lib r') = completed (lib r) \<and> next_token (lib r') = next_token (lib r) + 2
     \<and> pushed (lib r') = pushed (lib r)
     \<and> peer_socket (lib r') = peer_socket (lib r) \<and> client_socket (lib r') = client_socket (lib r)"
  by (simp add: worker_begin_def io_worker_begin_frame_def Let_def dmtr_pop_def dmtr_ok_def set_rx_def
      last_client_def registered_def thread_ok_def)

section \<open>Calls that return an error\<close>

text \<open>The error codes of the libOS end the process; otherwise they make no difference.\<close>

lemma worker_begin_codes:
  "worker_begin pop_rc r = (if pop_rc (next_token (lib r)) \<noteq> 0 \<or> pop_rc (next_token (lib r) + 1) \<noteq> 0
     then Inl (Abort ''dmtr error code'') else worker_begin (\<lambda>_. 0) r)"
  by (simp add: worker_begin_def io_worker_begin_frame_def Let_def dmtr_pop_def dmtr_ok_def)

lemma start_send_codes:
  "start_send push_rc wait_rc t s p r =
     (if res (rx (clients_io (lib r))) \<noteq> None \<and> (push_rc (next_token (lib r)) \<noteq> 0 \<or> wait_rc (next_token (lib r)) \<noteq> 0)
      then Inl (Abort ''dmtr error code'') else start_send (\<lambda>_. 0) (\<lambda>_. 0) t s p r)"
  by (cases "res (rx (clients_io (lib r)))") (simp_all add: start_send_def Let_def dmtr_ok_def)

lemma demi_start_send_Inr:
  "start_send push_rc wait_rc t s p r = Inr r' \<Longrightarrow> start_send (\<lambda>_. 0) (\<lambda>_. 0) t s p r = Inr r'"
  using start_send_codes [of push_rc wait_rc t s p r] by (auto split: if_splits)

lemma on_peer_received_Inr:
  "on_peer_received (demi_lib push_rc wait_rc) t p r = Inr x \<Longrightarrow> on_peer_received (demi_lib (\<lambda>_. 0) (\<lambda>_. 0)) t p r = Inr x"
proof -
  assume "on_peer_received (demi_lib push_rc wait_rc) t p r = Inr x"
  then obtain r1 found where 1: "count_in t (of_nat (length p)) r = Inr r1"
    "(if 8 \<le> (of_nat (length p) :: u64) then bindR (get_session_id p) (\<lambda>i. Inr (find_session i r1)) else Inr None) = Inr found"
    "(case found of
        Some session \<Rightarrow> bindR (start_send push_rc wait_rc t session p r1) (\<lambda>r. Inr (True, r))
      | None \<Rightarrow> Inr (False, restart_peer_receive (demi_lib push_rc wait_rc) r1)) = Inr x"
    unfolding on_peer_received_def demi_lib_simps by (elim bindR_InrE)
  then have "(case found of
        Some session \<Rightarrow> bindR (start_send (\<lambda>_. 0) (\<lambda>_. 0) t session p r1) (\<lambda>r. Inr (True, r))
      | None \<Rightarrow> Inr (False, restart_peer_receive (demi_lib (\<lambda>_. 0) (\<lambda>_. 0)) r1)) = Inr x"
    by (cases found) (auto simp: restart_peer_receive_def bindR_eq_Inr dest: demi_start_send_Inr)
  with 1(1,2) show ?thesis unfolding on_peer_received_def demi_lib_simps by simp
qed

lemma on_client_received_codes:
  "on_client_received (demi_lib push_rc wait_rc) t src p r = on_client_received (demi_lib (\<lambda>_. 0) (\<lambda>_. 0)) t src p r"
proof -
  have L: "packet_data (demi_lib a b) = (\<lambda>_ p. p)" "packet_size (demi_lib a b) = (\<lambda>p. of_nat (length p))"
    "restart_client_receive (demi_lib a b) = (\<lambda>r. r)" "restart_peer_receive (demi_lib a b) = (\<lambda>r. r)"
    for a b :: "nat \<Rightarrow> int"
    by (simp_all add: demi_lib_def restart_client_receive_def restart_peer_receive_def fun_eq_iff)
  show ?thesis unfolding on_client_received_def L ..
qed

lemma worker_handle_Inr:
  "worker_handle push_rc wait_rc t k qr r = Inr r' \<Longrightarrow> worker_handle (\<lambda>_. 0) (\<lambda>_. 0) t k qr r = Inr r'"
  unfolding worker_handle_def on_client_received_codes [of push_rc wait_rc] bindR_eq_Inr
  by (split if_split_asm) (auto simp: bindR_eq_Inr dest: on_peer_received_Inr)


section \<open>What the worker does\<close>

record 'ep demi_spec =
  demi_table :: "u64 \<rightharpoonup> 'ep"
  demi_last :: "('ep \<times> u8 list) option"
  demi_sent :: "('ep \<times> u8 list) list"

fun spec_handle :: "'ep demi_event \<Rightarrow> 'ep demi_spec \<Rightarrow> 'ep demi_spec" where
  "spec_handle (Handles tok k qr) a =
     (if k = 0 then (if spec_peer (demi_table a) (sga_seg qr) = None then a
                     else a\<lparr>demi_sent := demi_sent a @ [the (demi_last a)]\<rparr>)
      else a\<lparr>demi_table := spec_client (sga_addr qr) (sga_seg qr) (demi_table a),
             demi_last := Some (sga_addr qr, sga_seg qr)\<rparr>)"
| "spec_handle _ a = a"

definition demi_abs :: "('ep, 'ep demi_worker) relay \<Rightarrow> 'ep demi_spec" where
  "demi_abs r = \<lparr>demi_table = registered r, demi_last = last_client (lib r), demi_sent = pushed (lib r)\<rparr>"

definition demi_spec_init :: "'ep demi_spec" where
  "demi_spec_init = \<lparr>demi_table = Map.empty, demi_last = None, demi_sent = []\<rparr>"

fun small :: "'ep demi_event \<Rightarrow> bool" where
  "small (Handles tok k qr) \<longleftrightarrow> length (sga_seg qr) < 2 ^ 64"
| "small _ \<longleftrightarrow> True"

text \<open>The worker waits for nothing or for two tokens, which it was given.\<close>

definition waits_ok :: "'ep demi_worker \<Rightarrow> bool" where
  "waits_ok w \<longleftrightarrow> (tokens w = [] \<or> length (tokens w) = 2) \<and> (\<forall>tok \<in> set (tokens w). tok < next_token w)"

fun handled :: "'ep demi_event list \<Rightarrow> nat" where
  "handled [] = 0"
| "handled (Handles tok k qr # es) = Suc (handled es)"
| "handled (e # es) = handled es"

lemma handled_append [simp]: "handled (es @ fs) = handled es + handled fs"
  by (induction es rule: handled.induct) simp_all

definition demi_inv :: "nat \<Rightarrow> ('ep, 'ep demi_worker) relay \<Rightarrow> bool" where
  "demi_inv t r \<longleftrightarrow> demi_ok t r \<and> waits_ok (lib r)"

lemma length_remove1_mem: "x \<in> set xs \<Longrightarrow> Suc (length (remove1 x xs)) = length xs"
  by (induction xs) auto

text \<open>What a step owes: the invariant, the abstract step, tokens that only grow, and an operation
  that completes for every one that is started.\<close>

definition demi_step_ok :: "nat \<Rightarrow> ('ep, 'ep demi_worker) relay \<Rightarrow> 'ep demi_event \<Rightarrow> ('ep, 'ep demi_worker) relay \<Rightarrow> bool" where
  "demi_step_ok t r e r' \<longleftrightarrow> demi_inv t r' \<and> demi_abs r' = spec_handle e (demi_abs r)
     \<and> next_token (lib r) \<le> next_token (lib r')
     \<and> set (tokens (lib r')) \<subseteq> set (tokens (lib r)) \<union> {next_token (lib r)..}
     \<and> length (pending (lib r')) + length (completed (lib r')) + length (tokens (lib r))
       = length (pending (lib r)) + length (completed (lib r)) + length (tokens (lib r')) + handled [e]"

lemma demi_handle_ok:
  assumes inv: "demi_inv t r" and small: "small (Handles tok k qr)" and step: "demi_step t r (Handles tok k qr) r'"
  shows "demi_step_ok t r (Handles tok k qr) r'"
  using step
proof cases
  case handles
  have ok: "demi_ok t r" and waits: "waits_ok (lib r)" using inv by (simp_all add: demi_inv_def)
  define q where "q = r\<lparr>lib := (lib r)\<lparr>tokens := [], completed := remove1 (tokens (lib r) ! k, qr) (completed (lib r))\<rparr>\<rparr>"
  have two: "length (tokens (lib r)) = 2" using waits handles(2) by (auto simp: waits_ok_def)
  have r: "demi_ok t q" "thread_ok t q" "last_client (lib q) = last_client (lib r)" "registered q = registered r"
    "sessions q = sessions r" "tokens (lib q) = []" "pending (lib q) = pending (lib r)"
    "next_token (lib q) = next_token (lib r)" "pushed (lib q) = pushed (lib r)"
    using ok by (auto simp: demi_ok_def last_client_def registered_def q_def)
  have len: "length (sga_seg qr) < 2 ^ 64" using small by simp
  have removed: "Suc (length (completed (lib q))) = length (completed (lib r))"
    using length_remove1_mem [OF handles(3)] by (simp add: q_def)
  have run: "worker_handle (\<lambda>_. 0) (\<lambda>_. 0) t k qr q = Inr r'" using worker_handle_Inr [OF handles(4)] by (simp add: q_def)
  consider "k = 0" | "k = 1" using handles(2) two by linarith
  then show ?thesis
  proof cases
    case 1
    from peer_handler [OF r(1) len] run 1 obtain
      "thread_ok t r'" "registered r' = registered r" "sessions r' = sessions r" "last_client (lib r') = last_client (lib r)"
      "tokens (lib r') = []" "pending (lib r') = pending (lib r)" "completed (lib r') = completed (lib q)"
      "next_token (lib r) \<le> next_token (lib r')"
      "pushed (lib r') = pushed (lib r) @ (if spec_peer (registered r) (sga_seg qr) = None then [] else [the (last_client (lib r))])"
      by (simp only: r) auto
    then show ?thesis using 1 ok two removed handles(1)
      by (auto simp: demi_step_ok_def demi_inv_def demi_ok_def waits_ok_def demi_abs_def)
  next
    case 2
    from client_handler [OF r(2) len] run 2 obtain
      "thread_ok t r'" "registered r' = spec_client (sga_addr qr) (sga_seg qr) (registered r)"
      "lib r' = (lib q)\<lparr>clients_io := set_rx (\<lambda>v. v\<lparr>res := Some qr\<rparr>) (clients_io (lib q))\<rparr>"
      by (simp only: r) auto
    then show ?thesis using 2 two removed r handles(1)
      by (auto simp: demi_step_ok_def demi_inv_def demi_ok_def waits_ok_def demi_abs_def last_client_def set_rx_def)
  qed
qed

lemma demi_step_ok:
  assumes inv: "demi_inv t r" and small: "small e" and step: "demi_step t r e r'"
  shows "demi_step_ok t r e r'"
proof -
  have ok: "demi_ok t r" and waits: "waits_ok (lib r)" using inv by (simp_all add: demi_inv_def)
  from step show ?thesis
  proof cases
    case (begins pop_rc)
    then have "worker_begin (\<lambda>_. 0) r = Inr r'" using worker_begin_codes [of pop_rc r] by (simp split: if_splits)
    with begins(1,2) worker_begin_spec [of r t] ok show ?thesis
      by (auto simp: demi_step_ok_def demi_inv_def demi_ok_def waits_ok_def demi_abs_def)
  next
    case (arrives tok qd qr)
    then show ?thesis using ok waits length_remove1_mem [OF arrives(3)]
      by (auto simp: demi_step_ok_def demi_inv_def demi_ok_def waits_ok_def demi_abs_def last_client_def registered_def)
  next
    case handles
    with demi_handle_ok inv small step show ?thesis by blast
  qed
qed

lemma demi_step_spec:
  assumes "demi_inv t r" and "small e" and "demi_step t r e r'"
  shows "demi_inv t r'" "demi_abs r' = spec_handle e (demi_abs r)"
    "next_token (lib r) \<le> next_token (lib r')"
    "set (tokens (lib r')) \<subseteq> set (tokens (lib r)) \<union> {next_token (lib r)..}"
    "length (pending (lib r')) + length (completed (lib r')) + length (tokens (lib r))
        = length (pending (lib r)) + length (completed (lib r)) + length (tokens (lib r')) + handled [e]"
  using demi_step_ok [OF assms] by (simp_all add: demi_step_ok_def)

lemma demi_run_spec:
  assumes "demi_run t r es r'" and "demi_inv t r" and "\<forall>e \<in> set es. small e"
  shows "demi_inv t r' \<and> demi_abs r' = fold spec_handle es (demi_abs r)
    \<and> length (pending (lib r')) + length (completed (lib r')) + length (tokens (lib r))
        = length (pending (lib r)) + length (completed (lib r)) + length (tokens (lib r')) + handled es"
  using assms
proof induction
  case (demi_more r es r1 e r2)
  have "demi_inv t r1" "small e" using demi_more by auto
  note step = demi_step_spec [OF this demi_more(2)]
  show ?case using demi_more step by auto
qed simp

lemma demi_run_append:
  "demi_run t r (es @ fs) r' \<Longrightarrow> \<exists>r1. demi_run t r es r1 \<and> demi_run t r1 fs r'"
proof (induction fs arbitrary: r' rule: rev_induct)
  case Nil
  then show ?case using demi_start by auto
next
  case (snoc f fs)
  from snoc.prems obtain r2 where r2: "demi_run t r (es @ fs) r2" "demi_step t r2 f r'"
    by (cases rule: demi_run.cases) (auto simp flip: append_assoc)
  from snoc.IH [OF r2(1)] r2(2) show ?case using demi_more by blast
qed

text \<open>A token that is not waited for is never waited for again.\<close>

lemma demi_stale:
  assumes "demi_run t r es r'" and "demi_inv t r" and "\<forall>e \<in> set es. small e"
    and "tok < next_token (lib r)" "tok \<notin> set (tokens (lib r))"
  shows "tok < next_token (lib r') \<and> tok \<notin> set (tokens (lib r')) \<and> (\<forall>k qr. Handles tok k qr \<notin> set es)"
  using assms
proof induction
  case (demi_more r es r1 e r2)
  have inv: "demi_inv t r1" "small e" using demi_more demi_run_spec [of t r es r1] by auto
  have stale: "tok < next_token (lib r1)" "tok \<notin> set (tokens (lib r1))" "\<forall>k qr. Handles tok k qr \<notin> set es"
    using demi_more by auto
  note step = demi_step_spec [OF inv demi_more(2)]
  have "e \<noteq> Handles tok k qr" for k qr
    using demi_more(2) stale(2) by (auto elim: demi_step.cases)
  then show ?case using stale step(3,4) by auto
qed simp

lemma run_demi_ok:
  assumes "run_demi gai_rc socket_rc bind_rc threads t = Inr r"
  shows "demi_inv t r" "demi_abs r = demi_spec_init" "pending (lib r) = []" "completed (lib r) = []"
    "tokens (lib r) = []" "next_token (lib r) = 0" "peer_socket (lib r) = 0" "client_socket (lib r) = 1"
  using assms
  by (auto simp: run_demi_def bindable_address_def worker_start_def io_worker_init_def create_udp_socket_def on_thread_start_def relay_init_def
      demi_inv_def demi_ok_def thread_ok_def waits_ok_def demi_abs_def demi_spec_init_def last_client_def registered_def io_state_init_def
      io_vectors_init_def fun_eq_iff split: if_splits)

section \<open>Where the datagrams come from\<close>











lemma spec_peer_empty [simp]: "spec_peer Map.empty bs = None"
  by (simp add: spec_peer_def)


section \<open>Properties\<close>



text \<open>The worker loses pops: it issues two for each frame and waits for one of them to complete, so
  after \<open>k\<close> datagrams handled \<open>k\<close> pops are abandoned; a pop that is abandoned is never waited
  for again, and the datagram that completes it is never handled.\<close>

theorem demi_pops_abandoned:
  assumes "run_demi gai_rc socket_rc bind_rc threads t = Inr r0" and "demi_run t r0 (es @ fs) r"
    and "\<forall>e \<in> set (es @ fs). small e"
  shows "length (pending (lib r)) + length (completed (lib r)) = handled (es @ fs) + length (tokens (lib r))
    \<and> (\<exists>r1. demi_run t r0 es r1 \<and> demi_run t r1 fs r
        \<and> (\<forall>tok < next_token (lib r1). tok \<notin> set (tokens (lib r1)) \<longrightarrow> (\<forall>k qr. Handles tok k qr \<notin> set fs)))"
proof -
  note start = run_demi_ok [OF assms(1)]
  have count: "length (pending (lib r)) + length (completed (lib r)) = handled (es @ fs) + length (tokens (lib r))"
    using demi_run_spec [OF assms(2) start(1) assms(3)] start(3-5) by simp
  from demi_run_append [OF assms(2)] obtain r1 where r1: "demi_run t r0 es r1" "demi_run t r1 fs r" by blast
  have "demi_inv t r1" using demi_run_spec [OF r1(1) start(1)] assms(3) by simp
  then have "\<forall>tok < next_token (lib r1). tok \<notin> set (tokens (lib r1)) \<longrightarrow> (\<forall>k qr. Handles tok k qr \<notin> set fs)"
    using demi_stale [OF r1(2)] assms(3) by auto
  with r1 count show ?thesis by blast
qed

section \<open>A concrete run\<close>

text \<open>A client registers, its peer sends, and the client gets its own registration back. The pop of the
  first frame that nobody waits for gets the next peer datagram.\<close>

definition demi_reg :: "u64 qresult" where "demi_reg = \<lparr>sga_addr = 11, sga_seg = store_le 8 1\<rparr>"

definition demi_msg :: "u64 qresult" where "demi_msg = \<lparr>sga_addr = 12, sga_seg = store_le 8 1 @ [100]\<rparr>"

definition demi_first :: "u64 demi_event list" where
  "demi_first = [Begins, Arrives 0 1 demi_reg, Handles 0 1 demi_reg, Begins]"

definition demi_second :: "u64 demi_event list" where
  "demi_second = [Arrives 1 0 demi_msg, Arrives 3 0 demi_msg, Handles 3 0 demi_msg]"

lemma demi_events_small: "\<forall>e \<in> set (demi_first @ demi_second). small e"
  by (simp add: demi_first_def demi_second_def demi_reg_def demi_msg_def)


lemma arrive_frame [simp]:
  "thread_ok t (r\<lparr>lib := w\<rparr>) = thread_ok t r" "registered (r\<lparr>lib := w\<rparr>) = registered r" "sessions (r\<lparr>lib := w\<rparr>) = sessions r"
  by (simp_all add: registered_def)

lemma demi_demo_first:
  "\<exists>r0 r. run_demi (\<lambda>_. 0) (\<lambda>_. 0) (\<lambda>_ _. 0) 1 0 = Inr (r0 :: (u64, u64 demi_worker) relay) \<and> demi_run 0 r0 demi_first r
     \<and> pending (lib r) = [(1, 0), (2, 1), (3, 0)]
     \<and> completed (lib r) = [] \<and> tokens (lib r) = [3, 2]"
proof -
  obtain r0 :: "(u64, u64 demi_worker) relay" where r0: "run_demi (\<lambda>_. 0) (\<lambda>_. 0) (\<lambda>_ _. 0) 1 0 = Inr r0"
    by (simp add: run_demi_def bindable_address_def ensure_success_def worker_start_def io_worker_init_def create_udp_socket_def dmtr_ok_def on_thread_start_def relay_init_def)
  note start = run_demi_ok [OF r0]
  have ok0: "thread_ok 0 r0" using start(1) by (simp add: demi_inv_def demi_ok_def)
  from worker_begin_spec [of r0 0] start obtain r1 where
    r1: "worker_begin (\<lambda>_. 0) r0 = Inr r1" "thread_ok 0 r1" "tokens (lib r1) = [1, 0]"
    "pending (lib r1) = [(0, 1), (1, 0)]" "completed (lib r1) = []"
    "next_token (lib r1) = 2" "peer_socket (lib r1) = 0" "client_socket (lib r1) = 1" using ok0 by auto
  define r2 where "r2 = r1\<lparr>lib := (lib r1)\<lparr>pending := remove1 (0, 1) (pending (lib r1)),
      completed := completed (lib r1) @ [(0, demi_reg)]\<rparr>\<rparr>"
  define q where "q = r2\<lparr>lib := (lib r2)\<lparr>tokens := [], completed := remove1 (tokens (lib r2) ! 1, demi_reg) (completed (lib r2))\<rparr>\<rparr>"
  have "thread_ok 0 q" "length (sga_seg demi_reg) < 2 ^ 64" using r1(2) by (simp_all add: q_def r2_def demi_reg_def)
  from client_handler [OF this] obtain r3 where
    r3: "worker_handle (\<lambda>_. 0) (\<lambda>_. 0) 0 1 demi_reg q = Inr r3" "thread_ok 0 r3"
    "lib r3 = (lib q)\<lparr>clients_io := set_rx (\<lambda>v. v\<lparr>res := Some demi_reg\<rparr>) (clients_io (lib q))\<rparr>" by blast
  have w3: "tokens (lib r3) = []" "pending (lib r3) = [(1, 0)]" "completed (lib r3) = []"
    "next_token (lib r3) = 2" "peer_socket (lib r3) = 0" "client_socket (lib r3) = 1" using r1 by (simp_all add: r3(3) q_def r2_def)
  from worker_begin_spec [of r3 0] w3 obtain r4 where
    r4: "worker_begin (\<lambda>_. 0) r3 = Inr r4" "tokens (lib r4) = [3, 2]" "completed (lib r4) = []"
    "pending (lib r4) = [(1, 0), (2, 1), (3, 0)]" by auto
  have s1: "demi_step 0 r0 Begins r1" by (rule demi_step.begins) (use start r1(1) in simp_all)
  have s2: "demi_step 0 r1 (Arrives 0 1 demi_reg) r2"
    unfolding r2_def by (rule demi_step.arrives) (simp add: r1(4))
  have s3: "demi_step 0 r2 (Handles 0 1 demi_reg) r3"
    using demi_step.handles [of 1 r2 demi_reg "\<lambda>_. 0" "\<lambda>_. 0" 0 r3] r1 r3(1) by (simp add: r2_def q_def)
  have s4: "demi_step 0 r3 Begins r4" by (rule demi_step.begins) (use w3 r4(1) in simp_all)
  have "demi_run 0 r0 (((([] @ [Begins]) @ [Arrives 0 1 demi_reg]) @ [Handles 0 1 demi_reg]) @ [Begins]) r4"
    by (rule demi_more [OF demi_more [OF demi_more [OF demi_more [OF demi_start s1] s2] s3] s4])
  then have "demi_run 0 r0 demi_first r4" by (simp add: demi_first_def)
  with r0 r4 show ?thesis by blast
qed

lemma demi_demo:
  "\<exists>r0 r. run_demi (\<lambda>_. 0) (\<lambda>_. 0) (\<lambda>_ _. 0) 1 0 = Inr (r0 :: (u64, u64 demi_worker) relay)
     \<and> demi_run 0 r0 (demi_first @ demi_second) r"
proof -
  from demi_demo_first obtain r0 r where r: "run_demi (\<lambda>_. 0) (\<lambda>_. 0) (\<lambda>_ _. 0) 1 0 = Inr (r0 :: (u64, u64 demi_worker) relay)"
    "demi_run 0 r0 demi_first r"
    "pending (lib r) = [(1, 0), (2, 1), (3, 0)]"
    "completed (lib r) = []" "tokens (lib r) = [3, 2]" by blast
  have "demi_ok 0 r" using demi_run_spec [OF r(2) run_demi_ok(1) [OF r(1)]] demi_events_small
    by (auto simp: demi_inv_def)
  define r1 where "r1 = r\<lparr>lib := (lib r)\<lparr>pending := remove1 (1, 0) (pending (lib r)),
      completed := completed (lib r) @ [(1, demi_msg)]\<rparr>\<rparr>"
  define r2 where "r2 = r1\<lparr>lib := (lib r1)\<lparr>pending := remove1 (3, 0) (pending (lib r1)),
      completed := completed (lib r1) @ [(3, demi_msg)]\<rparr>\<rparr>"
  define q where "q = r2\<lparr>lib := (lib r2)\<lparr>tokens := [], completed := remove1 (tokens (lib r2) ! 0, demi_msg) (completed (lib r2))\<rparr>\<rparr>"
  have "demi_ok 0 q" "length (sga_seg demi_msg) < 2 ^ 64"
    using \<open>demi_ok 0 r\<close> by (auto simp: q_def r2_def r1_def demi_ok_def last_client_def demi_msg_def)
  from peer_handler [OF this] obtain r3 where r3: "worker_handle (\<lambda>_. 0) (\<lambda>_. 0) 0 0 demi_msg q = Inr r3" by blast
  have s1: "demi_step 0 r (Arrives 1 0 demi_msg) r1"
    unfolding r1_def by (rule demi_step.arrives) (simp add: r(3))
  have s2: "demi_step 0 r1 (Arrives 3 0 demi_msg) r2"
    unfolding r2_def by (rule demi_step.arrives) (simp add: r1_def r(3))
  have s3: "demi_step 0 r2 (Handles 3 0 demi_msg) r3"
    using demi_step.handles [of 0 r2 demi_msg "\<lambda>_. 0" "\<lambda>_. 0" 0 r3] r r3 by (simp add: r2_def r1_def q_def)
  have "demi_run 0 r0 (((demi_first @ [Arrives 1 0 demi_msg]) @ [Arrives 3 0 demi_msg]) @ [Handles 3 0 demi_msg]) r3"
    by (rule demi_more [OF demi_more [OF demi_more [OF r(2) s1] s2] s3])
  with r(1) show ?thesis by (auto simp: demi_second_def)
qed


theorem demi_pops_abandoned_witness:
  "\<exists>r0 r. run_demi (\<lambda>_. 0) (\<lambda>_. 0) (\<lambda>_ _. 0) 1 0 = Inr (r0 :: (u64, u64 demi_worker) relay)
     \<and> demi_run 0 r0 (demi_first @ demi_second) r
     \<and> length (pending (lib r)) + length (completed (lib r)) = 2 + length (tokens (lib r))"
proof -
  from demi_demo obtain r0 r where r: "run_demi (\<lambda>_. 0) (\<lambda>_. 0) (\<lambda>_ _. 0) 1 0 = Inr (r0 :: (u64, u64 demi_worker) relay)"
    "demi_run 0 r0 (demi_first @ demi_second) r" by blast
  have "handled (demi_first @ demi_second) = 2" by (simp add: demi_first_def demi_second_def)
  with demi_pops_abandoned [OF r demi_events_small] r show ?thesis by auto
qed

end
