(* ===== verification/Statistics_Concurrency.thy ===== *)
theory Statistics_Concurrency
  imports Statistics
begin

text \<open>
  The traffic counters of \<^verbatim>\<open>urn/relay.hpp\<close> while threads run. \<open>load_statistics\<close> takes no lock (\<open>not
  thread-safe but good enough to skip sync overhead\<close>), so its exchanges interleave with the
  updates of the workers. Here every \<open>+=\<close>, \<open>++\<close> and \<open>std::exchange\<close> is a load and a store, any
  thread may run between two of them, and each access is taken to be done as it is written (the
  standard promises nothing for such a race; the platforms of the experiments do it this way for
  64-bit words).
\<close>

section \<open>Accesses\<close>

datatype counter = In_packets | In_bytes | Out_packets | Out_bytes

fun get_counter :: "counter \<Rightarrow> statistics \<Rightarrow> u64" where
  "get_counter In_packets s = packets (stat_in s)"
| "get_counter In_bytes s = bytes (stat_in s)"
| "get_counter Out_packets s = packets (stat_out s)"
| "get_counter Out_bytes s = bytes (stat_out s)"

fun put_counter :: "counter \<Rightarrow> u64 \<Rightarrow> statistics \<Rightarrow> statistics" where
  "put_counter In_packets v s = s\<lparr>stat_in := (stat_in s)\<lparr>packets := v\<rparr>\<rparr>"
| "put_counter In_bytes v s = s\<lparr>stat_in := (stat_in s)\<lparr>bytes := v\<rparr>\<rparr>"
| "put_counter Out_packets v s = s\<lparr>stat_out := (stat_out s)\<lparr>packets := v\<rparr>\<rparr>"
| "put_counter Out_bytes v s = s\<lparr>stat_out := (stat_out s)\<lparr>bytes := v\<rparr>\<rparr>"

datatype way = Ingress | Egress

text \<open>The additions of \<open>update_io_statistics\<close> and the exchanges of \<open>load_statistics\<close>, in order.\<close>

fun update_accesses :: "way \<Rightarrow> u64 \<Rightarrow> (counter \<times> u64) list" where
  "update_accesses Ingress len = [(In_bytes, len), (In_packets, 1)]"
| "update_accesses Egress len = [(Out_bytes, len), (Out_packets, 1)]"

definition reset_accesses :: "nat \<Rightarrow> (nat \<times> counter) list" where
  "reset_accesses i = [(i, In_packets), (i, In_bytes), (i, Out_packets), (i, Out_bytes)]"

definition collect_accesses :: "nat \<Rightarrow> (nat \<times> counter) list" where
  "collect_accesses n = concat (map reset_accesses [0..<n])"

lemma all_counters: "(\<forall>c. P c) \<longleftrightarrow> P In_packets \<and> P In_bytes \<and> P Out_packets \<and> P Out_bytes"
  using counter.exhaust by metis

section \<open>State and steps\<close>

text \<open>For every thread what it still has to add, and the value it has loaded for the first of
  these; for the collection what it still has to exchange, and the value loaded for that.
  \<open>added\<close> and \<open>reported\<close> record what was added to each counter and taken from it.\<close>

record stats_world =
  per_thread :: "nat \<Rightarrow> statistics"
  updating :: "nat \<Rightarrow> (counter \<times> u64) list"
  loaded :: "nat \<Rightarrow> u64 option"
  visiting :: "(nat \<times> counter) list"
  exchanged :: "u64 option"
  added :: "nat \<Rightarrow> counter \<Rightarrow> u64 list"
  reported :: "nat \<Rightarrow> counter \<Rightarrow> u64 list"

definition stats_init :: stats_world where
  "stats_init = \<lparr>per_thread = (\<lambda>_. statistics_zero), updating = (\<lambda>_. []), loaded = (\<lambda>_. None),
     visiting = [], exchanged = None, added = (\<lambda>_ _. []), reported = (\<lambda>_ _. [])\<rparr>"

definition set_counter :: "nat \<Rightarrow> counter \<Rightarrow> u64 \<Rightarrow> stats_world \<Rightarrow> stats_world" where
  "set_counter i c v w = w\<lparr>per_thread := (per_thread w)(i := put_counter c v (per_thread w i))\<rparr>"

definition log_to :: "nat \<Rightarrow> counter \<Rightarrow> u64 \<Rightarrow> (nat \<Rightarrow> counter \<Rightarrow> u64 list) \<Rightarrow> nat \<Rightarrow> counter \<Rightarrow> u64 list" where
  "log_to i c v h = h(i := (h i)(c := h i c @ [v]))"

text \<open>The next access of thread \<open>i\<close>, and of the collection.\<close>

definition worker_access :: "nat \<Rightarrow> stats_world \<Rightarrow> stats_world option" where
  "worker_access i w =
     (case updating w i of
        [] \<Rightarrow> None
      | (c, a) # rest \<Rightarrow>
          (case loaded w i of
             None \<Rightarrow> Some (w\<lparr>loaded := (loaded w)(i := Some (get_counter c (per_thread w i)))\<rparr>)
           | Some v \<Rightarrow> Some ((set_counter i c (v + a) w)
               \<lparr>loaded := (loaded w)(i := None), updating := (updating w)(i := rest), added := log_to i c a (added w)\<rparr>)))"

definition collector_access :: "stats_world \<Rightarrow> stats_world option" where
  "collector_access w =
     (case visiting w of
        [] \<Rightarrow> None
      | (i, c) # rest \<Rightarrow>
          (case exchanged w of
             None \<Rightarrow> Some (w\<lparr>exchanged := Some (get_counter c (per_thread w i))\<rparr>)
           | Some v \<Rightarrow> Some ((set_counter i c 0 w)
               \<lparr>exchanged := None, visiting := rest, reported := log_to i c v (reported w)\<rparr>)))"

text \<open>\<open>n\<close> threads; \<open>k\<close> is the one that also collects, if one of them does (worker 0 of the mmsg
  and the uring experiment; the main thread of the libuv one handles no datagrams). A thread does one
  thing at a time.\<close>

datatype stats_move = Update nat way u64 | Access nat | Collect | Collect_access

fun stats_next :: "nat \<Rightarrow> nat option \<Rightarrow> stats_move \<Rightarrow> stats_world \<Rightarrow> stats_world option" where
  "stats_next n k (Update i d len) w =
     (if i < n \<and> updating w i = [] \<and> (k = Some i \<longrightarrow> visiting w = [])
      then Some (w\<lparr>updating := (updating w)(i := update_accesses d len)\<rparr>) else None)"
| "stats_next n k (Access i) w = worker_access i w"
| "stats_next n k Collect w =
     (if visiting w = [] \<and> (case k of None \<Rightarrow> True | Some i \<Rightarrow> updating w i = [])
      then Some (w\<lparr>visiting := collect_accesses n\<rparr>) else None)"
| "stats_next n k Collect_access w = collector_access w"

fun stats_exec :: "nat \<Rightarrow> nat option \<Rightarrow> stats_move list \<Rightarrow> stats_world \<Rightarrow> stats_world option" where
  "stats_exec n k [] w = Some w"
| "stats_exec n k (m # ms) w = (case stats_next n k m w of None \<Rightarrow> None | Some w' \<Rightarrow> stats_exec n k ms w')"

lemma stats_exec_append:
  "stats_exec n k (ms @ ms') w = (case stats_exec n k ms w of None \<Rightarrow> None | Some w' \<Rightarrow> stats_exec n k ms' w')"
  by (induction ms arbitrary: w) (simp_all split: option.split)

text \<open>A property that every move keeps holds after any run.\<close>

lemma stats_exec_invariant:
  assumes "stats_exec n k ms w = Some w'" and "P w"
    and "\<And>m w w'. P w \<Longrightarrow> stats_next n k m w = Some w' \<Longrightarrow> P w'"
  shows "P w'"
  using assms(1,2) by (induction ms arbitrary: w) (auto split: option.splits intro: assms(3))

section \<open>What a collection takes is a block of the additions\<close>

lemma get_put_counter [simp]:
  "get_counter c (put_counter d v s) = (if c = d then v else get_counter c s)"
  by (cases c; cases d) simp_all

lemma get_counter_zero [simp]: "get_counter c statistics_zero = 0"
  by (cases c) (simp_all add: statistics_zero_def direction_zero_def)

lemma set_counter_simps [simp]:
  "get_counter d (per_thread (set_counter i c v w) j) = (if j = i \<and> d = c then v else get_counter d (per_thread w j))"
  "updating (set_counter i c v w) = updating w" "loaded (set_counter i c v w) = loaded w"
  "visiting (set_counter i c v w) = visiting w" "exchanged (set_counter i c v w) = exchanged w"
  "added (set_counter i c v w) = added w" "reported (set_counter i c v w) = reported w"
  by (simp_all add: set_counter_def)

lemma log_to_simps [simp]: "log_to i c v h j d = (if j = i \<and> d = c then h i c @ [v] else h j d)"
  by (simp add: log_to_def)

definition suffix_sum :: "u64 \<Rightarrow> u64 list \<Rightarrow> bool" where
  "suffix_sum v xs \<longleftrightarrow> (\<exists>ys zs. xs = ys @ zs \<and> v = sum_list zs)"

definition block_sum :: "u64 \<Rightarrow> u64 list \<Rightarrow> bool" where
  "block_sum v xs \<longleftrightarrow> (\<exists>before block after. xs = before @ block @ after \<and> v = sum_list block)"

lemma suffix_sum_zero [simp]: "suffix_sum 0 xs"
  unfolding suffix_sum_def by (rule exI [of _ xs]) simp

lemma suffix_sum_snoc [simp]: "suffix_sum v xs \<Longrightarrow> suffix_sum (v + a) (xs @ [a])"
  unfolding suffix_sum_def by (elim exE conjE) (rule_tac x = ys in exI, simp)

lemma suffix_is_block: "suffix_sum v xs \<Longrightarrow> block_sum v xs"
  unfolding suffix_sum_def block_sum_def by (metis append_Nil2)

lemma block_sum_snoc [simp]: "block_sum v xs \<Longrightarrow> block_sum v (xs @ [a])"
  unfolding block_sum_def by (metis append_assoc)

lemma block_sum_le: "block_sum v xs \<Longrightarrow> unat v \<le> sum_list (map unat xs)"
proof -
  have plus: "unat (x + y) \<le> unat x + unat y" for x y :: u64
    by (simp add: unat_word_ariths)
  have le: "unat (sum_list ys) \<le> sum_list (map unat ys)" for ys :: "u64 list"
    by (induction ys) (auto intro: order_trans [OF plus])
  assume "block_sum v xs"
  then obtain as bs cs where "xs = as @ bs @ cs" "v = sum_list bs" by (auto simp: block_sum_def)
  then show ?thesis using le [of bs] by simp
qed

definition blocks_ok :: "stats_world \<Rightarrow> bool" where
  "blocks_ok w \<longleftrightarrow>
     (\<forall>i c. suffix_sum (get_counter c (per_thread w i)) (added w i c))
   \<and> (\<forall>i c a rest v. updating w i = (c, a) # rest \<and> loaded w i = Some v \<longrightarrow> suffix_sum v (added w i c))
   \<and> (\<forall>i c rest v. visiting w = (i, c) # rest \<and> exchanged w = Some v \<longrightarrow> block_sum v (added w i c))
   \<and> (\<forall>i c. \<forall>v \<in> set (reported w i c). block_sum v (added w i c))
   \<and> (\<forall>i. updating w i = [] \<longrightarrow> loaded w i = None) \<and> (visiting w = [] \<longrightarrow> exchanged w = None)"

lemma blocks_okD:
  assumes "blocks_ok w"
  shows "suffix_sum (get_counter c (per_thread w i)) (added w i c)"
    "updating w i = (c, a) # rest \<Longrightarrow> loaded w i = Some v \<Longrightarrow> suffix_sum v (added w i c)"
    "visiting w = (i, c) # vs \<Longrightarrow> exchanged w = Some v \<Longrightarrow> block_sum v (added w i c)"
    "v \<in> set (reported w i c) \<Longrightarrow> block_sum v (added w i c)"
    "updating w i = [] \<Longrightarrow> loaded w i = None" "visiting w = [] \<Longrightarrow> exchanged w = None"
  using assms unfolding blocks_ok_def by blast+

lemma blocks_ok_init: "blocks_ok stats_init"
  by (simp add: blocks_ok_def stats_init_def)

lemma blocks_ok_worker:
  assumes ok: "blocks_ok w" and step: "worker_access i w = Some w'"
  shows "blocks_ok w'"
proof -
  obtain c a rest where u: "updating w i = (c, a) # rest"
    using step by (auto simp: worker_access_def split: list.splits)
  note D = blocks_okD [OF ok]
  show ?thesis
  proof (cases "loaded w i")
    case None
    then have "w' = w\<lparr>loaded := (loaded w)(i := Some (get_counter c (per_thread w i)))\<rparr>"
      using step u by (simp add: worker_access_def)
    then show ?thesis using D u unfolding blocks_ok_def by auto
  next
    case (Some v)
    then have w': "w' = (set_counter i c (v + a) w)
        \<lparr>loaded := (loaded w)(i := None), updating := (updating w)(i := rest), added := log_to i c a (added w)\<rparr>"
      using step u by (simp add: worker_access_def)
    have "suffix_sum v (added w i c)" using D(2) [OF u Some] .
    then show ?thesis using D unfolding blocks_ok_def w' by auto
  qed
qed

lemma blocks_ok_collector:
  assumes ok: "blocks_ok w" and step: "collector_access w = Some w'"
  shows "blocks_ok w'"
proof -
  obtain i c rest where v: "visiting w = (i, c) # rest"
    using step by (auto simp: collector_access_def split: list.splits)
  note D = blocks_okD [OF ok]
  show ?thesis
  proof (cases "exchanged w")
    case None
    then have "w' = w\<lparr>exchanged := Some (get_counter c (per_thread w i))\<rparr>"
      using step v by (simp add: collector_access_def)
    then show ?thesis using D v suffix_is_block [OF D(1)] unfolding blocks_ok_def by auto
  next
    case (Some x)
    then have w': "w' = (set_counter i c 0 w)\<lparr>exchanged := None, visiting := rest, reported := log_to i c x (reported w)\<rparr>"
      using step v by (simp add: collector_access_def)
    have "block_sum x (added w i c)" using D(3) [OF v Some] .
    then show ?thesis using D unfolding blocks_ok_def w' by auto
  qed
qed

lemma blocks_ok_next:
  assumes ok: "blocks_ok w" and step: "stats_next n k m w = Some w'"
  shows "blocks_ok w'"
proof (cases m)
  case (Update i d len)
  then have "w' = w\<lparr>updating := (updating w)(i := update_accesses d len)\<rparr>" and u: "updating w i = []"
    using step by (auto split: if_splits)
  moreover have "loaded w i = None" using blocks_okD(5) [OF ok u] .
  ultimately show ?thesis using blocks_okD [OF ok] unfolding blocks_ok_def by (cases d) auto
next
  case (Access i)
  with blocks_ok_worker [OF ok] step show ?thesis by simp
next
  case Collect
  then have "w' = w\<lparr>visiting := collect_accesses n\<rparr>" and v: "visiting w = []"
    using step by (auto split: if_splits)
  moreover have "exchanged w = None" using blocks_okD(6) [OF ok v] .
  ultimately show ?thesis using blocks_okD [OF ok] unfolding blocks_ok_def by auto
next
  case Collect_access
  with blocks_ok_collector [OF ok] step show ?thesis by simp
qed

section \<open>Exact counts where no exchange overlaps an addition\<close>

text \<open>Thread \<open>i\<close>, or the collection, is between the load and the store of its counter \<open>c\<close>.\<close>

definition adding :: "nat \<Rightarrow> counter \<Rightarrow> stats_world \<Rightarrow> bool" where
  "adding i c w = (case updating w i of [] \<Rightarrow> False | (d, a) # rest \<Rightarrow> d = c \<and> loaded w i \<noteq> None)"

definition taking :: "nat \<Rightarrow> counter \<Rightarrow> stats_world \<Rightarrow> bool" where
  "taking i c w = (case visiting w of [] \<Rightarrow> False | p # rest \<Rightarrow> p = (i, c) \<and> exchanged w \<noteq> None)"

fun no_overlap :: "nat \<Rightarrow> nat option \<Rightarrow> nat \<Rightarrow> counter \<Rightarrow> stats_move list \<Rightarrow> stats_world \<Rightarrow> bool" where
  "no_overlap n k i c [] w = (\<not> (adding i c w \<and> taking i c w))"
| "no_overlap n k i c (m # ms) w = (\<not> (adding i c w \<and> taking i c w)
     \<and> (case stats_next n k m w of None \<Rightarrow> True | Some w' \<Rightarrow> no_overlap n k i c ms w'))"

definition exact_ok :: "nat \<Rightarrow> counter \<Rightarrow> stats_world \<Rightarrow> bool" where
  "exact_ok i c w \<longleftrightarrow>
     sum_list (reported w i c) + get_counter c (per_thread w i) = sum_list (added w i c)
   \<and> (\<forall>v. adding i c w \<and> loaded w i = Some v \<longrightarrow> v = get_counter c (per_thread w i))
   \<and> (\<forall>v. taking i c w \<and> exchanged w = Some v \<longrightarrow> v = get_counter c (per_thread w i))"

lemma exact_ok_next:
  assumes "exact_ok i c w" and "\<not> (adding i c w \<and> taking i c w)" and "blocks_ok w"
    and "stats_next n k m w = Some w'"
  shows "exact_ok i c w'"
proof (cases m)
  case (Update j d len)
  then have w': "w' = w\<lparr>updating := (updating w)(j := update_accesses d len)\<rparr>" and u: "updating w j = []"
    using assms(4) by (auto split: if_splits)
  have "loaded w j = None" using blocks_okD(5) [OF assms(3) u] .
  then show ?thesis using assms(1) unfolding w' exact_ok_def by (auto simp: adding_def taking_def split: list.splits)
next
  case (Access j)
  then show ?thesis using assms(1,2,4)
    by (auto simp: worker_access_def exact_ok_def adding_def taking_def ac_simps
        split: list.splits option.splits if_splits)
next
  case Collect
  then have w': "w' = w\<lparr>visiting := collect_accesses n\<rparr>" and v: "visiting w = []"
    using assms(4) by (auto split: if_splits)
  have "exchanged w = None" using blocks_okD(6) [OF assms(3) v] .
  then show ?thesis using assms(1) unfolding w' exact_ok_def by (auto simp: adding_def taking_def split: list.splits)
next
  case Collect_access
  then show ?thesis using assms(1,2,4)
    by (auto simp: collector_access_def exact_ok_def adding_def taking_def ac_simps
        split: list.splits option.splits if_splits)
qed

lemma exact_ok_exec:
  assumes "stats_exec n k ms w = Some w'" and "no_overlap n k i c ms w" and "exact_ok i c w" and "blocks_ok w"
  shows "exact_ok i c w'"
  using assms
proof (induction ms arbitrary: w)
  case (Cons m ms)
  then obtain w1 where w1: "stats_next n k m w = Some w1" "stats_exec n k ms w1 = Some w'"
    by (auto split: option.splits)
  show ?case
    by (rule Cons.IH [OF w1(2)]) (use Cons.prems w1(1) exact_ok_next blocks_ok_next in auto)
qed simp

text \<open>The thread that collects never adds while it does.\<close>

lemma collecting_thread:
  assumes "stats_exec n (Some i) ms w = Some w'" and "updating w i = [] \<or> visiting w = []"
  shows "no_overlap n (Some i) i c ms w"
  using assms
proof (induction ms arbitrary: w)
  case Nil
  then show ?case by (auto simp: adding_def taking_def split: list.splits)
next
  case (Cons m ms)
  then obtain w1 where w1: "stats_next n (Some i) m w = Some w1" "stats_exec n (Some i) ms w1 = Some w'"
    by (auto split: option.splits)
  have "updating w1 i = [] \<or> visiting w1 = []"
    using w1(1) Cons.prems(2)
    by (cases m) (auto simp: worker_access_def collector_access_def split: if_splits list.splits option.splits)
  then show ?case using Cons.IH [OF w1(2)] Cons.prems(2) w1(1)
    by (auto simp: adding_def taking_def split: list.splits)
qed

section \<open>A collection between the load and the store of an addition\<close>

text \<open>Worker 1 receives a datagram of \<open>b\<close> bytes; between the load and the store of its byte count worker 0
  collects from both threads.\<close>

definition bad_round :: "u64 \<Rightarrow> stats_move list" where
  "bad_round b = [Update 1 Ingress b, Access 1, Collect] @ replicate 16 Collect_access @ replicate 3 (Access 1)"

definition first_datagram :: "u64 \<Rightarrow> stats_move list" where
  "first_datagram a = Update 1 Ingress a # replicate 4 (Access 1)"

definition at_rest :: "stats_world \<Rightarrow> bool" where
  "at_rest w \<longleftrightarrow> updating w = (\<lambda>_. []) \<and> loaded w = (\<lambda>_. None) \<and> visiting w = [] \<and> exchanged w = None"

lemmas stats_eval = at_rest_def worker_access_def collector_access_def collect_accesses_def reset_accesses_def
  stats_init_def numeral_eq_Suc

lemma first_datagram_exec:
  "\<exists>w. stats_exec 2 (Some 0) (first_datagram a) stats_init = Some w \<and> at_rest w
     \<and> get_counter In_bytes (per_thread w 1) = a \<and> reported w 1 In_bytes = [] \<and> added w 1 In_bytes = [a]"
  by (simp add: first_datagram_def stats_eval fun_eq_iff set_counter_def statistics_zero_def direction_zero_def)

lemma bad_round_exec:
  assumes "at_rest w"
  shows "\<exists>w'. stats_exec 2 (Some 0) (bad_round b) w = Some w' \<and> at_rest w'
     \<and> get_counter In_bytes (per_thread w' 1) = get_counter In_bytes (per_thread w 1) + b
     \<and> reported w' 1 In_bytes = reported w 1 In_bytes @ [get_counter In_bytes (per_thread w 1)]
     \<and> added w' 1 In_bytes = added w 1 In_bytes @ [b]"
  using assms by (simp add: bad_round_def stats_eval fun_eq_iff set_counter_def)

section \<open>Properties\<close>

text \<open>C24. Whatever the interleaving, a collection invents nothing: every value it takes from a counter
  of a thread is the sum of a block of consecutive additions of that thread to it, so it is never more
  than all the thread added; and so is what is left in the counter.\<close>

theorem collections_take_blocks:
  assumes "stats_exec n k ms stats_init = Some w" and "v \<in> set (reported w i c)"
  shows "(\<exists>before block after. added w i c = before @ block @ after \<and> v = sum_list block)
    \<and> unat v \<le> sum_list (map unat (added w i c))"
proof -
  have "blocks_ok w"
    by (rule stats_exec_invariant [where P = blocks_ok, OF assms(1) blocks_ok_init]) (rule blocks_ok_next)
  then have "block_sum v (added w i c)" using assms(2) by (rule blocks_okD(4))
  then show ?thesis using block_sum_le by (simp add: block_sum_def)
qed

lemma collections_take_blocks_witness:
  "\<exists>ms w. stats_exec 2 (Some 0) ms stats_init = Some w \<and> reported w 1 In_bytes = [40]
     \<and> added w 1 In_bytes = [40, 2] \<and> unat (40 :: u64) \<le> sum_list (map unat (added w 1 In_bytes))"
proof -
  obtain w where w: "stats_exec 2 (Some 0) (first_datagram 40) stats_init = Some w" "at_rest w"
    "get_counter In_bytes (per_thread w 1) = 40" "reported w 1 In_bytes = []" "added w 1 In_bytes = [40]"
    using first_datagram_exec by blast
  obtain w' where w': "stats_exec 2 (Some 0) (bad_round 2) w = Some w'" "reported w' 1 In_bytes = [40]"
    "added w' 1 In_bytes = [40, 2]" using bad_round_exec [OF w(2), of 2] w(3-5) by auto
  have "stats_exec 2 (Some 0) (first_datagram 40 @ bad_round 2) stats_init = Some w'"
    using w(1) w'(1) by (simp add: stats_exec_append)
  with collections_take_blocks [OF this, of 40 1 In_bytes] w'(2,3) show ?thesis
    by (intro exI [of _ "first_datagram 40 @ bad_round 2"] exI [of _ w']) simp
qed

text \<open>C25. The counters are exact where they can be: for the thread that collects, and for any
  counter none of whose additions is between its load and its store while the collection is between its
  load and its store of the same counter, what the collections took and what is left is what was added.\<close>

theorem undisturbed_counters_exact:
  assumes "stats_exec n k ms stats_init = Some w" and "k = Some i \<or> no_overlap n k i c ms stats_init"
  shows "sum_list (reported w i c) + get_counter c (per_thread w i) = sum_list (added w i c)"
proof -
  have "no_overlap n k i c ms stats_init"
    using assms collecting_thread [of n i ms stats_init w] by (auto simp: stats_init_def)
  moreover have "exact_ok i c stats_init"
    by (simp add: exact_ok_def stats_init_def adding_def taking_def)
  ultimately show ?thesis using exact_ok_exec [OF assms(1)] blocks_ok_init by (simp add: exact_ok_def)
qed

lemma undisturbed_counters_exact_witness:
  "\<exists>w. stats_exec 2 (Some 0) (first_datagram 40) stats_init = Some w
     \<and> sum_list (reported w 0 In_bytes) + get_counter In_bytes (per_thread w 0) = sum_list (added w 0 In_bytes)
     \<and> sum_list (reported w 1 In_bytes) + get_counter In_bytes (per_thread w 1) = sum_list (added w 1 In_bytes)"
proof -
  obtain w where w: "stats_exec 2 (Some 0) (first_datagram 40) stats_init = Some w"
    using first_datagram_exec by blast
  have "no_overlap 2 (Some 0) 1 In_bytes (first_datagram 40) stats_init"
    by (simp add: first_datagram_def stats_eval adding_def taking_def)
  with undisturbed_counters_exact [OF w] w show ?thesis by blast
qed

text \<open>C36. Good enough or not: with two workers there are, for any sizes and any number \<open>r\<close>, runs in which the
  other worker receives one datagram of \<open>a\<close> bytes and then \<open>r\<close> of \<open>b\<close> bytes, and each of the \<open>r\<close> collections
  reports the first datagram, and all the later ones so far, once more: a collection between the load and
  the store of one addition is undone, and the error is not bounded by what was received.\<close>

theorem collection_can_repeat:
  "\<exists>ms w. stats_exec 2 (Some 0) ms stats_init = Some w
     \<and> added w 1 In_bytes = a # replicate r b
     \<and> reported w 1 In_bytes = map (\<lambda>j. a + of_nat j * b) [0..<r]"
proof -
  have "\<exists>ms w. stats_exec 2 (Some 0) ms stats_init = Some w \<and> at_rest w
     \<and> get_counter In_bytes (per_thread w 1) = a + of_nat r * b
     \<and> added w 1 In_bytes = a # replicate r b
     \<and> reported w 1 In_bytes = map (\<lambda>j. a + of_nat j * b) [0..<r]"
  proof (induction r)
    case 0
    from first_datagram_exec [of a] show ?case by auto
  next
    case (Suc r)
    then obtain ms w where w: "stats_exec 2 (Some 0) ms stats_init = Some w" "at_rest w"
      "get_counter In_bytes (per_thread w 1) = a + of_nat r * b" "added w 1 In_bytes = a # replicate r b"
      "reported w 1 In_bytes = map (\<lambda>j. a + of_nat j * b) [0..<r]" by blast
    obtain w' where "stats_exec 2 (Some 0) (bad_round b) w = Some w'" "at_rest w'"
      "get_counter In_bytes (per_thread w' 1) = get_counter In_bytes (per_thread w 1) + b"
      "reported w' 1 In_bytes = reported w 1 In_bytes @ [get_counter In_bytes (per_thread w 1)]"
      "added w' 1 In_bytes = added w 1 In_bytes @ [b]" using bad_round_exec [OF w(2)] by blast
    with w show ?case
      by (intro exI [of _ "ms @ bad_round b"] exI [of _ w'])
        (simp add: stats_exec_append algebra_simps replicate_append_same)
  qed
  then show ?thesis by blast
qed

text \<open>Between two accesses of others nothing changes: an update that is not interrupted is the one of
  theory \<open>Statistics\<close>.\<close>

lemma uninterrupted_update:
  assumes "updating w i = []" and "loaded w i = None" and "i < n" and "visiting w = []"
  shows "\<exists>w'. stats_exec n k (Update i Ingress len # replicate 4 (Access i)) w = Some w'
     \<and> per_thread w' = (per_thread w)(i := (per_thread w i)\<lparr>stat_in := update_io_statistics (stat_in (per_thread w i)) len\<rparr>)"
    and "\<exists>w'. stats_exec n k (Update i Egress len # replicate 4 (Access i)) w = Some w'
     \<and> per_thread w' = (per_thread w)(i := (per_thread w i)\<lparr>stat_out := update_io_statistics (stat_out (per_thread w i)) len\<rparr>)"
  using assms by (simp_all add: worker_access_def numeral_eq_Suc set_counter_def update_io_statistics_def)

lemma four_resets:
  "s\<lparr>stat_in := (stat_in s)\<lparr>packets := 0, bytes := 0\<rparr>, stat_out := (stat_out s)\<lparr>packets := 0, bytes := 0\<rparr>\<rparr> = statistics_zero"
  by (cases s; cases "stat_in s"; cases "stat_out s") (simp add: statistics_zero_def direction_zero_def)

text \<open>The same for the exchanges of one thread's counters.\<close>

lemma uninterrupted_exchange:
  assumes "visiting w = reset_accesses i @ rest" and "exchanged w = None"
  shows "\<exists>w'. stats_exec n k (replicate 8 Collect_access) w = Some w'
     \<and> per_thread w' = (per_thread w)(i := fst (get_and_reset_into (per_thread w i) dest))
     \<and> (\<forall>c. reported w' i c = reported w i c @ [get_counter c (snd (get_and_reset_into (per_thread w i) dest))])
     \<and> visiting w' = rest \<and> exchanged w' = None"
  using assms
  by (simp add: reset_accesses_def collector_access_def numeral_eq_Suc set_counter_def four_resets all_counters)

end
