(* ===== verification/Uring_Loop.thy ===== *)
theory Uring_Loop
  imports Uring
begin

text \<open>
  The control of the loop of \<open>worker\<close> in \<^verbatim>\<open>uring/relay.cpp\<close>: \<open>io_uring_submit_and_wait\<close>, the
  completions one by one, and the way out, the flag \<open>has_sigint\<close> that the handler of \<open>SIGINT\<close> sets.
  Theory \<open>Uring\<close> says what a submission, a completion and the handling of one do, in any order; here they
  come in the order of the code, and the loop can end.
\<close>

section \<open>The loop\<close>

text \<open>\<open>Submitting\<close> is before \<open>io_uring_submit_and_wait\<close>, \<open>Waiting\<close> inside it, \<open>Draining\<close> in
  \<open>io_uring_for_each_cqe\<close>, which reads the tail of the queue again before each completion.\<close>

datatype phase = Submitting | Waiting | Draining | Exited

record 'ep loop_world =
  ring :: "'ep ring_world"
  phase :: phase
  has_sigint :: bool

definition loop_start :: "('ep, 'ep listen_context) relay \<Rightarrow> 'ep loop_world" where
  "loop_start r = \<lparr>ring = ring_start r, phase = Submitting, has_sigint = False\<rparr>"

text \<open>The process has many threads and the signal is handled by one of them: by this worker, whose wait
  it interrupts, or by another, which only sets the flag.\<close>

datatype 'ep loop_label =
    Kernel opcode "'ep ring_label"
  | Worker "'ep ring_label"
  | Signal_here
  | Signal_elsewhere
  | Turn

definition handle_sigint :: "'ep loop_world \<Rightarrow> 'ep loop_world" where
  "handle_sigint w = w\<lparr>has_sigint := True\<rparr>"

definition submit_all :: "'ep ring_world \<Rightarrow> 'ep ring_world" where
  "submit_all w = set_ctx ((ctx w)\<lparr>submission := []\<rparr>) (w\<lparr>pending := pending w @ submission (ctx w)\<rparr>)"

text \<open>What the worker does when no completion is left: \<open>if (has_sigint) break;\<close>\<close>

definition loop_again :: "'ep loop_world \<Rightarrow> 'ep loop_world" where
  "loop_again w = w\<lparr>phase := (if has_sigint w then Exited else Submitting)\<rparr>"

inductive loop_step :: "nat \<Rightarrow> 'ep loop_world \<Rightarrow> 'ep loop_label \<Rightarrow> 'ep loop_world \<Rightarrow> bool" for t where
  submits: "phase w = Submitting \<Longrightarrow>
     loop_step t w (Worker Internal) (w\<lparr>ring := submit_all (ring w), phase := Waiting\<rparr>)"
| completes: "s \<in> set (pending (ring w)) \<Longrightarrow> ring_step t (ring w) l r' \<Longrightarrow>
     completed r' = completed (ring w) @ [\<lparr>cqe_data = sqe_data s, cqe_res = n\<rparr>] \<Longrightarrow>
     loop_step t w (Kernel (op s) l) (w\<lparr>ring := r'\<rparr>)"
| wakes: "phase w = Waiting \<Longrightarrow> completed (ring w) \<noteq> [] \<Longrightarrow> loop_step t w Turn (w\<lparr>phase := Draining\<rparr>)"
| interrupted: "phase w = Waiting \<Longrightarrow> loop_step t w Signal_here ((handle_sigint w)\<lparr>phase := Draining\<rparr>)"
| signalled: "loop_step t w Signal_elsewhere (handle_sigint w)"
| handles: "phase w = Draining \<Longrightarrow> completed (ring w) = c # cs \<Longrightarrow> handle_cqe t c (urelay (ring w)) = Inr r \<Longrightarrow>
     loop_step t w (Worker (case cqe_datagram (ctx (ring w)) c of None \<Rightarrow> Internal | Some d \<Rightarrow> Handle d))
       (w\<lparr>ring := (ring w)\<lparr>urelay := r, completed := cs\<rparr>\<rparr>)"
| drained: "phase w = Draining \<Longrightarrow> completed (ring w) = [] \<Longrightarrow> loop_step t w Turn (loop_again w)"

inductive loop_run :: "nat \<Rightarrow> 'ep loop_world \<Rightarrow> 'ep loop_label list \<Rightarrow> 'ep loop_world \<Rightarrow> bool" for t where
  loop_stay: "loop_run t w [] w"
| loop_more: "loop_run t w ls w1 \<Longrightarrow> loop_step t w1 l w2 \<Longrightarrow> loop_run t w (ls @ [l]) w2"

fun ring_labels :: "'ep loop_label list \<Rightarrow> 'ep ring_label list" where
  "ring_labels [] = []"
| "ring_labels (Kernel o' l # ls) = l # ring_labels ls"
| "ring_labels (Worker l # ls) = l # ring_labels ls"
| "ring_labels (_ # ls) = ring_labels ls"

lemma ring_labels_append [simp]: "ring_labels (ls @ ks) = ring_labels ls @ ring_labels ks"
  by (induction ls rule: ring_labels.induct) simp_all

section \<open>The loop is a run of the ring\<close>

lemma loop_step_ring:
  assumes "loop_step t w l w'"
  shows "ring w' = ring w \<and> ring_labels [l] = [] \<or> (\<exists>k. ring_labels [l] = [k] \<and> ring_step t (ring w) k (ring w'))"
  using assms
proof cases
  case submits
  then show ?thesis using ring_step.submit [of t "ring w"] by (auto simp: submit_all_def)
next
  case (handles c cs r)
  then show ?thesis using ring_step.handle [OF handles(4,5)] by auto
qed (auto simp: handle_sigint_def loop_again_def)

lemma loop_run_ring:
  assumes "loop_run t w ls w'"
  shows "ring_run t (ring w) (ring_labels ls) (ring w')"
  using assms
proof induction
  case (loop_more w ls w1 l w2)
  then show ?case using loop_step_ring [OF loop_more(2)] by (auto intro: run_step)
qed (auto intro: run_start)

text \<open>What is queued is submitted before the worker waits, and it leaves only when signalled and with nothing left.\<close>

lemma kernel_keeps:
  assumes "ring_step t w l w'" and "length (completed w') = Suc (length (completed w))"
  shows "submission (ctx w') = submission (ctx w)"
  using assms
  by cases (auto simp: complete_def set_ctx_def kernel_receive_def set_event_def split: if_splits)

definition loop_ok :: "'ep loop_world \<Rightarrow> bool" where
  "loop_ok w \<longleftrightarrow> (phase w = Waiting \<longrightarrow> submission (ctx (ring w)) = []) \<and> (phase w = Exited \<longrightarrow> has_sigint w)"

lemma loop_step_ok:
  assumes "loop_step t w l w'" and "loop_ok w"
  shows "loop_ok w'"
  using assms(1)
proof cases
  case (completes s l r' n)
  then have "submission (ctx r') = submission (ctx (ring w))" using kernel_keeps by fastforce
  then show ?thesis using completes assms(2) by (simp add: loop_ok_def)
qed (use assms(2) in \<open>auto simp: loop_ok_def submit_all_def handle_sigint_def loop_again_def\<close>)

lemma loop_run_ok: "loop_run t w ls w' \<Longrightarrow> loop_ok w \<Longrightarrow> loop_ok w'"
  by (induction rule: loop_run.induct) (auto intro: loop_step_ok)

section \<open>Who can leave\<close>

lemma ring_step_index:
  assumes "ring_step t w l w'" and ok: "ring_ok t w"
  shows "thread_index (ctx w') = thread_index (ctx w)"
  using assms(1)
proof cases
  case (handle c cs r)
  have ops: "ops_ok (ctx w) (operations w) (c # cs)" and t: "thread_ok t (urelay w)"
    using ok handle(3) by (simp_all add: ring_ok_def)
  have sub: "operations w = pending w @ submission (ctx w)" by (simp add: operations_def)
  let ?ty = "event_type (io_events (ctx w) ! cqe_data c)"
  from head_cqe(7) [OF ops] have "?ty \<noteq> Type_invalid" by (simp add: cqe_ok_def)
  then consider "?ty = Type_client_rx" | "?ty = Type_peer_rx" | "?ty = Type_peer_tx" | "?ty = Type_timer"
    by (cases ?ty) auto
  then have "thread_index (lib r) = thread_index (ctx w)"
  proof cases
    case 1
    then have "0 \<le> cqe_res c" using handle(4) by (auto simp: handle_cqe_def Let_def split: if_splits)
    with handle_client_rx [OF ops sub t 1] handle(4) show ?thesis by auto
  next
    case 2
    then have "0 \<le> cqe_res c" using handle(4) by (auto simp: handle_cqe_def Let_def split: if_splits)
    with handle_peer_rx [OF ops sub t 2] handle(4) show ?thesis by auto
  next
    case 3
    with handle_peer_tx [OF ops t] handle(4) show ?thesis by (auto simp: release_event_def)
  next
    case 4
    with handle_timer [OF ops sub] handle(4) show ?thesis by auto
  qed
  then show ?thesis using handle(2) by simp
qed (auto simp: kernel_receive_def split: if_splits)

lemma ring_run_index:
  assumes "ring_run t w ls w'" and "ring_ok t w"
  shows "thread_index (ctx w') = thread_index (ctx w)"
  using assms
proof induction
  case (run_step w ls w1 l w2)
  then show ?case using ring_run_simulates [of t w ls w1] ring_step_index [of t w1 l w2] by simp
qed simp

text \<open>The operations a worker has in flight while it waits, when no completion is there.\<close>

lemma waiting_operations:
  assumes ok: "ring_ok t w" and "submission (ctx w) = []" and "completed w = []"
  shows "types_of (ctx w) (map sqe_data (pending w))
      = image_mset (\<lambda>s. event_type (io_events (ctx w) ! sqe_data s)) (mset (pending w))"
    and "filter_mset (\<lambda>ty. ty \<noteq> Type_peer_tx) (types_of (ctx w) (map sqe_data (pending w)))
      = {#Type_client_rx, Type_peer_rx#} + (if thread_index (ctx w) = 0 then {#Type_timer#} else {#})"
  using ok assms(2,3)
  by (simp_all add: types_of_def ring_ok_def census_ok_def in_flight_def operations_def is_main_worker_def
      image_mset.compositionality comp_def flip: mset_map)

lemma worker_without_timer:
  assumes ok: "ring_ok t w" and sub: "submission (ctx w) = []" and "completed w = []" and "thread_index (ctx w) \<noteq> 0"
    and s: "s \<in> set (pending w)" "op s \<noteq> Op_sendmsg"
  shows "op s = Op_recvmsg"
proof -
  let ?ty = "event_type (io_events (ctx w) ! sqe_data s)"
  have "?ty \<in># types_of (ctx w) (map sqe_data (pending w))"
    using s(1) waiting_operations(1) [OF assms(1-3)] by simp
  moreover have "?ty \<noteq> Type_peer_tx" using ring_operation [OF ok s(1)] s(2) by (auto simp: sqe_ok_def)
  ultimately have "?ty \<in># filter_mset (\<lambda>ty. ty \<noteq> Type_peer_tx) (types_of (ctx w) (map sqe_data (pending w)))" by simp
  then have "?ty = Type_client_rx \<or> ?ty = Type_peer_rx"
    unfolding waiting_operations(2) [OF assms(1-3)] using assms(4) by auto
  then show ?thesis using ring_operation [OF ok s(1)] by (auto simp: sqe_ok_def)
qed

lemma main_worker_timer:
  assumes ok: "ring_ok t w" and sub: "submission (ctx w) = []" and "completed w = []" and "thread_index (ctx w) = 0"
  shows "\<exists>s \<in> set (pending w). op s = Op_timeout \<and> event_type (io_events (ctx w) ! sqe_data s) = Type_timer"
proof -
  have "Type_timer \<in># filter_mset (\<lambda>ty. ty \<noteq> Type_peer_tx) (types_of (ctx w) (map sqe_data (pending w)))"
    unfolding waiting_operations(2) [OF assms(1-3)] using assms(4) by simp
  then have "Type_timer \<in># types_of (ctx w) (map sqe_data (pending w))" by simp
  then obtain s where "s \<in> set (pending w)" "event_type (io_events (ctx w) ! sqe_data s) = Type_timer"
    unfolding waiting_operations(1) [OF assms(1-3)] by auto
  moreover from this have "op s = Op_timeout" using ring_operation(1) [OF ok, of s] by (simp add: sqe_ok_def)
  ultimately show ?thesis by blast
qed

text \<open>A worker that waits for datagrams only.\<close>

definition waits_for_datagrams :: "'ep loop_world \<Rightarrow> bool" where
  "waits_for_datagrams w \<longleftrightarrow> phase w = Waiting \<and> completed (ring w) = []
     \<and> (\<forall>s \<in> set (pending (ring w)). op s = Op_recvmsg)"

lemma waits_on:
  assumes "loop_run t w ls w'" and "waits_for_datagrams w"
    and "\<forall>l \<in> set ls. l \<noteq> Signal_here \<and> (\<forall>k. l \<noteq> Kernel Op_recvmsg k)"
  shows "waits_for_datagrams w'"
  using assms
proof induction
  case (loop_more w ls w1 l w2)
  then have w1: "waits_for_datagrams w1" by simp
  from loop_more(2) w1 loop_more.prems(2) show ?case
    by cases (auto simp: waits_for_datagrams_def handle_sigint_def)
qed simp

text \<open>The way out of the main worker: its timer.\<close>

lemma main_worker_leaves:
  assumes ok: "ring_ok t (ring w)" and "submission (ctx (ring w)) = []" and c: "completed (ring w) = []"
    and "thread_index (ctx (ring w)) = 0" and w: "phase w = Waiting" "has_sigint w"
  shows "\<exists>w'. loop_run t w [Kernel Op_timeout Internal, Turn, Worker Internal, Turn] w' \<and> phase w' = Exited"
proof -
  obtain s where s: "s \<in> set (pending (ring w))" "op s = Op_timeout"
    "event_type (io_events (ctx (ring w)) ! sqe_data s) = Type_timer"
    using main_worker_timer [OF assms(1-4)] by blast
  let ?c = "\<lparr>cqe_data = sqe_data s, cqe_res = -62\<rparr>" and ?r1 = "complete s (-62) (ring w)"
  have step: "ring_step t (ring w) Internal ?r1" by (rule ring_step.expire) (use s in simp_all)
  have ok1: "ring_ok t ?r1" using ring_step_simulates [OF step ok] by blast
  have c1: "completed ?r1 = [?c]" "ctx ?r1 = ctx (ring w)" using c by simp_all
  have ops: "ops_ok (ctx (ring w)) (operations ?r1) [?c]" using ok1 c1 by (simp add: ring_ok_def)
  have "operations ?r1 = pending ?r1 @ submission (ctx (ring w))" by (simp add: operations_def)
  from handle_timer [OF ops this] s(3) obtain r where r: "handle_cqe t ?c (urelay ?r1) = Inr r" by auto
  have d: "cqe_datagram (ctx ?r1) ?c = None" by (simp add: cqe_datagram_def)
  define w1 where "w1 = w\<lparr>ring := ?r1\<rparr>"
  define w2 where "w2 = w1\<lparr>phase := Draining\<rparr>"
  define w3 where "w3 = w2\<lparr>ring := (ring w2)\<lparr>urelay := r, completed := []\<rparr>\<rparr>"
  have l1: "loop_step t w (Kernel (op s) Internal) w1"
    unfolding w1_def by (rule loop_step.completes [OF s(1) step, of "-62"]) (use c in simp)
  have l2: "loop_step t w1 Turn w2"
    unfolding w2_def by (rule loop_step.wakes) (use w c1 in \<open>simp_all add: w1_def\<close>)
  have l3: "loop_step t w2 (Worker Internal) w3"
    using loop_step.handles [of w2 ?c "[]" t r] c1 r d by (simp add: w1_def w2_def w3_def)
  have l4: "loop_step t w3 Turn (loop_again w3)"
    by (rule loop_step.drained) (simp_all add: w2_def w3_def)
  note loop_more [OF loop_more [OF loop_more [OF loop_more [OF loop_stay l1] l2] l3] l4]
  moreover have "phase (loop_again w3) = Exited" using w by (simp add: loop_again_def w1_def w2_def w3_def)
  ultimately show ?thesis using s(2) by (intro exI [of _ "loop_again w3"]) simp
qed

section \<open>Properties\<close>

lemma loop_reachable:
  assumes "i < unat threads" and "uring_worker_start z t i (relay_init threads l) os [] = (Inr r, calls)"
    and "loop_run t (loop_start r) ls w"
  shows "ring_run t (ring_start r) (ring_labels ls) (ring w)" "ring_ok t (ring w)" "loop_ok w"
    "thread_index (ctx (ring w)) = i"
proof -
  show run: "ring_run t (ring_start r) (ring_labels ls) (ring w)"
    using loop_run_ring [OF assms(3)] by (simp add: loop_start_def)
  show "ring_ok t (ring w)" using ring_reachable [OF assms(1,2) run] by blast
  show "loop_ok w" by (rule loop_run_ok [OF assms(3)]) (simp add: loop_ok_def loop_start_def)
  have "thread_index (lib r) = i" "ring_ok t (ring_start r)"
    using uring_worker_start_result [OF assms(1,2)] by blast+
  then show "thread_index (ctx (ring w)) = i" using ring_run_index [OF run] by (simp add: ring_start_def)
qed

text \<open>C13. The loop of a uring worker, in the order of its code and with signals at any time, does nothing but
  steps of the ring, so that its datagrams are handled and forwarded as the abstract relay does;
  it ends only after the signal and only when it has handled every completion there was.\<close>

theorem uring_loop_refines:
  assumes "i < unat threads" and "uring_worker_start z t i (relay_init threads l) os [] = (Inr r, calls)"
    and "loop_run t (loop_start r) ls w"
  shows "abs_run (Map.empty, [], {#}) (ring_labels ls)
      (registered (urelay (ring w)), inbox (ctx (ring w)) (completed (ring w)), outgoing (ctx (ring w)) (operations (ring w)))
    \<and> (phase w = Exited \<longrightarrow> has_sigint w)
    \<and> (\<forall>l' w'. loop_step t w l' w' \<and> phase w \<noteq> Exited \<and> phase w' = Exited \<longrightarrow> completed (ring w') = [])"
proof (intro conjI allI impI)
  note reach = loop_reachable [OF assms]
  show "abs_run (Map.empty, [], {#}) (ring_labels ls)
      (registered (urelay (ring w)), inbox (ctx (ring w)) (completed (ring w)), outgoing (ctx (ring w)) (operations (ring w)))"
    using ring_reachable [OF assms(1,2) reach(1)] by (simp add: abs_ring_def)
  show "phase w = Exited \<Longrightarrow> has_sigint w" using reach(3) by (simp add: loop_ok_def)
  show "completed (ring w') = []" if "loop_step t w l' w' \<and> phase w \<noteq> Exited \<and> phase w' = Exited" for l' w'
    using that by (auto simp: loop_again_def handle_sigint_def elim!: loop_step.cases)
qed

text \<open>Worker 1 of two starts, submits its receives and waits.\<close>

definition second_worker :: "(u64, u64 listen_context) relay" where
  "second_worker = started ((relay_init 2 (0 :: nat))\<lparr>this_thread_statistics := [7 \<mapsto> 1]\<rparr>)
     (armed_context (initial_context 0 1 0 0))"

lemma second_worker_start:
  "\<exists>calls. uring_worker_start 0 7 1 (relay_init 2 (0 :: nat)) (\<lambda>_ _. 0) [] = (Inr second_worker, calls)"
proof -
  have thread: "on_thread_start 7 1 (relay_init 2 (0 :: nat) :: (u64, nat) relay)
      = Inr ((relay_init 2 0)\<lparr>this_thread_statistics := [7 \<mapsto> 1]\<rparr>)"
    by (simp add: on_thread_start_def relay_init_def)
  have "\<exists>calls. listen_context_initialize (0 :: u64) 1 (\<lambda>_ _. 0) [] = (Inr (initial_context 0 1 0 0), calls)"
    by (simp add: listen_context_initialize_def prog_defs initial_context_def num_events_def is_main_worker_def)
  then obtain calls where init: "listen_context_initialize (0 :: u64) 1 (\<lambda>_ _. 0) [] = (Inr (initial_context 0 1 0 0), calls)"
    by blast
  have step: "bindP (listen_context_initialize (0 :: u64) 1) f (\<lambda>_ _. 0) [] = f (initial_context 0 1 0 0) (\<lambda>_ _. 0) calls"
    for f :: "u64 listen_context \<Rightarrow> (u64, u64 listen_context) relay prog"
    by (simp add: bindP_def init del: One_nat_def)
  show ?thesis
    unfolding uring_worker_start_def step
    by (simp add: arm_worker_eq thread lift_res_def second_worker_def started_def) (simp add: prog_defs)
qed

lemma second_worker_waits:
  "\<exists>w. loop_run 7 (loop_start second_worker) [Worker Internal, Signal_elsewhere] w \<and> phase w = Waiting \<and> has_sigint w
     \<and> completed (ring w) = [] \<and> map op (pending (ring w)) = [Op_recvmsg, Op_recvmsg]"
proof -
  define w1 where "w1 = (loop_start second_worker)\<lparr>ring := submit_all (ring (loop_start second_worker)), phase := Waiting\<rparr>"
  have "loop_step 7 (loop_start second_worker) (Worker Internal) w1"
    unfolding w1_def by (rule loop_step.submits) (simp add: loop_start_def)
  from loop_more [OF loop_more [OF loop_stay this] loop_step.signalled] show ?thesis
    by (intro exI [of _ "handle_sigint w1"])
      (simp add: handle_sigint_def w1_def loop_start_def submit_all_def ring_start_def second_worker_def
        started_def armed_context_def initial_context_def set_ctx_def Let_def)
qed

lemma uring_loop_refines_witness:
  "\<exists>w. loop_run 7 (loop_start second_worker) [Worker Internal, Signal_elsewhere] w \<and> has_sigint w
     \<and> abs_run (Map.empty, [], {#}) [Internal]
      (registered (urelay (ring w)), inbox (ctx (ring w)) (completed (ring w)), outgoing (ctx (ring w)) (operations (ring w)))"
proof -
  obtain w where w: "loop_run 7 (loop_start second_worker) [Worker Internal, Signal_elsewhere] w" "has_sigint w"
    using second_worker_waits by blast
  obtain calls where "uring_worker_start 0 7 1 (relay_init 2 (0 :: nat)) (\<lambda>_ _. 0) [] = (Inr second_worker, calls)"
    using second_worker_start by blast
  from uring_loop_refines [OF _ this w(1)] w show ?thesis by auto
qed

text \<open>C35. Whether a worker ever leaves after a signal depends on traffic. The main worker can always leave:
  from any state in which it waits, its timer brings it out without a datagram. Another worker
  that waits with no send in flight does not leave, whatever happens, until a receive completes or
  the signal is handled on its own thread; \<open>run\<close> joins every worker, so it does not return before.\<close>

theorem signal_needs_traffic:
  assumes "i < unat threads" and "uring_worker_start z t i (relay_init threads l) os [] = (Inr r, calls)"
    and "loop_run t (loop_start r) ls w" and "phase w = Waiting" and "completed (ring w) = []"
  shows "(i = 0 \<and> has_sigint w \<longrightarrow> (\<exists>w'. loop_run t w [Kernel Op_timeout Internal, Turn, Worker Internal, Turn] w' \<and> phase w' = Exited))
    \<and> (i \<noteq> 0 \<and> (\<forall>s \<in> set (pending (ring w)). op s \<noteq> Op_sendmsg) \<longrightarrow>
        (\<forall>ks w'. loop_run t w ks w' \<and> Signal_here \<notin> set ks \<and> (\<forall>k. Kernel Op_recvmsg k \<notin> set ks) \<longrightarrow> phase w' = Waiting))"
proof (intro conjI impI allI)
  note reach = loop_reachable [OF assms(1-3)]
  have sub: "submission (ctx (ring w)) = []" using reach(3) assms(4) by (simp add: loop_ok_def)
  show "\<exists>w'. loop_run t w [Kernel Op_timeout Internal, Turn, Worker Internal, Turn] w' \<and> phase w' = Exited"
    if "i = 0 \<and> has_sigint w"
    by (rule main_worker_leaves [OF reach(2) sub assms(5) _ assms(4)]) (use that reach(4) in auto)
  fix ks w'
  assume i: "i \<noteq> 0 \<and> (\<forall>s \<in> set (pending (ring w)). op s \<noteq> Op_sendmsg)"
    and ks: "loop_run t w ks w' \<and> Signal_here \<notin> set ks \<and> (\<forall>k. Kernel Op_recvmsg k \<notin> set ks)"
  have "waits_for_datagrams w"
    using worker_without_timer [OF reach(2) sub assms(5)] i reach(4) assms(4,5) by (simp add: waits_for_datagrams_def)
  moreover have "\<forall>k \<in> set ks. k \<noteq> Signal_here \<and> (\<forall>j. k \<noteq> Kernel Op_recvmsg j)" using ks by blast
  ultimately have "waits_for_datagrams w'" using waits_on ks by blast
  then show "phase w' = Waiting" by (simp add: waits_for_datagrams_def)
qed

lemma signal_needs_traffic_witness:
  "\<exists>w. loop_run 7 (loop_start second_worker) [Worker Internal, Signal_elsewhere] w \<and> has_sigint w
     \<and> (\<forall>ks w'. loop_run 7 w ks w' \<and> Signal_here \<notin> set ks \<and> (\<forall>k. Kernel Op_recvmsg k \<notin> set ks) \<longrightarrow> phase w' = Waiting)"
proof -
  obtain w where w: "loop_run 7 (loop_start second_worker) [Worker Internal, Signal_elsewhere] w" "has_sigint w"
    "phase w = Waiting" "completed (ring w) = []" "map op (pending (ring w)) = [Op_recvmsg, Op_recvmsg]"
    using second_worker_waits by metis
  obtain calls where "uring_worker_start 0 7 1 (relay_init 2 (0 :: nat)) (\<lambda>_ _. 0) [] = (Inr second_worker, calls)"
    using second_worker_start by blast
  note C = signal_needs_traffic [OF _ this w(1,3,4)]
  have "set (map op (pending (ring w))) = {Op_recvmsg}" unfolding w(5) by simp
  then have "op ` set (pending (ring w)) = {Op_recvmsg}" by (simp only: set_map)
  then have "op s = Op_recvmsg" if "s \<in> set (pending (ring w))" for s
    using imageI [OF that, of op] by simp
  then have no_sends: "\<forall>s \<in> set (pending (ring w)). op s \<noteq> Op_sendmsg" by simp
  have "\<forall>ks w'. loop_run 7 w ks w' \<and> Signal_here \<notin> set ks \<and> (\<forall>k. Kernel Op_recvmsg k \<notin> set ks) \<longrightarrow> phase w' = Waiting"
    by (rule C [THEN conjunct2, THEN mp]) (use no_sends in simp_all)
  with w(1,2) show ?thesis by blast
qed

end
