(* ===== verification/Startup.thy ===== *)
theory Startup
  imports Latch Setup Uring
begin

text \<open>
  The start of the workers of the mmsg and the uring experiment all together: each makes some calls,
  waits on the latch, and makes some more (theories \<open>Setup\<close> and \<open>Uring\<close> say which). Here these
  sequences run interleaved, with the latch of theory \<open>Latch\<close> statement by statement in the middle.
\<close>

section \<open>Workers around a latch\<close>

text \<open>\<open>before\<close> and \<open>after\<close> are the calls a worker still has to make, \<open>early\<close> and \<open>late\<close> those made,
  in the order in which the workers made them.\<close>

record 'c start_world =
  start_latch :: latch
  before :: "nat \<Rightarrow> 'c list"
  after :: "nat \<Rightarrow> 'c list"
  early :: "(nat \<times> 'c) list"
  late :: "(nat \<times> 'c) list"

definition start_all :: "nat \<Rightarrow> (nat \<Rightarrow> 'c list) \<Rightarrow> (nat \<Rightarrow> 'c list) \<Rightarrow> 'c start_world" where
  "start_all n bs as = \<lparr>start_latch = latch_init (int n), before = bs, after = as, early = [], late = []\<rparr>"

datatype start_move = Calls nat | Latch_move move

fun mover :: "move \<Rightarrow> nat" where
  "mover (Runs t) = t"
| "mover (Wakes t) = t"

inductive start_step :: "nat \<Rightarrow> 'c start_world \<Rightarrow> start_move \<Rightarrow> 'c start_world \<Rightarrow> bool" for n where
  calls_early: "t < n \<Longrightarrow> before w t = c # cs \<Longrightarrow>
     start_step n w (Calls t) (w\<lparr>before := (before w)(t := cs), early := early w @ [(t, c)]\<rparr>)"
| waits: "before w (mover m) = [] \<Longrightarrow> latch_step n (start_latch w) m l \<Longrightarrow>
     start_step n w (Latch_move m) (w\<lparr>start_latch := l\<rparr>)"
| calls_late: "t < n \<Longrightarrow> pc_of (start_latch w) t = Returned \<Longrightarrow> after w t = c # cs \<Longrightarrow>
     start_step n w (Calls t) (w\<lparr>after := (after w)(t := cs), late := late w @ [(t, c)]\<rparr>)"

inductive start_run :: "nat \<Rightarrow> 'c start_world \<Rightarrow> start_move list \<Rightarrow> 'c start_world \<Rightarrow> bool" for n where
  start_stay: "start_run n w [] w"
| start_more: "start_run n w ms w1 \<Longrightarrow> start_step n w1 m w2 \<Longrightarrow> start_run n w (ms @ [m]) w2"

text \<open>The calls of one worker in a log.\<close>

definition made_by :: "nat \<Rightarrow> (nat \<times> 'c) list \<Rightarrow> 'c list" where
  "made_by t xs = map snd (filter (\<lambda>p. fst p = t) xs)"

lemma made_by_simps [simp]:
  "made_by t [] = []" "made_by t (xs @ ys) = made_by t xs @ made_by t ys"
  "made_by t [(u, c)] = (if u = t then [c] else [])"
  by (simp_all add: made_by_def)

fun latch_moves :: "start_move list \<Rightarrow> move list" where
  "latch_moves [] = []"
| "latch_moves (Latch_move m # ms) = m # latch_moves ms"
| "latch_moves (Calls t # ms) = latch_moves ms"

lemma latch_moves_append [simp]: "latch_moves (ms @ ks) = latch_moves ms @ latch_moves ks"
  by (induction ms rule: latch_moves.induct) simp_all

section \<open>Invariant\<close>

definition start_ok :: "nat \<Rightarrow> (nat \<Rightarrow> 'c list) \<Rightarrow> (nat \<Rightarrow> 'c list) \<Rightarrow> start_move list \<Rightarrow> 'c start_world \<Rightarrow> bool" where
  "start_ok n bs as ms w \<longleftrightarrow> latch_run n (latch_moves ms) (start_latch w)
     \<and> (\<forall>t < n. bs t = made_by t (early w) @ before w t \<and> as t = made_by t (late w) @ after w t
          \<and> (pc_of (start_latch w) t \<noteq> Outside \<longrightarrow> before w t = []))
     \<and> (\<forall>p \<in> set (early w) \<union> set (late w). fst p < n)
     \<and> (late w \<noteq> [] \<longrightarrow> (\<forall>t < n. before w t = []))
     \<and> length (early w) + length (late w) + length (latch_moves ms) = length ms"

lemma start_okD:
  assumes "start_ok n bs as ms w"
  shows "t < n \<Longrightarrow> bs t = made_by t (early w) @ before w t" "t < n \<Longrightarrow> as t = made_by t (late w) @ after w t"
    "p \<in> set (early w) \<union> set (late w) \<Longrightarrow> fst p < n"
  using assms unfolding start_ok_def by blast+

lemma latch_step_others:
  assumes "latch_step n l m l'" and "t \<noteq> mover m"
  shows "pc_of l' t \<noteq> Outside \<longleftrightarrow> pc_of l t \<noteq> Outside"
  using assms by cases (auto simp: latch_next_def Let_def split: pc.splits if_splits)

lemma released_before:
  assumes "start_ok n bs as ms w" and "t < n" and "pc_of (start_latch w) t = Returned"
  shows "\<forall>u < n. before w u = []"
proof -
  have "latch_ok n (start_latch w)" using assms(1) latch_run_ok unfolding start_ok_def by blast
  then have "\<forall>u < n. arrived (pc_of (start_latch w) u)" using latch_ok_released assms(2,3) by blast
  then show ?thesis using assms(1) unfolding start_ok_def by (metis arrived.simps(1))
qed

lemma start_ok_step:
  assumes ok: "start_ok n bs as ms w" and "start_step n w m w'"
  shows "start_ok n bs as (ms @ [m]) w'"
  using assms(2)
proof cases
  case (calls_early t c cs)
  then show ?thesis using ok unfolding start_ok_def by auto
next
  case (waits k l)
  have "latch_run n (latch_moves ms @ [k]) l"
    using ok waits(4) latch_more unfolding start_ok_def by blast
  moreover have "before w t = []" if "t < n" "pc_of l t \<noteq> Outside" for t
    using that ok waits(3) latch_step_others [OF waits(4), of t] unfolding start_ok_def by (cases "t = mover k") auto
  ultimately show ?thesis using ok waits(1,2) unfolding start_ok_def by auto
next
  case (calls_late t c cs)
  then show ?thesis using ok released_before [OF ok calls_late(3,4)] unfolding start_ok_def by auto
qed

lemma start_run_ok:
  assumes "start_run n w0 ms w" and "w0 = start_all n bs as"
  shows "start_ok n bs as ms w"
  using assms
proof induction
  case (start_stay w)
  then show ?case using latch_start by (simp add: start_ok_def start_all_def latch_init_def)
qed (auto intro: start_ok_step)

section \<open>Barrier, progress and length of a start\<close>

lemma all_made_before:
  assumes "start_run n (start_all n bs as) ms w" and "late w \<noteq> []" and "t < n"
  shows "made_by t (early w) = bs t"
  using start_run_ok [OF assms(1) refl] assms(2,3) unfolding start_ok_def by auto

lemma length_made_by:
  assumes "\<forall>p \<in> set xs. fst p < n"
  shows "length xs = (\<Sum>t<n. length (made_by t xs))"
  using assms
proof (induction xs rule: rev_induct)
  case (snoc p xs)
  obtain u c where p: "p = (u, c)" by (cases p)
  have "(\<Sum>t<n. length (made_by t (xs @ [p]))) = (\<Sum>t<n. length (made_by t xs) + (if u = t then 1 else 0))"
    by (rule sum.cong) (simp_all add: p)
  also have "\<dots> = (\<Sum>t<n. length (made_by t xs)) + (\<Sum>t<n. if u = t then 1 else 0)" by (rule sum.distrib)
  also have "(\<Sum>t<n. if u = t then 1 else 0) = (1 :: nat)" using snoc.prems p by simp
  finally show ?case using snoc by simp
qed simp

lemma start_can_move:
  assumes "start_run n (start_all n bs as) ms w"
  shows "(\<forall>t < n. before w t = [] \<and> after w t = [] \<and> pc_of (start_latch w) t = Returned)
    \<or> (\<exists>m w'. start_step n w m w' \<and> (\<forall>t. m \<noteq> Latch_move (Wakes t)))"
proof (cases "\<exists>t < n. before w t \<noteq> []")
  case True
  then obtain t c cs where "t < n" "before w t = c # cs" by (metis list.exhaust)
  from calls_early [OF this] show ?thesis by blast
next
  case early: False
  have run: "latch_run n (latch_moves ms) (start_latch w)"
    using start_run_ok [OF assms refl] unfolding start_ok_def by blast
  show ?thesis
  proof (cases "\<forall>t < n. pc_of (start_latch w) t = Returned")
    case True
    show ?thesis
    proof (cases "\<exists>t < n. after w t \<noteq> []")
      case True
      then obtain t c cs where "t < n" "after w t = c # cs" by (metis list.exhaust)
      with calls_late [of t n w] \<open>\<forall>t < n. pc_of (start_latch w) t = Returned\<close> show ?thesis by blast
    next
      case False
      with early \<open>\<forall>t < n. pc_of (start_latch w) t = Returned\<close> show ?thesis by blast
    qed
  next
    case False
    with latch_no_lost_wakeup [OF run] obtain t l where "t < n" "latch_next t (start_latch w) = Some l" by blast
    then have "start_step n w (Latch_move (Runs t)) (w\<lparr>start_latch := l\<rparr>)"
      using early by (intro waits runs) auto
    then show ?thesis by blast
  qed
qed

definition spurious :: "start_move list \<Rightarrow> nat" where
  "spurious ms = length (latch_moves ms) - runs_in (latch_moves ms)"

lemma start_length:
  assumes "start_run n (start_all n bs as) ms w"
  shows "length ms \<le> (\<Sum>t<n. length (bs t) + length (as t)) + n * (2 * n + 7) + 3 * spurious ms"
proof -
  have ok: "start_ok n bs as ms w" using assms start_run_ok by blast
  then have "length (early w) = (\<Sum>t<n. length (made_by t (early w)))" "length (late w) = (\<Sum>t<n. length (made_by t (late w)))"
    unfolding start_ok_def by (auto intro: length_made_by)
  moreover have "length (made_by t (early w)) \<le> length (bs t)" "length (made_by t (late w)) \<le> length (as t)" if "t < n" for t
    using ok that unfolding start_ok_def by auto
  ultimately have "length (early w) + length (late w) \<le> (\<Sum>t<n. length (bs t) + length (as t))"
    unfolding sum.distrib by (simp only:) (intro add_mono sum_mono, simp_all)
  moreover have "runs_in (latch_moves ms) \<le> n * (2 * n + 7) + 2 * spurious ms"
    using latch_terminates [of n "latch_moves ms" "start_latch w"] ok unfolding start_ok_def spurious_def by blast
  moreover have "runs_in (latch_moves ms) \<le> length (latch_moves ms)" by (rule runs_in_le)
  moreover have "length (early w) + length (late w) + length (latch_moves ms) = length ms"
    using ok unfolding start_ok_def by blast
  ultimately show ?thesis unfolding spurious_def by linarith
qed

section \<open>Properties\<close>

text \<open>C30. Workers that start around the latch never get stuck and do not start forever: whatever calls each
  makes before and after \<open>wait()\<close>, in every reachable state either every worker has made all of them, or
  some worker can go on without a spurious wake-up; and a start has at most as many steps as there
  are calls, plus \<open>n (2 n + 7)\<close> for the latch, plus three per spurious wake-up.\<close>

theorem startup_completes:
  assumes "start_run n (start_all n bs as) ms w"
  shows "((\<forall>t < n. made_by t (early w) = bs t \<and> made_by t (late w) = as t \<and> pc_of (start_latch w) t = Returned)
      \<or> (\<exists>m w'. start_step n w m w' \<and> (\<forall>t. m \<noteq> Latch_move (Wakes t))))
    \<and> length ms \<le> (\<Sum>t<n. length (bs t) + length (as t)) + n * (2 * n + 7) + 3 * spurious ms"
proof -
  have "bs t = made_by t (early w) @ before w t" "as t = made_by t (late w) @ after w t" if "t < n" for t
    using start_run_ok [OF assms refl] that unfolding start_ok_def by blast+
  then show ?thesis using start_can_move [OF assms] start_length [OF assms] by fastforce
qed

text \<open>The two halves of the calls of a worker.\<close>

definition before_latch :: "syscall list \<Rightarrow> syscall list" where
  "before_latch cs = takeWhile (\<lambda>c. c \<noteq> Latch_wait) cs"

definition after_latch :: "syscall list \<Rightarrow> syscall list" where
  "after_latch cs = tl (dropWhile (\<lambda>c. c \<noteq> Latch_wait) cs)"

lemma uring_halves:
  "before_latch (uring_start_calls i c p) = [Ring_init 4096] @ (if i = 0 then [Print ''supported features''] else [])
     @ Socket client_port # option_calls c @ Socket peer_port # option_calls p
     @ [Print ''sockets'', Register_files [p, c], Print ''using fixed files'', Register_buffers 0 16384,
        Print ''using fixed buffers'']"
  "after_latch (uring_start_calls i c p) = [Bind c client_port, Bind p peer_port]"
  by (simp_all add: before_latch_def after_latch_def uring_start_calls_def option_calls_def)

text \<open>C31. Why the uring workers wait for each other: when any of the workers binds a socket, every one of them
  has already set its ring up, created both its sockets with \<open>SO_REUSEPORT\<close> and registered them, whatever
  the interleaving of the threads, and nothing was bound before.\<close>

theorem uring_binds_after_all_sockets:
  assumes "\<forall>i < unat threads. uring_worker_start z (tid i) i (relay_init threads l) (os i) [] = (Inr (r i), calls i)"
    and "start_run (unat threads) (start_all (unat threads) (\<lambda>i. before_latch (calls i)) (\<lambda>i. after_latch (calls i))) ms w"
    and "(t, Bind fd a) \<in> set (early w) \<union> set (late w)"
  shows "\<forall>i < unat threads. made_by i (early w) = before_latch (calls i)
    \<and> (\<exists>c p. calls i = before_latch (calls i) @ [Latch_wait, Bind c client_port, Bind p peer_port]
        \<and> {Setsockopt c SO_REUSEPORT 1, Setsockopt p SO_REUSEPORT 1, Register_files [p, c]} \<subseteq> set (made_by i (early w)))
    \<and> (\<forall>fd a. Bind fd a \<notin> set (made_by i (early w)))"
proof -
  let ?n = "unat threads"
  have calls: "\<exists>c p. calls i = uring_start_calls i c p" if "i < ?n" for i
    using uring_worker_start_result [OF that assms(1) [rule_format, OF that]] by blast
  have no_bind: "Bind fd a \<notin> set (before_latch (calls i))" if "i < ?n" for i fd a
    using calls [OF that] by (auto simp: uring_halves option_calls_def)
  have ok: "start_ok ?n (\<lambda>i. before_latch (calls i)) (\<lambda>i. after_latch (calls i)) ms w"
    using start_run_ok [OF assms(2) refl] .
  have "(t, Bind fd a) \<notin> set (early w)"
  proof
    assume bind: "(t, Bind fd a) \<in> set (early w)"
    then have t: "t < ?n" using start_okD(3) [OF ok, of "(t, Bind fd a)"] by simp
    have "Bind fd a \<in> set (made_by t (early w))" using bind unfolding made_by_def by force
    then have "Bind fd a \<in> set (before_latch (calls t))" unfolding start_okD(1) [OF ok t] by simp
    with no_bind [OF t] show False by blast
  qed
  then have "late w \<noteq> []" using assms(3) by auto
  then have made: "made_by i (early w) = before_latch (calls i)" if "i < ?n" for i
    using all_made_before [OF assms(2) _ that] by blast
  show ?thesis
  proof (intro allI impI)
    fix i assume i: "i < ?n"
    obtain c p where cp: "calls i = uring_start_calls i c p" using calls [OF i] by blast
    have "calls i = before_latch (calls i) @ [Latch_wait, Bind c client_port, Bind p peer_port]"
      by (simp add: cp uring_halves) (simp add: uring_start_calls_def)
    moreover have "{Setsockopt c SO_REUSEPORT 1, Setsockopt p SO_REUSEPORT 1, Register_files [p, c]} \<subseteq> set (before_latch (calls i))"
      by (simp add: cp uring_halves option_calls_def)
    ultimately show "made_by i (early w) = before_latch (calls i)
      \<and> (\<exists>c p. calls i = before_latch (calls i) @ [Latch_wait, Bind c client_port, Bind p peer_port]
        \<and> {Setsockopt c SO_REUSEPORT 1, Setsockopt p SO_REUSEPORT 1, Register_files [p, c]} \<subseteq> set (made_by i (early w)))
      \<and> (\<forall>fd a. Bind fd a \<notin> set (made_by i (early w)))"
      using made [OF i] no_bind [OF i] by metis
  qed
qed

section \<open>A start of one worker\<close>

text \<open>One worker makes its calls, gets through the latch alone and binds.\<close>

lemma run_early:
  assumes "start_run n w0 ms w" and "t < n" and "before w t = cs @ ds"
  shows "\<exists>ms' w'. start_run n w0 ms' w' \<and> before w' t = ds \<and> early w' = early w @ map (Pair t) cs
    \<and> start_latch w' = start_latch w \<and> after w' = after w \<and> late w' = late w"
  using assms
proof (induction cs arbitrary: ms w)
  case Nil
  then show ?case by auto
next
  case (Cons c cs)
  from start_more [OF Cons.prems(1) calls_early [OF Cons.prems(2), of w c "cs @ ds"]] Cons.prems(3)
  have "start_run n w0 (ms @ [Calls t]) (w\<lparr>before := (before w)(t := cs @ ds), early := early w @ [(t, c)]\<rparr>)" by simp
  from Cons.IH [OF this Cons.prems(2)] show ?case by simp
qed

lemma run_latch:
  assumes "latch_exec n ks k = Some l" and "start_run n w0 ms w" and "\<forall>t < n. before w t = []" and "start_latch w = k"
  shows "\<exists>ms'. start_run n w0 ms' (w\<lparr>start_latch := l\<rparr>)"
  using assms
proof (induction n ks k arbitrary: ms w rule: latch_exec.induct)
  case (1 n k)
  then have "w\<lparr>start_latch := l\<rparr> = w" by simp
  then show ?case using 1 by auto
next
  case (2 n t ks k)
  then obtain k' where k: "t < n" "latch_next t k = Some k'" "latch_exec n ks k' = Some l"
    by (auto split: if_splits option.splits)
  have "start_run n w0 (ms @ [Latch_move (Runs t)]) (w\<lparr>start_latch := k'\<rparr>)"
    by (rule start_more [OF 2(3)], rule waits) (use 2(4,5) k runs in auto)
  from 2(1) [OF k(1,2,3) this] 2(4) show ?case by simp
next
  case (3 n t ks k)
  then obtain g where k: "t < n" "pc_of k t = Blocked g" "latch_exec n ks (goto t (Woken g) k) = Some l"
    by (auto split: if_splits pc.splits)
  have "start_run n w0 (ms @ [Latch_move (Wakes t)]) (w\<lparr>start_latch := goto t (Woken g) k\<rparr>)"
    by (rule start_more [OF 3(3)], rule waits) (use 3(4,5) k wakes in auto)
  from 3(1) [OF k(1,2,3) this] 3(4) show ?case by simp
qed

text \<open>A single worker, from its first call to its first bind.\<close>

lemma one_worker_binds:
  fixes bs as :: "nat \<Rightarrow> 'c list"
  assumes "as 0 = c # cs"
  shows "\<exists>ms w. start_run 1 (start_all 1 bs as) ms w \<and> late w = [(0, c)] \<and> made_by 0 (early w) = bs 0"
proof -
  obtain ms w where w: "start_run 1 (start_all 1 bs as) ms w" "before w 0 = []" "early w = map (Pair 0) (bs 0)"
    "start_latch w = latch_init 1" "after w = as" "late w = []"
    using run_early [OF start_stay [of 1 "start_all 1 bs as"], of 0 "bs 0" "[]"] by (auto simp: start_all_def)
  have "\<exists>l. latch_exec 1 (replicate 6 (Runs 0)) (latch_init 1) = Some l \<and> pc_of l 0 = Returned"
    by (simp add: latch_eval)
  then obtain l where l: "latch_exec 1 (replicate 6 (Runs 0)) (start_latch w) = Some l" "pc_of l 0 = Returned"
    using w(4) by auto
  obtain ms' where "start_run 1 (start_all 1 bs as) ms' (w\<lparr>start_latch := l\<rparr>)"
    using run_latch [OF l(1) w(1) _ refl] w(2) by auto
  from start_more [OF this calls_late [of 0 1 _ c cs]] show ?thesis
    using w l(2) assms by (intro exI conjI) (auto simp: made_by_def comp_def)
qed

lemma startup_completes_witness:
  "\<exists>ms w. start_run 1 (start_all 1 (\<lambda>_. [Ring_init 4096]) (\<lambda>_. [Bind 3 client_port])) ms w
     \<and> late w = [(0, Bind 3 client_port)] \<and> length ms \<le> 11 + 3 * spurious ms"
proof -
  obtain ms w where w: "start_run 1 (start_all 1 (\<lambda>_. [Ring_init 4096]) (\<lambda>_. [Bind 3 client_port])) ms w"
    "late w = [(0, Bind 3 client_port)]" using one_worker_binds [of "\<lambda>_. [Bind 3 client_port]"] by blast
  with startup_completes [OF w(1)] show ?thesis by auto
qed

lemma uring_binds_after_all_sockets_witness:
  "\<exists>calls ms w c p. uring_worker_start 0 0 0 (relay_init 1 (0 :: nat)) (\<lambda>_ _. 0) [] = (Inr demo_ring, calls)
     \<and> start_run 1 (start_all 1 (\<lambda>_. before_latch calls) (\<lambda>_. after_latch calls)) ms w
     \<and> late w = [(0, Bind c client_port)] \<and> Setsockopt p SO_REUSEPORT 1 \<in> set (made_by 0 (early w))"
proof -
  obtain calls where start: "uring_worker_start 0 0 0 (relay_init 1 (0 :: nat)) (\<lambda>_ _. 0) [] = (Inr demo_ring, calls)"
    using demo_ring_start by blast
  have "\<exists>c p. calls = uring_start_calls 0 c p" using uring_worker_start_result [OF _ start] by simp
  then obtain c p where cp: "calls = uring_start_calls 0 c p" by blast
  obtain ms w where w: "start_run 1 (start_all 1 (\<lambda>_. before_latch calls) (\<lambda>_. after_latch calls)) ms w"
    "late w = [(0, Bind c client_port)]"
    using one_worker_binds [where as = "\<lambda>_. after_latch calls" and bs = "\<lambda>_. before_latch calls"
        and c = "Bind c client_port"] uring_halves(2) [of 0 c p] unfolding cp by blast
  have one: "unat (1 :: u16) = 1" by simp
  have starts: "\<forall>i < unat (1 :: u16). uring_worker_start 0 0 i (relay_init 1 (0 :: nat)) (\<lambda>_ _. 0) [] = (Inr demo_ring, calls)"
    using start by simp
  from uring_binds_after_all_sockets [where tid = "\<lambda>_. 0" and os = "\<lambda>_ _ _. 0" and r = "\<lambda>_. demo_ring" and threads = 1
      and calls = "\<lambda>_. calls" and t = 0 and fd = c and a = client_port, OF starts] w one
  have "\<exists>p. Setsockopt p SO_REUSEPORT 1 \<in> set (made_by 0 (early w))" by fastforce
  with start w show ?thesis by blast
qed

end
