(* ===== verification/Mmsg_Loop.thy ===== *)
theory Mmsg_Loop
  imports Args Setup
begin

text \<open>
  \<open>main\<close> of \<^verbatim>\<open>mmsg/main.cpp\<close>, and the loop of \<open>worker\<close> in \<^verbatim>\<open>mmsg/relay.cpp\<close>, of which theory \<open>Mmsg\<close> has
  one iteration: one worker with the relay to itself, while none of its system calls fails. What all the workers
  on one relay do is the subject of theory \<open>Mmsg_Workers\<close>, and from the command line of theory
  \<open>Mmsg_Service\<close>; system calls that fail are allowed in \<open>Mmsg_Workers\<close> and \<open>Refused_Sends\<close>.
\<close>

section \<open>The loop of the mmsg worker\<close>

text \<open>What one iteration found and did: client datagrams, peer datagrams, messages transmitted.\<close>

record 'ep frame =
  from_clients :: "('ep \<times> u8 list) list"
  from_peers :: "u8 list list"
  transmitted :: "('ep \<times> u8 list) list"

text \<open>What the kernel delivers in an iteration that starts in the state \<open>r\<close>.\<close>

definition arrivals :: "'ep kernel \<Rightarrow> ('ep, 'ep io_worker) relay \<Rightarrow> ('ep \<times> u8 list) list \<times> u8 list list" where
  "arrivals k r =
     (let mem = message_mem (lib r);
          cres = client_recvmmsg k (rx (clients_io (lib r))) mem;
          mem' = (if client_ready k then memory cres else mem);
          pres = peer_recvmmsg k (rx (peers_io (lib r))) mem'
      in (if client_ready k then delivered cres else [], if peer_ready k then map snd (delivered pres) else []))"

text \<open>\<open>for (;;)\<close>, for as many iterations as there are entries: each has the fuel of its send loop and what
  the operating system does in it.\<close>

fun worker_loop :: "(nat \<times> 'ep kernel) list \<Rightarrow> nat \<Rightarrow> ('ep, 'ep io_worker) relay
    \<Rightarrow> ('ep frame list \<times> ('ep, 'ep io_worker) relay) res option" where
  "worker_loop [] t r = Some (Inr ([], r))"
| "worker_loop ((fuel, k) # ks) t r =
     (case worker_iteration fuel k t r of
        None \<Rightarrow> None
      | Some (Inl e) \<Rightarrow> Some (Inl e)
      | Some (Inr (out, line, r')) \<Rightarrow>
          map_option (\<lambda>res. bindR res (\<lambda>(fs, r'').
              Inr (\<lparr>from_clients = fst (arrivals k r), from_peers = snd (arrivals k r), transmitted = out\<rparr> # fs, r'')))
            (worker_loop ks t r'))"

text \<open>The abstract relay over the iterations.\<close>

fun frames_forwarded :: "(u64 \<rightharpoonup> 'ep) \<Rightarrow> 'ep frame list \<Rightarrow> (u64 \<rightharpoonup> 'ep) \<Rightarrow> bool" where
  "frames_forwarded table [] table' \<longleftrightarrow> table' = table"
| "frames_forwarded table (f # fs) table' \<longleftrightarrow>
     transmitted f = spec_peers (spec_clients (from_clients f) table) (from_peers f)
   \<and> frames_forwarded (spec_clients (from_clients f) table) fs table'"

text \<open>What the code relies on from the system while no call fails.\<close>

definition kernel_ok :: "nat \<Rightarrow> 'ep kernel \<Rightarrow> bool" where
  "kernel_ok n k \<longleftrightarrow> recv_ok n (client_recvmmsg k) \<and> recv_ok n (peer_recvmmsg k) \<and> send_ok (sendmmsg k) \<and> 0 \<le> timer_read k"

section \<open>The main function\<close>

definition mmsg_main :: "nat \<Rightarrow> string list \<Rightarrow> int prog" where
  "mmsg_main hc args = bindP (lift_res (c_config hc args)) (\<lambda>conf. run_mmsg (conf_threads conf))"

section \<open>Any number of iterations\<close>

lemma worker_loop_forwards:
  assumes "worker_ok n (lib r)" and "thread_ok t r" and "\<forall>k \<in> set ks. kernel_ok n k"
  shows "\<exists>fuels fs r'. length fuels = length ks \<and> worker_loop (zip fuels ks) t r = Some (Inr (fs, r'))
    \<and> length fs = length ks \<and> frames_forwarded (registered r) fs (registered r') \<and> worker_ok n (lib r') \<and> thread_ok t r'"
  using assms
proof (induction ks arbitrary: r)
  case Nil
  then show ?case by simp
next
  case (Cons k ks)
  have "recv_ok n (client_recvmmsg k)" "recv_ok n (peer_recvmmsg k)" "send_ok (sendmmsg k)" "0 \<le> timer_read k"
    using Cons.prems(3) by (simp_all add: kernel_ok_def)
  from worker_iteration_returns [OF Cons.prems(1,2) this] obtain fuel line r1 where
    r1: "worker_iteration fuel k t r = Some (Inr (spec_peers (spec_clients (fst (arrivals k r)) (registered r))
        (snd (arrivals k r)), line, r1))"
      "registered r1 = spec_clients (fst (arrivals k r)) (registered r)" "worker_ok n (lib r1)" "thread_ok t r1"
    unfolding arrivals_def Let_def by auto
  from Cons.IH [OF r1(3,4)] Cons.prems(3) obtain fuels fs r' where
    "length fuels = length ks" "worker_loop (zip fuels ks) t r1 = Some (Inr (fs, r'))" "length fs = length ks"
    "frames_forwarded (registered r1) fs (registered r')" "worker_ok n (lib r')" "thread_ok t r'" by auto
  with r1 show ?case by (intro exI [of _ "fuel # fuels"]) simp
qed

end
