(* ===== verification/Programs.thy ===== *)
theory Programs
  imports Args Uring_Loop Libuv_Setup Demi Mmsg_Loop
begin

text \<open>
  The \<open>main\<close> functions, and with them the experiments from the command line to the worker loops:
  \<^verbatim>\<open>uring/main.cpp\<close>, \<^verbatim>\<open>libuv/main.cpp\<close>, \<^verbatim>\<open>demi/main.cpp\<close>. That of \<^verbatim>\<open>mmsg/main.cpp\<close> is in theory \<open>Mmsg_Loop\<close>.
\<close>

section \<open>The main functions\<close>

definition uring_main :: "nat \<Rightarrow> string list \<Rightarrow> int prog" where
  "uring_main hc args = bindP (lift_res (uring_config hc args)) (\<lambda>conf. run_uring (conf_threads conf))"

text \<open>\<open>catch (const std::exception &e)\<close>: the text of \<open>std::out_of_range\<close> is the library's, \<open>oor\<close>.\<close>

definition EXIT_FAILURE :: int where "EXIT_FAILURE = 1"

definition libuv_main :: "string \<Rightarrow> platform \<Rightarrow> bool \<Rightarrow> nat \<Rightarrow> string list \<Rightarrow> int prog" where
  "libuv_main oor pf have_mmsg hc args =
     (case libuv_config hc args of
        Inl (Runtime_error s) \<Rightarrow> thenP (callP (Print s)) (returnP EXIT_FAILURE)
      | Inl Out_of_range \<Rightarrow> thenP (callP (Print oor)) (returnP EXIT_FAILURE)
      | Inl e \<Rightarrow> failP e
      | Inr conf \<Rightarrow> bindP (relay_construct conf thread_init) (\<lambda>_ :: (string \<times> u16) \<times> (u64, u64 uv_thread) relay.
          run_libuv pf have_mmsg conf))"

text \<open>\<open>DMTR_OK(dmtr_init(argc, argv))\<close> returns the error code; \<open>run\<close> does not return.\<close>

definition demi_main ::
  "int \<Rightarrow> string list \<Rightarrow> (string \<Rightarrow> int) \<Rightarrow> (nat \<Rightarrow> int) \<Rightarrow> (nat \<Rightarrow> string \<Rightarrow> int) \<Rightarrow> nat
     \<Rightarrow> (int + ('ep, 'ep demi_worker) relay) res"
where
  "demi_main init_rc args gai_rc socket_rc bind_rc t =
     (if init_rc \<noteq> 0 then Inr (Inl init_rc)
      else bindR (demi_config args) (\<lambda>conf.
           bindR (run_demi gai_rc socket_rc bind_rc (conf_threads conf) t) (\<lambda>r. Inr (Inr r))))"

section \<open>Properties\<close>

text \<open>The libuv command line fails with an exception of the standard library only.\<close>

lemma parse_numeric_argument_throws:
  "parse_numeric_argument name v = Inl e \<Longrightarrow> (\<exists>s. e = Runtime_error s) \<or> e = Out_of_range"
  by (auto simp: parse_numeric_argument_def split: if_splits stoull_result.splits)

lemma libuv_args_throw: "libuv_args args c = Inl e \<Longrightarrow> (\<exists>s. e = Runtime_error s) \<or> e = Out_of_range"
proof (induction args c rule: libuv_args.induct)
  case (3 a v rest c)
  then show ?case
    using parse_numeric_argument_throws
    by (simp split: if_splits) (auto simp: bindR_eq_Inl dest: parse_numeric_argument_throws)
qed (auto split: if_splits)

lemma libuv_config_throws: "libuv_config hc args = Inl e \<Longrightarrow> (\<exists>s. e = Runtime_error s) \<or> e = Out_of_range"
  using libuv_args_throw by (auto simp: libuv_config_def bindR_eq_Inl)

lemma libuv_main_runs:
  assumes "libuv_config hc args = Inr conf"
  shows "case libuv_main oor pf have_mmsg hc args os [] of
      (Inr x, calls) \<Rightarrow> calls = Uv (Uv_ip4_addr ''0.0.0.0'' (conf_client_port conf)) # run_calls pf have_mmsg conf @ [Uv Uv_run_main]
    | (Inl e, calls) \<Rightarrow> (\<exists>s. e = Abort s)
        \<and> (\<exists>k. calls = take (Suc k) (Uv (Uv_ip4_addr ''0.0.0.0'' (conf_client_port conf)) # run_calls pf have_mmsg conf))"
proof -
  define m where "m = thenP (make_ip4_addr_any_with_port (conf_client_port conf))
    (thenP (libuv_call ''uv_timer_init'' Uv_timer_init)
    (thenP (libuv_call ''uv_timer_start'' (Uv_timer_start 0 statistics_print_interval_ms))
      (mapP (thread_start pf have_mmsg conf) [0..<unat (conf_threads conf)])))"
  let ?cs = "Uv (Uv_ip4_addr ''0.0.0.0'' (conf_client_port conf)) # run_calls pf have_mmsg conf"
  have "makes_calls m ([Uv (Uv_ip4_addr ''0.0.0.0'' (conf_client_port conf))] @ run_calls pf have_mmsg conf)"
    unfolding m_def by (rule makes_calls_then [OF makes_calls_address makes_calls_set_up])
  then have m: "makes_calls m ?cs" by simp
  have main: "libuv_main oor pf have_mmsg hc args = thenP m (callP (Uv Uv_run_main))"
    using assms by (simp add: libuv_main_def relay_construct_def bindP_address run_libuv_def m_def thenP_assoc)
      (simp add: thenP_def bindP_def returnP_def fun_eq_iff split: prod.split sum.split)
  show ?thesis
  proof (cases "m os []")
    case (Pair res tr)
    then show ?thesis
      using main makes_calls_returns [OF m, of os "[]"] makes_calls_fails [OF m, of os "[]"]
      by (cases res) (auto simp: thenP_def bindP_def callP_def)
  qed
qed

text \<open>No command line crashes the libuv experiment, unlike the others: arguments that are not accepted end it
  with \<open>EXIT_FAILURE\<close>, before any other call, with the text of a standard exception as its only
  output; accepted ones lead to the construction of the relay and the calls of \<open>run\<close>, or to an abort
  after the first of them that fails. The three others share a parser that reads the null pointer for a
  flag without a value.\<close>

theorem libuv_main_exits:
  "(case libuv_config hc args of
      Inl e \<Rightarrow> libuv_main oor pf have_mmsg hc args os [] =
          (Inr EXIT_FAILURE, [Print (case e of Runtime_error s \<Rightarrow> s | _ \<Rightarrow> oor)])
        \<and> ((\<exists>s. e = Runtime_error s) \<or> e = Out_of_range)
    | Inr conf \<Rightarrow> (case libuv_main oor pf have_mmsg hc args os [] of
          (Inr x, calls) \<Rightarrow> calls = Uv (Uv_ip4_addr ''0.0.0.0'' (conf_client_port conf)) # run_calls pf have_mmsg conf @ [Uv Uv_run_main]
        | (Inl e, calls) \<Rightarrow> (\<exists>s. e = Abort s)
            \<and> (\<exists>k. calls = take (Suc k) (Uv (Uv_ip4_addr ''0.0.0.0'' (conf_client_port conf)) # run_calls pf have_mmsg conf))))
   \<and> mmsg_main hc [''--threads''] os [] = (Inl Undefined_behaviour, [])
   \<and> uring_main hc [''--peer.port''] os [] = (Inl Undefined_behaviour, [])
   \<and> demi_main 0 [''--client.port''] gai_rc socket_rc bind_rc t = Inl Undefined_behaviour"
proof (intro conjI)
  show "case libuv_config hc args of
      Inl e \<Rightarrow> libuv_main oor pf have_mmsg hc args os [] =
          (Inr EXIT_FAILURE, [Print (case e of Runtime_error s \<Rightarrow> s | _ \<Rightarrow> oor)])
        \<and> ((\<exists>s. e = Runtime_error s) \<or> e = Out_of_range)
    | Inr conf \<Rightarrow> (case libuv_main oor pf have_mmsg hc args os [] of
          (Inr x, calls) \<Rightarrow> calls = Uv (Uv_ip4_addr ''0.0.0.0'' (conf_client_port conf)) # run_calls pf have_mmsg conf @ [Uv Uv_run_main]
        | (Inl e, calls) \<Rightarrow> (\<exists>s. e = Abort s)
            \<and> (\<exists>k. calls = take (Suc k) (Uv (Uv_ip4_addr ''0.0.0.0'' (conf_client_port conf)) # run_calls pf have_mmsg conf)))"
    using libuv_config_throws [of hc args] libuv_main_runs [where oor = oor and pf = pf and have_mmsg = have_mmsg and hc = hc and args = args and os = os]
    by (cases "libuv_config hc args") (auto simp: libuv_main_def prog_defs)
qed (simp_all add: mmsg_main_def uring_main_def demi_main_def uring_config_def demi_config_def c_config_def lift_res_def prog_defs)

end
