(* ===== verification/Printing.thy ===== *)
theory Printing
  imports Args Sockets
begin

text \<open>
  What the experiments print while they start: \<open>print_address\<close> of \<^verbatim>\<open>mmsg/relay.cpp\<close>, of which
  \<^verbatim>\<open>uring/relay.cpp\<close> has a copy, and of \<^verbatim>\<open>uring/relay.cpp\<close> \<open>report_features\<close> and the messages of
  \<open>ensure_success\<close> and \<open>bind_socket\<close>. Printing is the text it produces. \<open>inet_ntop\<close> is modelled for
  IPv4 and a parameter for IPv6, which no experiment asks for; the feature bits, constants of the
  kernel's header, and \<open>strerror\<close> are parameters.
\<close>

section \<open>Addresses\<close>

text \<open>What \<open>ai_addr\<close> points to; the port in network byte order, as a little-endian machine loads it.\<close>

datatype socket_address =
    Ipv4 u8 u8 u8 u8 u16
  | Ipv6 "u8 list" u16
  | Other_family

definition INET6_ADDRSTRLEN :: nat where "INET6_ADDRSTRLEN = 46"

definition ntohs :: "u16 \<Rightarrow> u16" where
  "ntohs p = or (push_bit 8 p) (drop_bit 8 p)"

definition newline :: string where "newline = [char_of (10 :: nat)]"

definition show_u8 :: "u8 \<Rightarrow> string" where
  "show_u8 b = show_nat (unat b)"

definition inet_ntop4 :: "u8 \<Rightarrow> u8 \<Rightarrow> u8 \<Rightarrow> u8 \<Rightarrow> string" where
  "inet_ntop4 a b c d = show_u8 a @ ''.'' @ show_u8 b @ ''.'' @ show_u8 c @ ''.'' @ show_u8 d"

fun print_address :: "(u8 list \<Rightarrow> string) \<Rightarrow> socket_address \<Rightarrow> string" where
  "print_address ntop6 (Ipv4 a b c d port) = inet_ntop4 a b c d @ '':'' @ show_nat (unat (ntohs port)) @ newline"
| "print_address ntop6 (Ipv6 addr port) = ''['' @ ntop6 addr @ '']:'' @ show_nat (unat (ntohs port)) @ newline"
| "print_address ntop6 Other_family = []"

section \<open>Features of io_uring\<close>

datatype feature = Single_mmap | Nodrop | Submit_stable | Cur_personality | Fast_poll | Poll_32bits | Sqpoll_nonfixed

fun feature_name :: "feature \<Rightarrow> string" where
  "feature_name Single_mmap = ''IORING_FEAT_SINGLE_MMAP''"
| "feature_name Nodrop = ''IORING_FEAT_NODROP''"
| "feature_name Submit_stable = ''IORING_FEAT_SUBMIT_STABLE''"
| "feature_name Cur_personality = ''IORING_FEAT_CUR_PERSONALITY''"
| "feature_name Fast_poll = ''IORING_FEAT_FAST_POLL''"
| "feature_name Poll_32bits = ''IORING_FEAT_POLL_32BITS''"
| "feature_name Sqpoll_nonfixed = ''IORING_FEAT_SQPOLL_NONFIXED''"

text \<open>The cases of \<open>switch (feature)\<close>, in order.\<close>

definition get_name :: "(feature \<Rightarrow> u32) \<Rightarrow> u32 \<Rightarrow> string" where
  "get_name flag v =
     (if v = flag Single_mmap then feature_name Single_mmap
      else if v = flag Nodrop then feature_name Nodrop
      else if v = flag Submit_stable then feature_name Submit_stable
      else if v = flag Cur_personality then feature_name Cur_personality
      else if v = flag Fast_poll then feature_name Fast_poll
      else if v = flag Poll_32bits then feature_name Poll_32bits
      else if v = flag Sqpoll_nonfixed then feature_name Sqpoll_nonfixed
      else ''unknown'')"

definition known_features :: "feature list" where
  "known_features = [Single_mmap, Nodrop, Submit_stable, Cur_personality, Fast_poll, Poll_32bits, Sqpoll_nonfixed]"

definition report_features :: "(feature \<Rightarrow> u32) \<Rightarrow> u32 \<Rightarrow> string" where
  "report_features flag features =
     ''supported features:'' @ newline
     @ concat (map (\<lambda>v. if and features v \<noteq> 0 then [char_of (9 :: nat)] @ get_name flag v @ newline else [])
         (map flag known_features))"

section \<open>Failures\<close>

text \<open>The text on the error stream and how the call ends.\<close>

definition mmsg_ensure_success :: "(int \<Rightarrow> string) \<Rightarrow> int \<Rightarrow> string \<times> int res" where
  "mmsg_ensure_success strerror code =
     (if code \<ge> 0 then ([], Inr code) else (strerror code @ newline, Inl (Abort ''ensure_success'')))"

definition uring_ensure_success :: "(int \<Rightarrow> string) \<Rightarrow> int \<Rightarrow> string \<times> int res" where
  "uring_ensure_success strerror code =
     (if code \<ge> 0 then ([], Inr code) else (strerror (- code) @ newline, Inl (Abort ''ensure_success'')))"

definition uring_bind_socket :: "(int \<Rightarrow> string) \<Rightarrow> int \<Rightarrow> string \<times> unit res" where
  "uring_bind_socket strerror bind_status =
     (if bind_status = 0 then ([], Inr ())
      else (''error binding socket: '' @ strerror bind_status @ newline, Inl (Abort ''error binding socket'')))"

text \<open>Both end a program the way the helpers of theory \<open>Sockets\<close> do.\<close>

lemma ensure_success_ends:
  "ensure_successP c os tr = (snd (mmsg_ensure_success strerror (os tr c)), tr @ [c])"
  "ensure_successP c os tr = (snd (uring_ensure_success strerror (os tr c)), tr @ [c])"
  by (simp_all add: ensure_successP_def mmsg_ensure_success_def uring_ensure_success_def prog_defs)

lemma bind_socket_ends:
  "bind_socket fd address os tr = (snd (uring_bind_socket strerror (os tr (Bind fd address))), tr @ [Bind fd address])"
  by (simp add: bind_socket_def uring_bind_socket_def prog_defs)

section \<open>What is printed can be read back\<close>

lemma ntohs_ntohs [simp]: "ntohs (ntohs p) = p"
  unfolding ntohs_def by (rule bit_word_eqI) (auto simp: bit_simps)

text \<open>A number and the character after it.\<close>

definition read_number :: "string \<Rightarrow> nat \<times> string" where
  "read_number s = (digits_value (takeWhile is_digit s), tl (dropWhile is_digit s))"

lemma read_number_show [simp]:
  assumes "\<not> is_digit c"
  shows "read_number (show_nat n @ c # rest) = (n, rest)"
  using assms show_nat_digits [of n] by (simp add: read_number_def takeWhile_append dropWhile_append)

definition read_address :: "string \<Rightarrow> socket_address" where
  "read_address s =
     (let (a, s1) = read_number s; (b, s2) = read_number s1; (c, s3) = read_number s2; (d, s4) = read_number s3;
          (port, s5) = read_number s4
      in Ipv4 (of_nat a) (of_nat b) (of_nat c) (of_nat d) (ntohs (of_nat port)))"

lemma not_digits [simp]: "\<not> is_digit (CHR ''.'')" "\<not> is_digit (CHR '':'')" "\<not> is_digit (char_of (10 :: nat))"
  by (simp_all add: is_digit_def)

lemma read_print_address: "read_address (print_address ntop6 (Ipv4 a b c d port)) = Ipv4 a b c d port"
  by (simp add: read_address_def inet_ntop4_def show_u8_def newline_def)

lemma length_show_u8: "length (show_u8 b) \<le> 3"
proof -
  have "unat b < 1000" using unsigned_less [of b, where ?'a = nat] by simp
  then show ?thesis
    by (simp add: show_u8_def show_nat.simps [of "unat b"] show_nat.simps [of "unat b div 10"]
        show_nat.simps [of "unat b div 10 div 10"])
qed

text \<open>The switch knows every feature the loop asks for.\<close>

lemma get_name_known:
  assumes "distinct (map flag known_features)"
  shows "get_name flag (flag f) = feature_name f"
  using assms by (cases f) (auto simp: known_features_def get_name_def)

lemma features_reported:
  assumes "distinct (map flag known_features)"
  shows "report_features flag features = ''supported features:'' @ newline
     @ concat (map (\<lambda>f. [char_of (9 :: nat)] @ feature_name f @ newline)
         (filter (\<lambda>f. and features (flag f) \<noteq> 0) known_features))"
proof -
  have "concat (map (\<lambda>v. if and features v \<noteq> 0 then [char_of (9 :: nat)] @ get_name flag v @ newline else []) (map flag fs))
      = concat (map (\<lambda>f. [char_of (9 :: nat)] @ feature_name f @ newline) (filter (\<lambda>f. and features (flag f) \<noteq> 0) fs))" for fs
    using get_name_known [OF assms] by (induction fs) auto
  then show ?thesis by (simp add: report_features_def)
qed

text \<open>The printed address is the address: for IPv4 the text reads back as the same four bytes and port, so
  different addresses print differently; the number printed after the colon is the port in the byte
  order of the machine; and the dotted form fits the buffer it is written to.\<close>

theorem print_address_roundtrip:
  "read_address (print_address ntop6 (Ipv4 a b c d port)) = Ipv4 a b c d port
   \<and> (print_address ntop6 (Ipv4 a b c d port) = print_address ntop6 (Ipv4 a' b' c' d' port')
        \<longleftrightarrow> (a, b, c, d, port) = (a', b', c', d', port'))
   \<and> print_address ntop6 (Ipv4 0 0 0 0 (ntohs 3478)) = ''0.0.0.0:3478'' @ newline
   \<and> length (inet_ntop4 a b c d) < INET6_ADDRSTRLEN"
proof (intro conjI)
  show "read_address (print_address ntop6 (Ipv4 a b c d port)) = Ipv4 a b c d port" by (rule read_print_address)
  show "print_address ntop6 (Ipv4 a b c d port) = print_address ntop6 (Ipv4 a' b' c' d' port')
      \<longleftrightarrow> (a, b, c, d, port) = (a', b', c', d', port')"
    using read_print_address by (metis prod.inject socket_address.inject(1))
  show "print_address ntop6 (Ipv4 0 0 0 0 (ntohs 3478)) = ''0.0.0.0:3478'' @ newline"
    by (simp add: inet_ntop4_def show_u8_def show_nat.simps) (simp add: char_of_def bit_0)
  show "length (inet_ntop4 a b c d) < INET6_ADDRSTRLEN"
    using length_show_u8 [of a] length_show_u8 [of b] length_show_u8 [of c] length_show_u8 [of d]
    by (simp add: inet_ntop4_def INET6_ADDRSTRLEN_def)
qed

end
