(* ===== verification/Thread_Pool.thy ===== *)
theory Thread_Pool
  imports Relay_Soundness
begin

text \<open>
  Many threads around one relay. In the mmsg, the uring and the libuv experiment every thread has its own
  sockets, buffers and event loop, and all call into one \<open>urn::relay\<close>: they share the session table and the
  counters. Here is what they have in common: a thread makes a step of its loop on the shared relay and
  its own state, and the steps of the threads interleave. The locale \<open>relay_threads\<close> is what the loop of
  an experiment has to satisfy, and what all its threads together then do; the experiments
  interpret it in the theories \<open>Mmsg_Workers\<close>, \<open>Event_Loop_Threads\<close> and \<open>Libuv_Workers\<close>.

  A step makes at most one call into the relay, but for the coarse cut of libuv in \<open>Event_Loop_Threads\<close>,
  where it is a receive with all its callbacks; \<open>Libuv_Workers\<close> cuts it at each callback. That a call into the session table can be
  taken as one step is shown in theory \<open>Session_Concurrency\<close>; what becomes of the counters when
  calls are not one step is the subject of theory \<open>Statistics_Concurrency\<close>.
\<close>

section \<open>Threads\<close>

text \<open>The relay as one thread sees it: the shared members, and as \<open>lib\<close> the thread's own state.\<close>

definition join_lib :: "('ep, 'a) relay \<Rightarrow> 'l \<Rightarrow> ('ep, 'l) relay" where
  "join_lib r l = \<lparr>sessions = sessions r, per_thread_statistics = per_thread_statistics r,
     this_thread_statistics = this_thread_statistics r, lib = l\<rparr>"

lemma join_lib_simps [simp]:
  "registered (join_lib r l) = registered r" "thread_ok t (join_lib r l) = thread_ok t r" "lib (join_lib r l) = l"
  "per_thread_statistics (join_lib r l) = per_thread_statistics r" "sessions (join_lib r l) = sessions r"
  "this_thread_statistics (join_lib r l) = this_thread_statistics r" "join_lib (join_lib r l) k = join_lib r k"
  by (simp_all add: join_lib_def registered_def thread_ok_def)

text \<open>The handlers leave the assignment of counters to threads alone.\<close>

lemma same_threads_simps [simp]: "same_threads r r" "same_threads r (r\<lparr>lib := l\<rparr>)" "same_threads r (join_lib r k)"
  by (simp_all add: same_threads_def)

lemma same_threads_trans: "same_threads r1 r2 \<Longrightarrow> same_threads r2 r3 \<Longrightarrow> same_threads r1 r3"
  by (simp add: same_threads_def)

lemma client_threads: "on_client_received L t src p r = Inr r' \<Longrightarrow> same_threads r r'"
  by (auto simp: on_client_received_eq same_threads_def dest!: count_frame(1) split: if_splits)

lemma sent_threads: "on_session_sent f t k r = Inr r' \<Longrightarrow> same_threads r r'"
  by (auto simp: on_session_sent_def same_threads_def dest!: count_frame(2))

lemma peer_threads:
  assumes "\<And>s r r'. session_start_send L t s p r = Inr r' \<Longrightarrow> same_threads r r'"
    and "on_peer_received L t p r = Inr (b, r')"
  shows "same_threads r r'"
  using assms(2)
  by (auto simp: on_peer_received_def same_threads_def dest!: count_frame(1) assms(1) split: option.splits)

lemma tick_threads: "interval \<noteq> 0 \<Longrightarrow> on_statistics_tick interval r = Inr (line, r') \<Longrightarrow> same_threads r r'"
  using tick_typed [of interval r] by auto

record ('ep, 's) thread_pool =
  common :: "('ep, unit) relay"
  own :: "nat \<Rightarrow> 's"
  running :: "nat set"

definition seen_by :: "nat \<Rightarrow> ('ep, 's) thread_pool \<Rightarrow> ('ep, 's) relay" where
  "seen_by t w = join_lib (common w) (own w t)"

definition pool_start :: "u16 \<Rightarrow> (nat \<Rightarrow> 's) \<Rightarrow> ('ep, 's) thread_pool" where
  "pool_start threads ss = \<lparr>common = relay_init threads (), own = ss, running = {}\<rparr>"

text \<open>A thread of the relay with \<open>n\<close> threads starts (\<open>on_thread_start\<close>), or does something.\<close>

datatype 'lab pool_label = Starts | Does 'lab

inductive pool_step ::
  "(nat \<Rightarrow> ('ep, 's) relay \<Rightarrow> 'lab \<Rightarrow> ('ep, 's) relay \<Rightarrow> bool) \<Rightarrow> nat
     \<Rightarrow> ('ep, 's) thread_pool \<Rightarrow> nat \<times> 'lab pool_label \<Rightarrow> ('ep, 's) thread_pool \<Rightarrow> bool"
  for step n
where
  starts: "t < n \<Longrightarrow> t \<notin> running w \<Longrightarrow> on_thread_start t (of_nat t) (common w) = Inr r
    \<Longrightarrow> pool_step step n w (t, Starts) (w\<lparr>common := r, running := insert t (running w)\<rparr>)"
| does: "t \<in> running w \<Longrightarrow> step t (seen_by t w) l r
    \<Longrightarrow> pool_step step n w (t, Does l) (w\<lparr>common := join_lib r (), own := (own w)(t := lib r)\<rparr>)"

inductive pool_run ::
  "(nat \<Rightarrow> ('ep, 's) relay \<Rightarrow> 'lab \<Rightarrow> ('ep, 's) relay \<Rightarrow> bool) \<Rightarrow> nat
     \<Rightarrow> ('ep, 's) thread_pool \<Rightarrow> (nat \<times> 'lab pool_label) list \<Rightarrow> ('ep, 's) thread_pool \<Rightarrow> bool"
  for step n
where
  pool_stay: "pool_run step n w [] w"
| pool_more: "pool_run step n w ls w1 \<Longrightarrow> pool_step step n w1 l w2 \<Longrightarrow> pool_run step n w (ls @ [l]) w2"

lemma pool_run_append:
  "pool_run step n w1 ks w2 \<Longrightarrow> pool_run step n w ls w1 \<Longrightarrow> pool_run step n w (ls @ ks) w2"
  by (induction rule: pool_run.induct) (auto simp flip: append_assoc intro: pool_more)

text \<open>A thread that has not started is as it was.\<close>

lemma pool_step_not_started: "pool_step step n w l w' \<Longrightarrow> t \<notin> running w' \<Longrightarrow> t \<notin> running w \<and> own w' t = own w t"
  by (auto elim!: pool_step.cases)

lemma pool_run_not_started: "pool_run step n w ls w' \<Longrightarrow> t \<notin> running w' \<Longrightarrow> own w' t = own w t"
  by (induction rule: pool_run.induct) (auto dest: pool_step_not_started)

section \<open>The abstract relay with many threads\<close>

text \<open>One table; what a thread has received and still has to send is its own.\<close>

inductive abs_pool_run ::
  "((u64 \<rightharpoonup> 'ep) \<times> 'v \<Rightarrow> 'lab \<Rightarrow> (u64 \<rightharpoonup> 'ep) \<times> 'v \<Rightarrow> bool)
     \<Rightarrow> (u64 \<rightharpoonup> 'ep) \<times> (nat \<Rightarrow> 'v) \<Rightarrow> (nat \<times> 'lab pool_label) list \<Rightarrow> (u64 \<rightharpoonup> 'ep) \<times> (nat \<Rightarrow> 'v) \<Rightarrow> bool"
  for astep
where
  abs_stay: "abs_pool_run astep a [] a"
| abs_starts: "abs_pool_run astep a ls b \<Longrightarrow> abs_pool_run astep a (ls @ [(t, Starts)]) b"
| abs_does: "abs_pool_run astep a ls (m, vs) \<Longrightarrow> astep (m, vs t) l (m', v)
    \<Longrightarrow> abs_pool_run astep a (ls @ [(t, Does l)]) (m', vs(t := v))"

inductive_simps abs_pool_Nil [simp]: "abs_pool_run astep a [] b"
inductive_simps abs_pool_snoc: "abs_pool_run astep a (ls @ [l]) b"
inductive_simps abs_pool_single: "abs_pool_run astep a [l] b"

lemma abs_pool_append:
  "abs_pool_run astep a (xs @ ys) b \<longleftrightarrow> (\<exists>c. abs_pool_run astep a xs c \<and> abs_pool_run astep c ys b)"
proof (induction ys arbitrary: b rule: rev_induct)
  case (snoc y ys)
  show ?case unfolding append_assoc [symmetric] abs_pool_snoc snoc.IH by blast
qed auto

lemma abs_pool_one:
  "abs_pool_run astep a [(t, Does l)] b \<longleftrightarrow> (\<exists>m' v. astep (fst a, snd a t) l (m', v) \<and> b = (m', (snd a)(t := v)))"
  by (cases a) (auto simp: abs_pool_single)

text \<open>The client datagrams that all the threads have handled, in the order in which they did.\<close>

fun clients_in :: "('lab \<Rightarrow> ('ep \<times> u8 list) list) \<Rightarrow> (nat \<times> 'lab pool_label) list \<Rightarrow> ('ep \<times> u8 list) list" where
  "clients_in f [] = []"
| "clients_in f ((t, Starts) # ls) = clients_in f ls"
| "clients_in f ((t, Does l) # ls) = f l @ clients_in f ls"

lemma clients_in_append [simp]: "clients_in f (xs @ ys) = clients_in f xs @ clients_in f ys"
  by (induction f xs rule: clients_in.induct) simp_all

lemma spec_clients_append: "spec_clients (xs @ ys) m = spec_clients ys (spec_clients xs m)"
  by (simp add: spec_clients_def)

text \<open>A registration stands.\<close>

lemma spec_clients_stands: "m i = Some ep \<Longrightarrow> spec_clients ds m i = Some ep"
proof (induction ds arbitrary: m)
  case (Cons d ds)
  have "spec_client (fst d) (snd d) m i = Some ep" using Cons.prems by (auto simp: spec_client_def)
  with Cons.IH [of "spec_client (fst d) (snd d) m"] show ?case by (simp add: spec_clients_def case_prod_beta)
qed (simp add: spec_clients_def)

lemma spec_clients_fresh:
  assumes "m i = None" and "\<forall>(src, bs) \<in> set ds. length bs = 8 \<longrightarrow> load_le bs \<noteq> i"
  shows "spec_clients ds m i = None"
  using assms
proof (induction ds arbitrary: m)
  case (Cons d ds)
  have "spec_client (fst d) (snd d) m i = None" using Cons.prems by (auto simp: spec_client_def split: prod.splits)
  with Cons.IH [of "spec_client (fst d) (snd d) m"] Cons.prems(2) show ?case by (simp add: spec_clients_def case_prod_beta)
qed (simp add: spec_clients_def)

lemma spec_clients_first:
  assumes "length bs = 8" and "\<forall>(s, b) \<in> set ds. length b = 8 \<longrightarrow> load_le b \<noteq> load_le bs"
  shows "spec_clients (ds @ (src, bs) # es) Map.empty (load_le bs) = Some src"
proof -
  have "spec_clients ds Map.empty (load_le bs) = None" by (rule spec_clients_fresh) (use assms(2) in auto)
  then have "spec_client src bs (spec_clients ds Map.empty) (load_le bs) = Some src"
    using assms(1) by (simp add: spec_client_def)
  then have "spec_clients es (spec_client src bs (spec_clients ds Map.empty)) (load_le bs) = Some src"
    by (rule spec_clients_stands)
  then show ?thesis by (simp add: spec_clients_def)
qed

section \<open>What a loop has to satisfy\<close>

text \<open>\<open>good\<close> is the invariant of a thread's own state, \<open>astep\<close> the abstract relay of one thread, \<open>view\<close> what
  it sees of the state, \<open>clients\<close> the client datagrams a step handles.\<close>

locale relay_threads =
  fixes step :: "nat \<Rightarrow> ('ep, 's) relay \<Rightarrow> 'lab \<Rightarrow> ('ep, 's) relay \<Rightarrow> bool"
    and good :: "nat \<Rightarrow> 's \<Rightarrow> bool"
    and astep :: "(u64 \<rightharpoonup> 'ep) \<times> 'v \<Rightarrow> 'lab \<Rightarrow> (u64 \<rightharpoonup> 'ep) \<times> 'v \<Rightarrow> bool"
    and view :: "'s \<Rightarrow> 'v"
    and clients :: "'lab \<Rightarrow> ('ep \<times> u8 list) list"
  assumes simulates: "thread_ok t r \<Longrightarrow> good t (lib r) \<Longrightarrow> step t r l r' \<Longrightarrow>
      good t (lib r') \<and> same_threads r r' \<and> astep (registered r, view (lib r)) l (registered r', view (lib r'))"
    and table: "astep (m, v) l (m', v') \<Longrightarrow> m' = spec_clients (clients l) m"
begin

definition pool_ok :: "nat \<Rightarrow> ('ep, 's) thread_pool \<Rightarrow> bool" where
  "pool_ok n w \<longleftrightarrow> length (per_thread_statistics (common w)) = n
     \<and> (\<forall>t < n. good t (own w t)) \<and> (\<forall>t \<in> running w. t < n \<and> thread_ok t (common w))"

lemma pool_step_simulates:
  assumes "pool_step step n w l w'" and ok: "pool_ok n w" and n: "n < 2 ^ 16"
    and a: "abs_pool_run astep a ls (registered (common w), view \<circ> own w)"
  shows "pool_ok n w' \<and> abs_pool_run astep a (ls @ [l]) (registered (common w'), view \<circ> own w')"
  using assms(1)
proof cases
  case (starts t r)
  have "unat (of_nat t :: u16) = t" using starts(3) n by (simp add: unat_of_nat)
  then have r: "r = (common w)\<lparr>this_thread_statistics := (this_thread_statistics (common w))(t \<mapsto> t)\<rparr>"
    using starts(5) by (auto simp: on_thread_start_def split: if_splits)
  have "pool_ok n w'" using ok starts(2,3) by (auto simp: pool_ok_def r thread_ok_def)
  moreover have "registered (common w') = registered (common w)" "own w' = own w"
    by (simp_all add: starts(2) r registered_def)
  ultimately show ?thesis using abs_starts [OF a] starts(1) by simp
next
  case (does t k r)
  have t: "t < n" "thread_ok t (seen_by t w)" "good t (lib (seen_by t w))"
    using ok does(3) by (auto simp: pool_ok_def seen_by_def)
  from simulates [OF t(2,3) does(4)] have r: "good t (lib r)" "same_threads (seen_by t w) r"
    "astep (registered (common w), view (own w t)) k (registered r, view (lib r))" by (simp_all add: seen_by_def)
  have "pool_ok n w'" using ok r(1,2) by (auto simp: pool_ok_def does(2) same_threads_def seen_by_def thread_ok_def)
  moreover have "view \<circ> own w' = (view \<circ> own w)(t := view (lib r))" by (auto simp: does(2))
  moreover have "abs_pool_run astep a (ls @ [(t, Does k)]) (registered r, (view \<circ> own w)(t := view (lib r)))"
    by (rule abs_does [OF a]) (use r(3) in simp)
  ultimately show ?thesis by (simp add: does(1,2))
qed

lemma pool_run_simulates:
  assumes "pool_run step n w0 ls w" and "pool_ok n w0" and "n < 2 ^ 16"
  shows "pool_ok n w \<and> abs_pool_run astep (registered (common w0), view \<circ> own w0) ls (registered (common w), view \<circ> own w)"
  using assms
proof induction
  case (pool_stay w)
  then show ?case by (simp add: abs_stay)
next
  case (pool_more w0 ls w1 l w2)
  then show ?case using pool_step_simulates [OF pool_more(2)] by blast
qed

text \<open>One step of one thread.\<close>

lemma thread_simulates:
  assumes "pool_ok n w" and "pool_step step n w (t, Does l) w'"
  shows "astep (registered (common w), view (own w t)) l (registered (common w'), view (own w' t))"
  using assms(2)
proof cases
  case (does r)
  have "thread_ok t (seen_by t w)" "good t (lib (seen_by t w))"
    using assms(1) does(2) by (auto simp: pool_ok_def seen_by_def)
  from simulates [OF this does(3)] show ?thesis by (simp add: does(1) seen_by_def)
qed

lemma abs_pool_table:
  "abs_pool_run astep a ls b \<Longrightarrow> fst b = spec_clients (clients_in clients ls) (fst a)"
proof (induction rule: abs_pool_run.induct)
  case (abs_does a ls m vs t l m' v)
  then show ?case using table [OF abs_does(2)] by (simp add: spec_clients_append)
qed (simp_all add: spec_clients_def)

lemma pool_start_ok:
  assumes "\<forall>t < unat threads. good t (ss t)"
  shows "pool_ok (unat threads) (pool_start threads ss)"
    "registered (common (pool_start threads ss)) = Map.empty" "own (pool_start threads ss) = ss"
  using assms by (simp_all add: pool_ok_def pool_start_def relay_init_def registered_def fun_eq_iff)

text \<open>All the threads together: their runs are runs of the abstract relay with one table, which holds what
  all of them registered.\<close>

lemma threads_refine:
  assumes "\<forall>t < unat threads. good t (ss t)" and "pool_run step (unat threads) (pool_start threads ss) ls w"
  shows "abs_pool_run astep (Map.empty, view \<circ> ss) ls (registered (common w), view \<circ> own w)"
    and "registered (common w) = spec_clients (clients_in clients ls) Map.empty"
    and "pool_ok (unat threads) w"
proof -
  have "unat threads < 2 ^ 16" using unsigned_less [of threads, where ?'a = nat] by simp
  note run = pool_run_simulates [OF assms(2) pool_start_ok(1) [OF assms(1)] this, unfolded pool_start_ok(2,3) [OF assms(1)]]
  then show "abs_pool_run astep (Map.empty, view \<circ> ss) ls (registered (common w), view \<circ> own w)"
    "pool_ok (unat threads) w" by blast+
  from abs_pool_table [OF this(1)] show "registered (common w) = spec_clients (clients_in clients ls) Map.empty" by simp
qed

end

text \<open>Two threads start; the witnesses of the experiments go on from here.\<close>

definition two_running :: "(nat \<Rightarrow> 's) \<Rightarrow> ('ep, 's) thread_pool" where
  "two_running ss = \<lparr>common = (relay_init 2 ())\<lparr>this_thread_statistics := [0 \<mapsto> 0, 1 \<mapsto> 1]\<rparr>, own = ss, running = {0, 1}\<rparr>"

lemma two_start: "pool_run step 2 (pool_start 2 ss) [(0, Starts), (1, Starts)] (two_running ss)"
proof -
  let ?w1 = "(pool_start 2 ss)\<lparr>common := (relay_init 2 ())\<lparr>this_thread_statistics := [0 \<mapsto> 0]\<rparr>, running := {0}\<rparr>"
  have "pool_step step 2 (pool_start 2 ss) (0, Starts) ?w1"
    using starts [of 0 2 "pool_start 2 ss" "(relay_init 2 ())\<lparr>this_thread_statistics := [0 \<mapsto> 0]\<rparr>" step]
    by (simp add: pool_start_def on_thread_start_def relay_init_def)
  moreover have "pool_step step 2 ?w1 (1, Starts) (two_running ss)"
    using starts [of 1 2 ?w1 "(relay_init 2 ())\<lparr>this_thread_statistics := [0 \<mapsto> 0, 1 \<mapsto> 1]\<rparr>" step]
    by (simp add: pool_start_def on_thread_start_def relay_init_def two_running_def insert_commute)
  ultimately show ?thesis using pool_more [OF pool_more [OF pool_stay]] by fastforce
qed

end
