(* ===== verification/Mmsg_Workers.thy ===== *)
theory Mmsg_Workers
  imports Mmsg_Loop Thread_Pool
begin

text \<open>
  All the workers of the mmsg experiment at once, as threads of a pool (theory \<open>Thread_Pool\<close>): the loop of
  \<open>worker\<close> of \<^verbatim>\<open>mmsg/relay.cpp\<close>, cut at its calls into the relay and into the kernel. Each worker has its
  sockets, arrays and memory (\<open>io_worker\<close>, to which the thread-local \<open>local_io\<close> of the code points).
\<close>

section \<open>The loop, call by call\<close>

text \<open>Where a worker is. In \<open>Clients\<close> and \<open>Peers\<close> it has the headers in the list still to handle.\<close>

datatype stage =
    Loop_top
  | Client_poll
  | Clients "nat list"
  | Peer_poll
  | Peers "nat list"
  | Timer_poll
  | Send_frame

datatype 'ep activity =
    Quiet
  | Client_batch "('ep \<times> u8 list) list"
  | Peer_batch "u8 list list"
  | Client_handled 'ep "u8 list"
  | Peer_handled "u8 list"
  | Transmitted "('ep \<times> u8 list) list"

definition client_headers :: "'ep io_worker \<Rightarrow> nat list \<Rightarrow> ('ep \<times> u8 list) list" where
  "client_headers io is = map (\<lambda>i. (header_source (rx (clients_io io)) i,
     packet_data mmsg_lib io (header_packet (rx (clients_io io)) i))) is"

definition peer_headers :: "'ep io_worker \<Rightarrow> nat list \<Rightarrow> u8 list list" where
  "peer_headers io is = map (\<lambda>i. packet_data mmsg_lib io (header_packet (rx (peers_io io)) i)) is"

definition receive_clients :: "'ep kernel \<Rightarrow> 'ep io_worker \<Rightarrow> (nat list \<times> 'ep io_worker) res" where
  "receive_clients k io =
     (let res = client_recvmmsg k (rx (clients_io io)) (message_mem io)
      in bindR (ensure_success (received res)) (\<lambda>_. Inr ([0..<nat (received res)],
           io\<lparr>clients_io := (clients_io io)\<lparr>rx := store_received res (rx (clients_io io))\<rparr>,
              message_mem := memory res\<rparr>)))"

definition receive_peers :: "'ep kernel \<Rightarrow> 'ep io_worker \<Rightarrow> (nat list \<times> 'ep io_worker) res" where
  "receive_peers k io =
     (let res = peer_recvmmsg k (rx (peers_io io)) (message_mem io)
      in bindR (ensure_success (received res)) (\<lambda>_. Inr ([0..<nat (received res)],
           io\<lparr>peers_io := (peers_io io)\<lparr>rx := store_received res (rx (peers_io io))\<rparr>,
              message_mem := memory res\<rparr>)))"

text \<open>The datagrams that the kernel delivers in these calls, in the order of the slots.\<close>

definition client_delivery :: "'ep kernel \<Rightarrow> 'ep io_worker \<Rightarrow> ('ep \<times> u8 list) list" where
  "client_delivery k io = delivered (client_recvmmsg k (rx (clients_io io)) (message_mem io))"

definition peer_delivery :: "'ep kernel \<Rightarrow> 'ep io_worker \<Rightarrow> u8 list list" where
  "peer_delivery k io = map snd (delivered (peer_recvmmsg k (rx (peers_io io)) (message_mem io)))"

text \<open>The next call of worker \<open>t\<close>, in the iteration in which the kernel does \<open>k\<close>.\<close>

fun worker_next ::
  "nat \<Rightarrow> 'ep kernel \<Rightarrow> nat \<Rightarrow> stage \<Rightarrow> ('ep, 'ep io_worker) relay
     \<Rightarrow> ('ep activity \<times> stage \<times> ('ep, 'ep io_worker) relay) res option"
where
  "worker_next fuel k t Loop_top r =
     Some (Inr (Quiet, Client_poll, r\<lparr>lib := io_worker_begin_frame (lib r)\<rparr>))"
| "worker_next fuel k t Client_poll r =
     Some (if client_ready k
           then bindR (receive_clients k (lib r)) (\<lambda>(is, io).
                Inr (Client_batch (client_delivery k (lib r)), Clients is, r\<lparr>lib := io\<rparr>))
           else Inr (Quiet, Peer_poll, r))"
| "worker_next fuel k t (Clients []) r = Some (Inr (Quiet, Peer_poll, r))"
| "worker_next fuel k t (Clients (i # is)) r =
     (let src = header_source (rx (clients_io (lib r))) i; p = header_packet (rx (clients_io (lib r))) i
      in Some (bindR (on_client_received mmsg_lib t src p r) (\<lambda>r'.
           Inr (Client_handled src (packet_data mmsg_lib (lib r) p), Clients is, r'))))"
| "worker_next fuel k t Peer_poll r =
     Some (if peer_ready k
           then bindR (receive_peers k (lib r)) (\<lambda>(is, io).
                Inr (Peer_batch (peer_delivery k (lib r)), Peers is, r\<lparr>lib := io\<rparr>))
           else Inr (Quiet, Timer_poll, r))"
| "worker_next fuel k t (Peers []) r = Some (Inr (Quiet, Timer_poll, r))"
| "worker_next fuel k t (Peers (i # is)) r =
     (let p = header_packet (rx (peers_io (lib r))) i
      in Some (bindR (on_peer_received mmsg_lib t p r) (\<lambda>(_, r').
           Inr (Peer_handled (packet_data mmsg_lib (lib r) p), Peers is, r'))))"
| "worker_next fuel k t Timer_poll r =
     Some (if timer_ready k
           then bindR (ensure_success (timer_read k)) (\<lambda>_.
                bindR (on_statistics_tick statistics_print_interval r) (\<lambda>(_, r). Inr (Quiet, Send_frame, r)))
           else Inr (Quiet, Send_frame, r))"
| "worker_next fuel k t Send_frame r =
     map_option (\<lambda>res. bindR res (\<lambda>out. Inr (Transmitted out, Loop_top, r)))
       (io_run_client_send_frame fuel (sendmmsg k) (lib r))"

section \<open>A worker as a thread of the pool\<close>

text \<open>What the kernel does is settled for each iteration, when the worker is at the top of its loop. Any call of
  the kernel may fail. A \<open>recvmmsg\<close> that does not fail reports at most as many messages as it was given
  headers; a \<open>sendmmsg\<close> that does not fail sends at least one message and at most all, and it is not
  interrupted for ever.\<close>

definition recv_may_fail :: "nat \<Rightarrow> 'ep recv_call \<Rightarrow> bool" where
  "recv_may_fail n recvmmsg \<longleftrightarrow> (\<forall>v mem. arrays_ok n v \<longrightarrow>
     (let res = recvmmsg v mem
      in received res \<le> int n \<and> length (from_addresses res) = n \<and> length (lengths res) = n))"

definition kernel_may_fail :: "nat \<Rightarrow> 'ep kernel \<Rightarrow> bool" where
  "kernel_may_fail n k \<longleftrightarrow> recv_may_fail n (client_recvmmsg k) \<and> recv_may_fail n (peer_recvmmsg k)
     \<and> sends_progress (sendmmsg k)"

lemma kernel_ok_may_fail: "kernel_ok n k \<Longrightarrow> kernel_may_fail n k"
  by (auto simp: kernel_ok_def kernel_may_fail_def recv_ok_def recv_may_fail_def Let_def intro: send_ok_progress)

lemma recv_may_failD:
  assumes "recv_may_fail n recvmmsg" and "arrays_ok n v"
  shows "nat (received (recvmmsg v mem)) \<le> n" "length (from_addresses (recvmmsg v mem)) = n"
    "length (lengths (recvmmsg v mem)) = n"
proof -
  have "received (recvmmsg v mem) \<le> int n \<and> length (from_addresses (recvmmsg v mem)) = n \<and> length (lengths (recvmmsg v mem)) = n"
    using assms by (simp add: recv_may_fail_def Let_def)
  then show "nat (received (recvmmsg v mem)) \<le> n" "length (from_addresses (recvmmsg v mem)) = n"
    "length (lengths (recvmmsg v mem)) = n" by linarith+
qed

text \<open>The next call of the worker into the kernel fails: \<open>recvmmsg\<close> or the read of the timer returns a
  negative value, or some \<open>sendmmsg\<close> of the send loop has an error that the loop does not retry.\<close>

fun call_fails :: "'ep kernel \<Rightarrow> stage \<Rightarrow> 'ep io_worker \<Rightarrow> bool" where
  "call_fails k Client_poll io \<longleftrightarrow>
     client_ready k \<and> received (client_recvmmsg k (rx (clients_io io)) (message_mem io)) < 0"
| "call_fails k Peer_poll io \<longleftrightarrow>
     peer_ready k \<and> received (peer_recvmmsg k (rx (peers_io io)) (message_mem io)) < 0"
| "call_fails k Timer_poll io \<longleftrightarrow> timer_ready k \<and> timer_read k < 0"
| "call_fails k Send_frame io \<longleftrightarrow>
     (\<exists>j v. 0 < v \<and> v \<le> int (tx_length (clients_io io)) \<and> sendmmsg k j v = Send_error)"
| "call_fails k _ io \<longleftrightarrow> False"

record 'ep mmsg_thread =
  thread_io :: "'ep io_worker"
  thread_stage :: stage
  thread_kernel :: "'ep kernel"

inductive mmsg_call ::
  "nat \<Rightarrow> ('ep, 'ep mmsg_thread) relay \<Rightarrow> 'ep activity \<Rightarrow> ('ep, 'ep mmsg_thread) relay \<Rightarrow> bool"
where
  calls: "kernel_may_fail 65536 k \<Longrightarrow> (thread_stage (lib r) \<noteq> Loop_top \<Longrightarrow> k = thread_kernel (lib r))
    \<Longrightarrow> worker_next fuel k t (thread_stage (lib r)) (join_lib r (thread_io (lib r))) = Some (Inr (a, st, r'))
    \<Longrightarrow> mmsg_call t r a (join_lib r' \<lparr>thread_io = lib r', thread_stage = st, thread_kernel = k\<rparr>)"

section \<open>The abstract relay of one worker\<close>

record 'ep frame_view =
  client_inbox :: "('ep \<times> u8 list) list"
  peer_inbox :: "u8 list list"
  to_send :: "('ep \<times> u8 list) list"

text \<open>A worker takes in a batch only when it has handled the one before, handles its datagrams in order, and
  transmits what it has to send.\<close>

fun abs_next :: "'ep activity \<Rightarrow> (u64 \<rightharpoonup> 'ep) \<times> 'ep frame_view \<Rightarrow> ((u64 \<rightharpoonup> 'ep) \<times> 'ep frame_view) option" where
  "abs_next Quiet (m, v) = Some (m, v)"
| "abs_next (Client_batch xs) (m, v) = (if client_inbox v = [] then Some (m, v\<lparr>client_inbox := xs\<rparr>) else None)"
| "abs_next (Peer_batch xs) (m, v) = (if peer_inbox v = [] then Some (m, v\<lparr>peer_inbox := xs\<rparr>) else None)"
| "abs_next (Client_handled src bs) (m, v) =
     (case client_inbox v of
        x # xs \<Rightarrow> if x = (src, bs) then Some (spec_client src bs m, v\<lparr>client_inbox := xs\<rparr>) else None
      | [] \<Rightarrow> None)"
| "abs_next (Peer_handled bs) (m, v) =
     (case peer_inbox v of
        x # xs \<Rightarrow> if x = bs then Some (m, v\<lparr>peer_inbox := xs, to_send := to_send v @ spec_peers m [bs]\<rparr>) else None
      | [] \<Rightarrow> None)"
| "abs_next (Transmitted out) (m, v) = (if out = to_send v then Some (m, v\<lparr>to_send := []\<rparr>) else None)"

definition frame_step :: "(u64 \<rightharpoonup> 'ep) \<times> 'ep frame_view \<Rightarrow> 'ep activity \<Rightarrow> (u64 \<rightharpoonup> 'ep) \<times> 'ep frame_view \<Rightarrow> bool" where
  "frame_step a l b \<longleftrightarrow> abs_next l a = Some b"

fun handled_clients :: "'ep activity \<Rightarrow> ('ep \<times> u8 list) list" where
  "handled_clients (Client_handled src bs) = [(src, bs)]"
| "handled_clients _ = []"

lemma frame_step_table: "frame_step (m, v) l (m', v') \<Longrightarrow> m' = spec_clients (handled_clients l) m"
  by (cases l) (auto simp: frame_step_def spec_clients_def split: if_splits list.splits)

section \<open>What a step of a worker keeps and does\<close>

fun at_stage :: "nat \<Rightarrow> stage \<Rightarrow> 'ep io_worker \<Rightarrow> bool" where
  "at_stage n Client_poll io \<longleftrightarrow> worker_ok n io \<and> tx_length (clients_io io) = 0"
| "at_stage n (Clients is) io \<longleftrightarrow> worker_ok n io \<and> tx_length (clients_io io) = 0"
| "at_stage n Peer_poll io \<longleftrightarrow> worker_ok n io \<and> tx_length (clients_io io) = 0"
| "at_stage n (Peers is) io \<longleftrightarrow> worker_ok n io \<and> tx_length (clients_io io) + length is \<le> n"
| "at_stage n _ io \<longleftrightarrow> worker_ok n io"

fun clients_left :: "stage \<Rightarrow> 'ep io_worker \<Rightarrow> ('ep \<times> u8 list) list" where
  "clients_left (Clients is) io = client_headers io is"
| "clients_left _ io = []"

fun peers_left :: "stage \<Rightarrow> 'ep io_worker \<Rightarrow> u8 list list" where
  "peers_left (Peers is) io = peer_headers io is"
| "peers_left _ io = []"

fun queued_sends :: "stage \<Rightarrow> 'ep io_worker \<Rightarrow> ('ep \<times> u8 list) list" where
  "queued_sends Loop_top io = []"
| "queued_sends _ io = mmsg_outbox io"

definition frame_view :: "stage \<Rightarrow> 'ep io_worker \<Rightarrow> 'ep frame_view" where
  "frame_view st io = \<lparr>client_inbox = clients_left st io, peer_inbox = peers_left st io, to_send = queued_sends st io\<rparr>"

text \<open>What a step of worker \<open>t\<close> guarantees.\<close>

definition step_ok :: "nat \<Rightarrow> stage \<Rightarrow> ('ep, 'ep io_worker) relay \<Rightarrow> 'ep activity \<Rightarrow> stage
    \<Rightarrow> ('ep, 'ep io_worker) relay \<Rightarrow> bool" where
  "step_ok n st r a st' r' \<longleftrightarrow> at_stage n st' (lib r') \<and> same_threads r r'
     \<and> abs_next a (registered r, frame_view st (lib r)) = Some (registered r', frame_view st' (lib r'))"

lemma quiet_step_ok:
  assumes "at_stage n st' (lib r')" and "same_threads r r'"
    and "registered r' = registered r" and "clients_left st' (lib r') = clients_left st (lib r)"
    and "peers_left st' (lib r') = peers_left st (lib r)" and "queued_sends st' (lib r') = queued_sends st (lib r)"
  shows "step_ok n st r Quiet st' r'"
  using assms by (simp add: step_ok_def frame_view_def)

text \<open>The handlers, with what they keep.\<close>

lemma mmsg_client_handler:
  assumes "thread_ok t r" and "worker_ok n (lib r)"
  shows "\<exists>r'. on_client_received mmsg_lib t src p r = Inr r' \<and> lib r' = lib r \<and> thread_ok t r' \<and> same_threads r r'
    \<and> registered r' = spec_client src (packet_data mmsg_lib (lib r) p) (registered r)"
proof -
  have "mmsg_valid (lib r) p" using assms(2) by (auto simp: mmsg_valid_def worker_ok_def arrays_ok_def)
  from mm.on_client_received_refines [OF assms(1) this, of src] obtain r' where
    r': "on_client_received mmsg_lib t src p r = Inr r'" "lib r' = lib r" "thread_ok t r'"
    "registered r' = spec_client src (packet_data mmsg_lib (lib r) p) (registered r)" by auto
  moreover have "same_threads r r'" by (rule client_threads [OF r'(1)])
  ultimately show ?thesis by blast
qed

lemma mmsg_peer_handler:
  assumes t: "thread_ok t r" and w: "worker_ok n (lib r)" and room: "tx_length (clients_io (lib r)) < n"
  shows "\<exists>b r'. on_peer_received mmsg_lib t p r = Inr (b, r') \<and> thread_ok t r' \<and> same_threads r r' \<and> worker_ok n (lib r')
    \<and> registered r' = registered r \<and> peer_headers (lib r') = peer_headers (lib r)
    \<and> tx_length (clients_io (lib r')) \<le> Suc (tx_length (clients_io (lib r)))
    \<and> mmsg_outbox (lib r') = mmsg_outbox (lib r) @ spec_peers (registered r) [packet_data mmsg_lib (lib r) p]"
proof -
  have len: "length (addresses (tx (clients_io (lib r)))) = n" using w by (simp add: worker_ok_def arrays_ok_def)
  have "mmsg_valid (lib r) p" "0 < mmsg_room (lib r)"
    using w room len by (auto simp: mmsg_valid_def mmsg_room_def worker_ok_def)
  from mm.on_peer_received_refines [OF t this] obtain b r' where
    r': "on_peer_received mmsg_lib t p r = Inr (b, r')" "registered r' = registered r" "thread_ok t r'"
    "mmsg_room (lib r) \<le> Suc (mmsg_room (lib r'))"
    "mmsg_outbox (lib r') = mmsg_outbox (lib r) @ spec_peers (registered r) [packet_data mmsg_lib (lib r) p]"
    by (auto split: option.splits)
  note keep = mmsg_on_peer_received_peers [OF r'(1)] mm.on_peer_received_memory [OF r'(1)]
  have "same_threads r r'"
    using r'(1) by (auto simp: on_peer_received_def mmsg_start_send_def on_session_sent_def same_threads_def Let_def
        dest!: count_frame split: option.splits if_splits)
  moreover have "worker_ok n (lib r')" using keep w by (simp add: worker_ok_def)
  moreover from this have "tx_length (clients_io (lib r')) \<le> Suc (tx_length (clients_io (lib r)))"
    using r'(1) by (auto simp: on_peer_received_def dest!: count_frame(1) mmsg_start_send_Inr split: option.splits)
  moreover have "peer_headers (lib r') = peer_headers (lib r)" using keep by (simp add: peer_headers_def fun_eq_iff)
  ultimately show ?thesis using r' by blast
qed

text \<open>A batch: what the headers of the array describe is what the kernel delivered.\<close>

lemma headers_delivered:
  assumes "arrays_ok n v" and "vectors v = slots n 1024" and "recv_may_fail n f" and "res = f v mem"
  shows "map (\<lambda>i. (header_source (store_received res v) i, read_mem (memory res)
        (content (header_packet (store_received res v) i)) (unat (plength (header_packet (store_received res v) i)))))
      [0..<nat (received res)] = delivered res"
proof -
  note res = recv_may_failD [OF assms(3,1), of mem, folded assms(4)]
  show ?thesis using res(1) store_received_ok(3,4) [OF assms(1) res(2,3)] assms(2) by (auto simp: delivered_def)
qed

lemma receive_clients_ok:
  assumes w: "worker_ok n io" and k: "kernel_may_fail n k"
    and "0 \<le> received (client_recvmmsg k (rx (clients_io io)) (message_mem io))"
  shows "\<exists>is io'. receive_clients k io = Inr (is, io') \<and> worker_ok n io'
    \<and> tx_length (clients_io io') = tx_length (clients_io io)
    \<and> client_headers io' is = client_delivery k io"
proof -
  have v: "arrays_ok n (rx (clients_io io))" "vectors (rx (clients_io io)) = slots n 1024"
    and f: "recv_may_fail n (client_recvmmsg k)" using w k by (simp_all add: worker_ok_def kernel_may_fail_def)
  note res = recv_may_failD [OF f v(1), of "message_mem io"]
  show ?thesis
    using assms(3) store_received_ok(1,2) [OF v(1) res(2,3)] w headers_delivered [OF v f refl]
    by (simp add: receive_clients_def Let_def ensure_success_def worker_ok_def client_headers_def client_delivery_def)
qed

lemma receive_peers_ok:
  assumes w: "worker_ok n io" and k: "kernel_may_fail n k"
    and "0 \<le> received (peer_recvmmsg k (rx (peers_io io)) (message_mem io))"
  shows "\<exists>is io'. receive_peers k io = Inr (is, io') \<and> worker_ok n io' \<and> length is \<le> n
    \<and> tx_length (clients_io io') = tx_length (clients_io io)
    \<and> peer_headers io' is = peer_delivery k io"
proof -
  have v: "arrays_ok n (rx (peers_io io))" "vectors (rx (peers_io io)) = slots n 1024"
    and f: "recv_may_fail n (peer_recvmmsg k)" using w k by (simp_all add: worker_ok_def kernel_may_fail_def)
  note res = recv_may_failD [OF f v(1), of "message_mem io"]
  show ?thesis
    using assms(3) res(1) store_received_ok(1,2) [OF v(1) res(2,3)] w headers_delivered [OF v f refl, THEN arg_cong, of "map snd"]
    by (simp add: receive_peers_def Let_def ensure_success_def worker_ok_def peer_headers_def peer_delivery_def comp_def)
qed

lemma send_frame_unique:
  assumes "send_loop fuel f io k m off = Some res" and "send_loop fuel' f io k m off = Some res'"
  shows "res = res'"
proof -
  have "send_loop (fuel + d) f io k m off = Some res" if "send_loop fuel f io k m off = Some res" for fuel res d
    using that by (induction d) (simp_all add: send_loop_mono)
  from this [OF assms(1), of fuel'] this [OF assms(2), of fuel] show ?thesis by (simp add: add.commute)
qed

lemma send_loop_ends:
  assumes f: "sends_progress f" and "0 \<le> v" and "0 \<le> offset"
  shows "\<exists>fuel. send_loop fuel f io k v offset = Some (Inr (map (tx_message io) [nat offset..<nat (offset + v)]))
    \<or> send_loop fuel f io k v offset = Some (Inl (Abort ''sendmmsg error''))
      \<and> (\<exists>j w. 0 < w \<and> w \<le> v \<and> f j w = Send_error)"
  using assms
proof (induction k v offset rule: send_loop_rule)
  case (retry k v offset)
  then show ?case by (metis send_loop_retry)
next
  case (failed k v offset)
  then show ?case by (intro exI [of _ 1]) (auto simp: send_loop.simps)
next
  case (sent k v offset n)
  then obtain fuel where rest: "send_loop fuel f io (Suc k) (v - n) (offset + n)
        = Some (Inr (map (tx_message io) [nat (offset + n)..<nat (offset + v)]))
      \<or> send_loop fuel f io (Suc k) (v - n) (offset + n) = Some (Inl (Abort ''sendmmsg error''))
        \<and> (\<exists>j w. 0 < w \<and> w \<le> v - n \<and> f j w = Send_error)" by auto
  then show ?case
  proof
    assume "send_loop fuel f io (Suc k) (v - n) (offset + n)
      = Some (Inr (map (tx_message io) [nat (offset + n)..<nat (offset + v)]))"
    from send_loop_sent [OF sent.hyps(1-4) this] show ?thesis by blast
  next
    assume rest: "send_loop fuel f io (Suc k) (v - n) (offset + n) = Some (Inl (Abort ''sendmmsg error''))
      \<and> (\<exists>j w. 0 < w \<and> w \<le> v - n \<and> f j w = Send_error)"
    have "w \<le> v" if "w \<le> v - n" for w using sent.hyps(2) that by simp
    with rest have "\<exists>j w. 0 < w \<and> w \<le> v \<and> f j w = Send_error" by blast
    moreover have "send_loop (Suc fuel) f io k v offset = Some (Inl (Abort ''sendmmsg error''))"
      using rest sent.hyps by (simp add: send_loop.simps [of "Suc fuel"])
    ultimately show ?thesis by blast
  qed
qed (auto simp: send_loop.simps)

lemma send_frame_ends:
  assumes "sends_progress f"
  shows "\<exists>fuel. io_run_client_send_frame fuel f io = Some (Inr (mmsg_outbox io))
    \<or> io_run_client_send_frame fuel f io = Some (Inl (Abort ''sendmmsg error''))
      \<and> (\<exists>j v. 0 < v \<and> v \<le> int (tx_length (clients_io io)) \<and> f j v = Send_error)"
  using send_loop_ends [OF assms, of "int (tx_length (clients_io io))" 0 io 0]
  by (simp add: io_run_client_send_frame_def mmsg_outbox_def)

section \<open>Every step of a worker\<close>

lemma outbox_empty: "tx_length (clients_io io) = 0 \<Longrightarrow> mmsg_outbox io = []"
  by (simp add: mmsg_outbox_def)

text \<open>Each stage has one outcome, which comes with enough fuel: a step that keeps and does what it should, or the
  end of the process when a call into the kernel fails.\<close>

definition outcome_ok :: "nat \<Rightarrow> 'ep kernel \<Rightarrow> stage \<Rightarrow> ('ep, 'ep io_worker) relay
    \<Rightarrow> ('ep activity \<times> stage \<times> ('ep, 'ep io_worker) relay) res \<Rightarrow> bool" where
  "outcome_ok n k st r x = (case x of
       Inl e \<Rightarrow> call_fails k st (lib r) \<and> (e = Abort ''ensure_success'' \<or> e = Abort ''sendmmsg error'')
     | Inr (a, st', r') \<Rightarrow> step_ok n st r a st' r')"

definition only_step :: "nat \<Rightarrow> 'ep kernel \<Rightarrow> nat \<Rightarrow> stage \<Rightarrow> ('ep, 'ep io_worker) relay \<Rightarrow> bool" where
  "only_step n k t st r \<longleftrightarrow> (\<exists>x. outcome_ok n k st r x
     \<and> (\<exists>fuel. worker_next fuel k t st r = Some x) \<and> (\<forall>fuel y. worker_next fuel k t st r = Some y \<longrightarrow> y = x))"

lemma only_stepI:
  assumes "\<And>fuel. worker_next fuel k t st r = Some (Inr (a, st', r'))" and "step_ok n st r a st' r'"
  shows "only_step n k t st r"
  using assms unfolding only_step_def outcome_ok_def by auto

lemma only_stepF:
  assumes "\<And>fuel. worker_next fuel k t st r = Some (Inl (Abort ''ensure_success''))" and "call_fails k st (lib r)"
  shows "only_step n k t st r"
  using assms unfolding only_step_def outcome_ok_def by auto

lemma step_loop_top:
  assumes "at_stage n Loop_top (lib r)" and "thread_ok t r"
  shows "only_step n k t Loop_top r"
  by (rule only_stepI)
    (use assms in \<open>auto intro!: quiet_step_ok simp: same_threads_def registered_def outbox_empty\<close>)

lemma step_client_poll:
  assumes "at_stage n Client_poll (lib r)" and "thread_ok t r" and "kernel_may_fail n k"
  shows "only_step n k t Client_poll r"
proof -
  consider "call_fails k Client_poll (lib r)" | "\<not> client_ready k"
    | "client_ready k" "0 \<le> received (client_recvmmsg k (rx (clients_io (lib r))) (message_mem (lib r)))" by fastforce
  then show ?thesis
  proof cases
    case 1
    show ?thesis
      by (rule only_stepF) (use 1 in \<open>auto simp: receive_clients_def Let_def ensure_success_def\<close>)
  next
    case 2
    show ?thesis
      by (rule only_stepI) (use assms(1,2) 2 in \<open>auto intro!: quiet_step_ok simp: same_threads_def\<close>)
  next
    case 3
  obtain "is" io where io: "receive_clients k (lib r) = Inr (is, io)" "worker_ok n io"
    "tx_length (clients_io io) = tx_length (clients_io (lib r))" "client_headers io is = client_delivery k (lib r)"
    using receive_clients_ok [of n "lib r" k] assms(1,3) 3(2) by auto
    show ?thesis
      by (rule only_stepI) (use assms(1,2) 3 io in \<open>auto simp: step_ok_def frame_view_def registered_def outbox_empty\<close>)
  qed
qed

lemma step_clients:
  assumes "at_stage n (Clients is) (lib r)" and "thread_ok t r"
  shows "only_step n k t (Clients is) r"
proof (cases "is")
  case Nil
  show ?thesis unfolding Nil
    by (rule only_stepI) (use assms Nil in \<open>auto intro!: quiet_step_ok simp: same_threads_def client_headers_def\<close>)
next
  case (Cons i js)
  define src where "src = header_source (rx (clients_io (lib r))) i"
  define p where "p = header_packet (rx (clients_io (lib r))) i"
  obtain r' where r': "on_client_received mmsg_lib t src p r = Inr r'" "lib r' = lib r" "thread_ok t r'" "same_threads r r'"
    "registered r' = spec_client src (packet_data mmsg_lib (lib r) p) (registered r)"
    using mmsg_client_handler [OF assms(2), of n src p] assms(1) by auto
  have "worker_next fuel k t (Clients is) r = Some (Inr (Client_handled src (packet_data mmsg_lib (lib r) p), Clients js, r'))" for fuel
    using r'(1) by (simp add: Cons Let_def src_def p_def del: mmsg_lib_simps)
  moreover have "step_ok n (Clients is) r (Client_handled src (packet_data mmsg_lib (lib r) p)) (Clients js) r'"
    using r'(2-5) assms(1)
    by (simp add: step_ok_def same_threads_def frame_view_def Cons client_headers_def src_def p_def del: mmsg_lib_simps)
  ultimately show ?thesis by (rule only_stepI)
qed

lemma step_peer_poll:
  assumes "at_stage n Peer_poll (lib r)" and "thread_ok t r" and "kernel_may_fail n k"
  shows "only_step n k t Peer_poll r"
proof -
  consider "call_fails k Peer_poll (lib r)" | "\<not> peer_ready k"
    | "peer_ready k" "0 \<le> received (peer_recvmmsg k (rx (peers_io (lib r))) (message_mem (lib r)))" by fastforce
  then show ?thesis
  proof cases
    case 1
    show ?thesis
      by (rule only_stepF) (use 1 in \<open>auto simp: receive_peers_def Let_def ensure_success_def\<close>)
  next
    case 2
    show ?thesis
      by (rule only_stepI) (use assms(1,2) 2 in \<open>auto intro!: quiet_step_ok simp: same_threads_def\<close>)
  next
    case 3
  obtain "is" io where io: "receive_peers k (lib r) = Inr (is, io)" "worker_ok n io" "length is \<le> n"
    "tx_length (clients_io io) = tx_length (clients_io (lib r))" "peer_headers io is = peer_delivery k (lib r)"
    using receive_peers_ok [of n "lib r" k] assms(1,3) 3(2) by auto
    show ?thesis
      by (rule only_stepI) (use assms(1,2) 3 io in \<open>auto simp: step_ok_def frame_view_def registered_def outbox_empty\<close>)
  qed
qed

lemma step_peers:
  assumes "at_stage n (Peers is) (lib r)" and "thread_ok t r"
  shows "only_step n k t (Peers is) r"
proof (cases "is")
  case Nil
  show ?thesis unfolding Nil
    by (rule only_stepI) (use assms Nil in \<open>auto intro!: quiet_step_ok simp: same_threads_def peer_headers_def\<close>)
next
  case (Cons i js)
  define p where "p = header_packet (rx (peers_io (lib r))) i"
  have "worker_ok n (lib r)" "tx_length (clients_io (lib r)) < n" using assms(1) Cons by simp_all
  from mmsg_peer_handler [OF assms(2) this, of p] obtain b r' where
    r': "on_peer_received mmsg_lib t p r = Inr (b, r')" "thread_ok t r'" "same_threads r r'" "worker_ok n (lib r')"
    "registered r' = registered r" "peer_headers (lib r') = peer_headers (lib r)"
    "tx_length (clients_io (lib r')) \<le> Suc (tx_length (clients_io (lib r)))"
    "mmsg_outbox (lib r') = mmsg_outbox (lib r) @ spec_peers (registered r) [packet_data mmsg_lib (lib r) p]" by blast
  have "worker_next fuel k t (Peers is) r = Some (Inr (Peer_handled (packet_data mmsg_lib (lib r) p), Peers js, r'))" for fuel
    using r'(1) by (simp add: Cons Let_def p_def del: mmsg_lib_simps)
  moreover have "peer_headers (lib r) is = packet_data mmsg_lib (lib r) p # peer_headers (lib r) js"
    by (simp add: Cons peer_headers_def p_def)
  then have "step_ok n (Peers is) r (Peer_handled (packet_data mmsg_lib (lib r) p)) (Peers js) r'"
    using r'(2-8) assms(1) Cons
    by (simp add: step_ok_def same_threads_def frame_view_def del: mmsg_lib_simps spec_peers.simps)
  ultimately show ?thesis by (rule only_stepI)
qed

lemma step_timer_poll:
  assumes "at_stage n Timer_poll (lib r)" and "thread_ok t r"
  shows "only_step n k t Timer_poll r"
proof -
  consider "call_fails k Timer_poll (lib r)" | "\<not> timer_ready k" | "timer_ready k" "0 \<le> timer_read k" by fastforce
  then show ?thesis
  proof cases
    case 1
    show ?thesis by (rule only_stepF) (use 1 in \<open>auto simp: ensure_success_def\<close>)
  next
    case 2
    show ?thesis
      by (rule only_stepI) (use assms 2 in \<open>auto intro!: quiet_step_ok simp: same_threads_def\<close>)
  next
    case 3
    obtain line where line: "on_statistics_tick statistics_print_interval r
       = Inr (line, r\<lparr>per_thread_statistics := replicate (length (per_thread_statistics r)) statistics_zero\<rparr>)"
      using statistics_tick_returns by blast
    show ?thesis
      by (rule only_stepI)
        (use assms 3 line in \<open>auto intro!: quiet_step_ok simp: same_threads_def ensure_success_def thread_ok_def registered_def\<close>)
  qed
qed

lemma step_send_frame:
  assumes "at_stage n Send_frame (lib r)" and "thread_ok t r" and "kernel_may_fail n k"
  shows "only_step n k t Send_frame r"
proof -
  have f: "sends_progress (sendmmsg k)" using assms(3) by (simp add: kernel_may_fail_def)
  have same: "res = res'" if "io_run_client_send_frame fuel (sendmmsg k) (lib r) = Some res"
    "io_run_client_send_frame fuel' (sendmmsg k) (lib r) = Some res'" for fuel fuel' res res'
    using that send_frame_unique unfolding io_run_client_send_frame_def by blast
  have sent: "step_ok n Send_frame r (Transmitted (mmsg_outbox (lib r))) Loop_top r"
    using assms(1,2) by (simp add: step_ok_def frame_view_def)
  from send_frame_ends [OF f, of "lib r"] obtain fuel where
    "io_run_client_send_frame fuel (sendmmsg k) (lib r) = Some (Inr (mmsg_outbox (lib r)))
      \<or> io_run_client_send_frame fuel (sendmmsg k) (lib r) = Some (Inl (Abort ''sendmmsg error''))
        \<and> call_fails k Send_frame (lib r)" by auto
  then show ?thesis
  proof (elim disjE conjE)
    assume out: "io_run_client_send_frame fuel (sendmmsg k) (lib r) = Some (Inr (mmsg_outbox (lib r)))"
    show ?thesis
      unfolding only_step_def outcome_ok_def
      by (rule exI [of _ "Inr (Transmitted (mmsg_outbox (lib r)), Loop_top, r)"]) (use sent out same [OF out] in force)
  next
    assume out: "io_run_client_send_frame fuel (sendmmsg k) (lib r) = Some (Inl (Abort ''sendmmsg error''))"
      and "call_fails k Send_frame (lib r)"
    then show ?thesis
      unfolding only_step_def outcome_ok_def
      by (intro exI [of _ "Inl (Abort ''sendmmsg error'')"]) (use same [OF out] in force)
  qed
qed

lemma worker_steps:
  assumes "at_stage n st (lib r)" and "kernel_may_fail n k" and "thread_ok t r"
  shows "only_step n k t st r"
  using assms
  by (cases st) (auto intro: step_loop_top step_client_poll step_clients step_peer_poll step_peers
      step_timer_poll step_send_frame)

section \<open>All the workers\<close>

text \<open>A kernel that has nothing to deliver and sends all it is given.\<close>

definition idle_kernel :: "'ep kernel" where
  "idle_kernel = \<lparr>client_ready = False, peer_ready = False, timer_ready = False,
     client_recvmmsg = (\<lambda>v mem. \<lparr>received = 0, from_addresses = addresses v, lengths = map msg_len (messages v), memory = mem\<rparr>),
     peer_recvmmsg = (\<lambda>v mem. \<lparr>received = 0, from_addresses = addresses v, lengths = map msg_len (messages v), memory = mem\<rparr>),
     timer_read = 8, sendmmsg = (\<lambda>_ vlen. Sent vlen)\<rparr>"

lemma idle_kernel_ok: "kernel_ok n idle_kernel"
  by (auto simp: kernel_ok_def idle_kernel_def recv_ok_def send_ok_def arrays_ok_def)

definition mmsg_thread_start :: "'ep io_worker \<Rightarrow> 'ep mmsg_thread" where
  "mmsg_thread_start io = \<lparr>thread_io = io, thread_stage = Loop_top, thread_kernel = idle_kernel\<rparr>"

definition mmsg_good :: "nat \<Rightarrow> 'ep mmsg_thread \<Rightarrow> bool" where
  "mmsg_good t s \<longleftrightarrow> at_stage 65536 (thread_stage s) (thread_io s) \<and> kernel_may_fail 65536 (thread_kernel s)"

definition mmsg_view :: "'ep mmsg_thread \<Rightarrow> 'ep frame_view" where
  "mmsg_view s = frame_view (thread_stage s) (thread_io s)"

lemma mmsg_only_step:
  assumes "thread_ok t r" and "mmsg_good t (lib r)" and "kernel_may_fail 65536 k"
  shows "only_step 65536 k t (thread_stage (lib r)) (join_lib r (thread_io (lib r)))"
  by (rule worker_steps) (use assms in \<open>simp_all add: mmsg_good_def\<close>)

interpretation mt: relay_threads mmsg_call mmsg_good frame_step mmsg_view handled_clients
proof unfold_locales
  fix t and r r' :: "('ep, 'ep mmsg_thread) relay" and l
  assume ok: "thread_ok t r" "mmsg_good t (lib r)" and "mmsg_call t r l r'"
  from this(3) show "mmsg_good t (lib r') \<and> same_threads r r'
    \<and> frame_step (registered r, mmsg_view (lib r)) l (registered r', mmsg_view (lib r'))"
  proof cases
    case (calls k fuel st r1)
    from mmsg_only_step [OF ok calls(2)] calls(4)
    have "step_ok 65536 (thread_stage (lib r)) (join_lib r (thread_io (lib r))) l st r1"
      unfolding only_step_def outcome_ok_def by fastforce
    then show ?thesis
      using calls(2) by (simp add: calls(1) step_ok_def mmsg_good_def mmsg_view_def frame_step_def same_threads_def)
  qed
qed (rule frame_step_table)

lemma mmsg_start_good:
  assumes "io_worker_init z k_mmsg_capacity i c p = Inr io"
  shows "mmsg_good t (mmsg_thread_start io)"
  using assms io_worker_init_ok [of 65536 z i c p] kernel_ok_may_fail [OF idle_kernel_ok]
  by (auto simp: k_mmsg_capacity_def mmsg_good_def mmsg_thread_start_def)

text \<open>The next call of a worker comes to an end, in a step of the pool or in an abort.\<close>

definition next_call :: "nat \<Rightarrow> 'ep kernel \<Rightarrow> nat \<Rightarrow> ('ep, 'ep mmsg_thread) thread_pool
    \<Rightarrow> ('ep activity \<times> stage \<times> ('ep, 'ep io_worker) relay) res option" where
  "next_call fuel k t w = worker_next fuel k t (thread_stage (own w t)) (join_lib (common w) (thread_io (own w t)))"

lemma mmsg_progress:
  assumes "mt.pool_ok n w" and t: "t \<in> running w" and k: "kernel_may_fail 65536 k"
  shows "\<exists>fuel. next_call fuel k t w \<noteq> None"
    and "next_call fuel k t w = Some (Inl e) \<Longrightarrow> call_fails k (thread_stage (own w t)) (thread_io (own w t))
      \<and> (e = Abort ''ensure_success'' \<or> e = Abort ''sendmmsg error'')"
    and "next_call fuel k t w = Some (Inr (a, st, r)) \<Longrightarrow> thread_stage (own w t) = Loop_top \<or> k = thread_kernel (own w t)
      \<Longrightarrow> \<exists>w'. pool_step mmsg_call n w (t, Does a) w'"
proof -
  have "thread_ok t (seen_by t w)" "mmsg_good t (lib (seen_by t w))"
    using assms(1) t by (simp_all add: mt.pool_ok_def seen_by_def)
  note only = mmsg_only_step [OF this k, unfolded seen_by_def join_lib_simps, folded next_call_def]
  show "\<exists>fuel. next_call fuel k t w \<noteq> None"
    using only unfolding only_step_def next_call_def by auto
  show "call_fails k (thread_stage (own w t)) (thread_io (own w t))
      \<and> (e = Abort ''ensure_success'' \<or> e = Abort ''sendmmsg error'')" if "next_call fuel k t w = Some (Inl e)"
    using only that unfolding only_step_def next_call_def outcome_ok_def by fastforce
  show "\<exists>w'. pool_step mmsg_call n w (t, Does a) w'" if next1: "next_call fuel k t w = Some (Inr (a, st, r))"
    and same: "thread_stage (own w t) = Loop_top \<or> k = thread_kernel (own w t)"
  proof -
    have "thread_stage (lib (seen_by t w)) \<noteq> Loop_top \<Longrightarrow> k = thread_kernel (lib (seen_by t w))"
      "worker_next fuel k t (thread_stage (lib (seen_by t w))) (join_lib (seen_by t w) (thread_io (lib (seen_by t w))))
        = Some (Inr (a, st, r))"
      using next1 same by (auto simp: seen_by_def next_call_def)
    from calls [OF k this] show ?thesis using does [where step = mmsg_call, OF t] by blast
  qed
qed

section \<open>A worker alone\<close>

text \<open>The calls of one worker, with nobody in between.\<close>

inductive alone :: "nat \<Rightarrow> 'ep kernel \<Rightarrow> nat \<Rightarrow> stage \<Rightarrow> ('ep, 'ep io_worker) relay \<Rightarrow> 'ep activity list
    \<Rightarrow> stage \<Rightarrow> ('ep, 'ep io_worker) relay \<Rightarrow> bool" for fuel k t where
  alone_stay: "alone fuel k t st r [] st r"
| alone_next: "worker_next fuel k t st r = Some (Inr (a, st1, r1)) \<Longrightarrow> alone fuel k t st1 r1 as st2 r2
    \<Longrightarrow> alone fuel k t st r (a # as) st2 r2"

lemma alone_append:
  "alone fuel k t st r as st1 r1 \<Longrightarrow> alone fuel k t st1 r1 bs st2 r2 \<Longrightarrow> alone fuel k t st r (as @ bs) st2 r2"
  by (induction rule: alone.induct) (auto intro: alone_next)

lemmas alone_one = alone_next [OF _ alone_stay]

lemma alone_clients:
  assumes "foldR (\<lambda>i r. on_client_received mmsg_lib t (header_source (rx (clients_io (lib r))) i)
      (header_packet (rx (clients_io (lib r))) i) r) is r = Inr r'"
  shows "alone fuel k t (Clients is) r (map (\<lambda>(src, bs). Client_handled src bs) (client_headers (lib r) is) @ [Quiet]) Peer_poll r'"
  using assms
proof (induction "is" arbitrary: r)
  case Nil
  then show ?case by (simp add: client_headers_def) (rule alone_one, simp)
next
  case (Cons i "is")
  then obtain r1 where r1: "on_client_received mmsg_lib t (header_source (rx (clients_io (lib r))) i)
      (header_packet (rx (clients_io (lib r))) i) r = Inr r1"
    "foldR (\<lambda>i r. on_client_received mmsg_lib t (header_source (rx (clients_io (lib r))) i)
      (header_packet (rx (clients_io (lib r))) i) r) is r1 = Inr r'" by auto
  have "lib r1 = lib r"
    using r1(1) by (auto simp: on_client_received_eq dest!: count_frame(1) split: if_splits)
  with alone_next [OF _ Cons.IH [OF r1(2)], of "Clients (i # is)" r] r1(1) show ?case
    by (simp add: Let_def client_headers_def)
qed

lemma alone_peers:
  assumes "foldR (\<lambda>i r. bindR (on_peer_received mmsg_lib t (header_packet (rx (peers_io (lib r))) i) r)
      (\<lambda>(_, r). Inr r)) is r = Inr r'"
  shows "alone fuel k t (Peers is) r (map Peer_handled (peer_headers (lib r) is) @ [Quiet]) Timer_poll r'"
  using assms
proof (induction "is" arbitrary: r)
  case Nil
  then show ?case by (simp add: peer_headers_def) (rule alone_one, simp)
next
  case (Cons i "is")
  then obtain b r1 where r1: "on_peer_received mmsg_lib t (header_packet (rx (peers_io (lib r))) i) r = Inr (b, r1)"
    "foldR (\<lambda>i r. bindR (on_peer_received mmsg_lib t (header_packet (rx (peers_io (lib r))) i) r)
      (\<lambda>(_, r). Inr r)) is r1 = Inr r'" by auto
  have "peer_headers (lib r1) = peer_headers (lib r)"
    using mmsg_on_peer_received_peers [OF r1(1)] mm.on_peer_received_memory [OF r1(1)]
    by (simp add: peer_headers_def fun_eq_iff)
  with alone_next [OF _ Cons.IH [OF r1(2)], of "Peers (i # is)" r] r1(1) show ?case
    by (simp add: Let_def peer_headers_def)
qed

definition client_activity :: "'ep kernel \<Rightarrow> ('ep \<times> u8 list) list \<Rightarrow> 'ep activity list" where
  "client_activity k xs = (if client_ready k then Client_batch xs # map (\<lambda>(src, bs). Client_handled src bs) xs else []) @ [Quiet]"

definition peer_activity :: "'ep kernel \<Rightarrow> u8 list list \<Rightarrow> 'ep activity list" where
  "peer_activity k xs = (if peer_ready k then Peer_batch xs # map Peer_handled xs else []) @ [Quiet]"

lemma kernel_receives:
  assumes "worker_ok n io" and "kernel_ok n k"
  shows "0 \<le> received (client_recvmmsg k (rx (clients_io io)) mem)" "0 \<le> received (peer_recvmmsg k (rx (peers_io io)) mem)"
  using assms by (auto simp: worker_ok_def kernel_ok_def intro!: recv_okD(1))

lemma alone_client_phase:
  assumes "(if client_ready k then io_run_client_receive_frame (client_recvmmsg k) t r else Inr r) = Inr r'"
    and "worker_ok n (lib r)" and "kernel_ok n k"
  shows "alone fuel k t Client_poll r
    (client_activity k (client_delivery k (lib r))) Peer_poll r'"
proof (cases "client_ready k")
  case True
  with assms receive_clients_ok [OF assms(2) kernel_ok_may_fail [OF assms(3)] kernel_receives(1) [OF assms(2,3)]] obtain "is" io where io: "receive_clients k (lib r) = Inr (is, io)"
      "client_headers io is = client_delivery k (lib r)"
    and loop: "foldR (\<lambda>i r. on_client_received mmsg_lib t (header_source (rx (clients_io (lib r))) i)
      (header_packet (rx (clients_io (lib r))) i) r) is (r\<lparr>lib := io\<rparr>) = Inr r'"
    by (auto simp: io_run_client_receive_frame_def receive_clients_def Let_def)
  from alone_next [OF _ alone_clients [OF loop], where st = Client_poll and r = r] io True show ?thesis by (simp add: client_activity_def)
next
  case False
  then show ?thesis using assms(1) by (simp add: client_activity_def) (rule alone_one, simp)
qed

lemma alone_peer_phase:
  assumes "(if peer_ready k then io_run_peer_receive_frame (peer_recvmmsg k) t r else Inr r) = Inr r'"
    and "worker_ok n (lib r)" and "kernel_ok n k"
  shows "alone fuel k t Peer_poll r
    (peer_activity k (peer_delivery k (lib r))) Timer_poll r'"
proof (cases "peer_ready k")
  case True
  with assms receive_peers_ok [OF assms(2) kernel_ok_may_fail [OF assms(3)] kernel_receives(2) [OF assms(2,3)]] obtain "is" io where io: "receive_peers k (lib r) = Inr (is, io)"
      "peer_headers io is = peer_delivery k (lib r)"
    and loop: "foldR (\<lambda>i r. bindR (on_peer_received mmsg_lib t (header_packet (rx (peers_io (lib r))) i) r)
      (\<lambda>(_, r). Inr r)) is (r\<lparr>lib := io\<rparr>) = Inr r'"
    by (auto simp: io_run_peer_receive_frame_def receive_peers_def Let_def)
  from alone_next [OF _ alone_peers [OF loop], where st = Peer_poll and r = r] io True show ?thesis by (simp add: peer_activity_def)
next
  case False
  then show ?thesis using assms(1) by (simp add: peer_activity_def) (rule alone_one, simp)
qed

text \<open>Calls with nobody in between make up the iteration of theory \<open>Mmsg\<close>.\<close>

definition frame_activity :: "'ep kernel \<Rightarrow> ('ep \<times> u8 list) list \<times> u8 list list \<Rightarrow> ('ep \<times> u8 list) list \<Rightarrow> 'ep activity list" where
  "frame_activity k arrived out =
     Quiet # client_activity k (fst arrived) @ peer_activity k (snd arrived) @ [Quiet, Transmitted out]"

lemma alone_is_iteration:
  assumes "worker_iteration fuel k t r = Some (Inr (out, line, r'))"
    and w: "worker_ok n (lib r)" and t: "thread_ok t r" and k: "kernel_ok n k"
  shows "alone fuel k t Loop_top r (frame_activity k (arrivals k r) out) Loop_top r'"
proof -
  define r0 where "r0 = r\<lparr>lib := io_worker_begin_frame (lib r)\<rparr>"
  from assms(1) have phase: "receive_phase k t r0 = Inr (line, r')"
    and send: "io_run_client_send_frame fuel (sendmmsg k) (lib r') = Some (Inr out)"
    by (auto simp: worker_iteration_def r0_def split: sum.splits)
  from phase obtain r1 r2 where
    r1: "(if client_ready k then io_run_client_receive_frame (client_recvmmsg k) t r0 else Inr r0) = Inr r1"
    and r2: "(if peer_ready k then io_run_peer_receive_frame (peer_recvmmsg k) t r1 else Inr r1) = Inr r2"
    and tick: "(if timer_ready k then bindR (ensure_success (timer_read k)) (\<lambda>_. on_statistics_tick statistics_print_interval r2)
      else Inr ([], r2)) = Inr (line, r')"
    unfolding receive_phase_def by (auto simp only: bindR_eq_Inr)
  have r0: "worker_ok n (lib r0)" "thread_ok t r0" using w t by (simp_all add: r0_def)
  have "recv_ok n (client_recvmmsg k)" using k by (simp add: kernel_ok_def)
  from client_frame_refines [OF r0 this] r1 r0(1) have w1: "worker_ok n (lib r1)"
    "rx (peers_io (lib r1)) = rx (peers_io (lib r))"
    "message_mem (lib r1) = (if client_ready k then memory (client_recvmmsg k (rx (clients_io (lib r))) (message_mem (lib r))) else message_mem (lib r))"
    by (auto simp: r0_def split: if_splits)
  have "alone fuel k t Client_poll r0 (client_activity k (fst (arrivals k r))) Peer_poll r1"
    using alone_client_phase [OF r1 r0(1) k, of fuel] by (cases "client_ready k") (simp_all add: arrivals_def Let_def r0_def client_activity_def client_delivery_def)
  moreover have "alone fuel k t Peer_poll r1 (peer_activity k (snd (arrivals k r))) Timer_poll r2"
    using alone_peer_phase [OF r2 w1(1) k, of fuel] by (cases "peer_ready k") (simp_all add: arrivals_def Let_def w1(2,3) peer_activity_def peer_delivery_def)
  moreover have "alone fuel k t Timer_poll r2 [Quiet] Send_frame r'"
    by (rule alone_one) (use tick in \<open>auto split: if_splits\<close>)
  moreover have "alone fuel k t Send_frame r' [Transmitted out] Loop_top r'" by (rule alone_one) (simp add: send)
  moreover have "alone fuel k t Loop_top r [Quiet] Client_poll r0" by (rule alone_one) (simp add: r0_def)
  ultimately have "alone fuel k t Loop_top r ([Quiet] @ client_activity k (fst (arrivals k r))
      @ peer_activity k (snd (arrivals k r)) @ [Quiet] @ [Transmitted out]) Loop_top r'"
    by (blast intro: alone_append)
  then show ?thesis by (simp add: frame_activity_def)
qed

text \<open>In a pool of many, one worker alone.\<close>

lemma alone_in_pool:
  assumes "alone fuel k t st r as st' r'" and "t \<in> running w" and "thread_stage (own w t) = st"
    and "join_lib (common w) (thread_io (own w t)) = r" and "kernel_may_fail 65536 k"
    and "st \<noteq> Loop_top \<Longrightarrow> k = thread_kernel (own w t)"
  shows "\<exists>w'. pool_run mmsg_call n w (map (\<lambda>a. (t, Does a)) as) w' \<and> join_lib (common w') (thread_io (own w' t)) = r'
    \<and> thread_stage (own w' t) = st' \<and> running w' = running w \<and> (\<forall>u. u \<noteq> t \<longrightarrow> own w' u = own w u)"
  using assms
proof (induction arbitrary: w rule: alone.induct)
  case (alone_stay st r)
  then show ?case using pool_stay by auto
next
  case (alone_next st r a st1 r1 as st2 r2)
  define s1 where "s1 = \<lparr>thread_io = lib r1, thread_stage = st1, thread_kernel = k\<rparr>"
  define w1 where "w1 = w\<lparr>common := join_lib (join_lib r1 s1) (), own := (own w)(t := s1)\<rparr>"
  have "mmsg_call t (seen_by t w) a (join_lib r1 s1)"
    unfolding s1_def by (rule calls [where fuel = fuel]) (use alone_next in \<open>auto simp: seen_by_def\<close>)
  from does [where step = mmsg_call and n = n, OF alone_next.prems(1) this] have step: "pool_step mmsg_call n w (t, Does a) w1"
    by (simp add: w1_def)
  have "t \<in> running w1" "thread_stage (own w1 t) = st1" "join_lib (common w1) (thread_io (own w1 t)) = r1"
    "k = thread_kernel (own w1 t)"
    using alone_next.prems(1) by (simp_all add: w1_def s1_def)
  from alone_next.IH [OF this(1-3) alone_next.prems(4) this(4)] obtain w' where
    w': "pool_run mmsg_call n w1 (map (\<lambda>a. (t, Does a)) as) w'" "join_lib (common w') (thread_io (own w' t)) = r2"
    "thread_stage (own w' t) = st2" "running w' = running w1" "\<forall>u. u \<noteq> t \<longrightarrow> own w' u = own w1 u" by blast
  have "pool_run mmsg_call n w ([] @ [(t, Does a)]) w1" by (rule pool_more [OF pool_stay step])
  from pool_run_append [OF w'(1) this] w'(2-5) show ?case
    by (intro exI [of _ w']) (simp add: w1_def)
qed

text \<open>A frame of one worker that is at the top of its loop.\<close>

lemma frame_in_pool:
  assumes t: "t \<in> running w" "thread_ok t (common w)" and io: "worker_ok 65536 (thread_io (own w t))"
    and st: "thread_stage (own w t) = Loop_top" and k: "kernel_ok 65536 k"
  defines "arrived \<equiv> arrivals k (join_lib (common w) (thread_io (own w t)))"
  defines "table' \<equiv> spec_clients (fst arrived) (registered (common w))"
  shows "\<exists>w'. pool_run mmsg_call n w (map (\<lambda>a. (t, Does a)) (frame_activity k arrived (spec_peers table' (snd arrived)))) w'
    \<and> registered (common w') = table' \<and> thread_stage (own w' t) = Loop_top \<and> running w' = running w
    \<and> (\<forall>u. u \<noteq> t \<longrightarrow> own w' u = own w u)"
proof -
  let ?r = "join_lib (common w) (thread_io (own w t))"
  have r: "worker_ok 65536 (lib ?r)" "thread_ok t ?r" using t io by simp_all
  from k have "recv_ok 65536 (client_recvmmsg k)" "recv_ok 65536 (peer_recvmmsg k)" "send_ok (sendmmsg k)" "0 \<le> timer_read k"
    by (simp_all add: kernel_ok_def)
  from worker_iteration_returns [OF r this] obtain fuel line r' where
    r': "worker_iteration fuel k t ?r = Some (Inr (spec_peers table' (snd arrived), line, r'))" "registered r' = table'"
    unfolding arrived_def table'_def arrivals_def Let_def by auto
  from alone_in_pool [OF alone_is_iteration [OF r'(1) r k] t(1) st refl kernel_ok_may_fail [OF k], of n] obtain w' where
    w': "pool_run mmsg_call n w (map (\<lambda>a. (t, Does a)) (frame_activity k arrived (spec_peers table' (snd arrived)))) w'"
      "join_lib (common w') (thread_io (own w' t)) = r'" "thread_stage (own w' t) = Loop_top" "running w' = running w" "\<forall>u. u \<noteq> t \<longrightarrow> own w' u = own w u"
    unfolding arrived_def by auto
  have "registered (common w') = table'" using w'(2) r'(2) by auto
  with w' show ?thesis by blast
qed

section \<open>Properties\<close>

text \<open>C6. All the workers together are one relay: for any number of workers, any interleaving of their calls
  and anything the kernel does, each worker handles what is delivered to it once and in order, all
  register in the same table, which holds what all of them registered, and each transmits in every
  frame exactly what that table, at the time of each call, says is to be forwarded. The kernel's calls may fail
  (of those that do not it is only required that \<open>recvmmsg\<close> fills no more headers than it is given, and
  that \<open>sendmmsg\<close> sends one message or more and is not interrupted for ever). The next call of a worker
  always comes to an end: it is a step of the pool, or it aborts the process, and then only because the kernel
  has failed \<open>recvmmsg\<close>, the read of the timer, or \<open>sendmmsg\<close> with an error that is not retried.\<close>

theorem mmsg_workers_refine:
  assumes "\<forall>t < unat threads. io_worker_init z k_mmsg_capacity t (c t) (p t) = Inr (ios t)"
    and "pool_run mmsg_call (unat threads) (pool_start threads (mmsg_thread_start \<circ> ios)) ls w"
  shows "abs_pool_run frame_step (Map.empty, \<lambda>_. \<lparr>client_inbox = [], peer_inbox = [], to_send = []\<rparr>) ls
      (registered (common w), mmsg_view \<circ> own w)
    \<and> registered (common w) = spec_clients (clients_in handled_clients ls) Map.empty
    \<and> (\<forall>t \<in> running w. \<forall>k. kernel_may_fail 65536 k \<longrightarrow>
        (\<exists>fuel. next_call fuel k t w \<noteq> None)
      \<and> (\<forall>fuel e. next_call fuel k t w = Some (Inl e) \<longrightarrow>
          call_fails k (thread_stage (own w t)) (thread_io (own w t))
          \<and> (e = Abort ''ensure_success'' \<or> e = Abort ''sendmmsg error''))
      \<and> (\<forall>fuel a st r. next_call fuel k t w = Some (Inr (a, st, r)) \<and>
            (thread_stage (own w t) = Loop_top \<or> k = thread_kernel (own w t)) \<longrightarrow>
          (\<exists>w'. pool_step mmsg_call (unat threads) w (t, Does a) w')))"
proof (intro conjI ballI allI impI)
  have good: "\<forall>t < unat threads. mmsg_good t ((mmsg_thread_start \<circ> ios) t)"
    using assms(1) mmsg_start_good by (metis comp_apply)
  note run = mt.threads_refine [OF good assms(2)]
  have "mmsg_view \<circ> (mmsg_thread_start \<circ> ios) = (\<lambda>_. \<lparr>client_inbox = [], peer_inbox = [], to_send = []\<rparr>)"
    by (simp add: fun_eq_iff mmsg_view_def frame_view_def mmsg_thread_start_def)
  then show "abs_pool_run frame_step (Map.empty, \<lambda>_. \<lparr>client_inbox = [], peer_inbox = [], to_send = []\<rparr>) ls
      (registered (common w), mmsg_view \<circ> own w)" using run(1) by simp
  show "registered (common w) = spec_clients (clients_in handled_clients ls) Map.empty" by (rule run(2))
  fix t and k :: "'a kernel"
  assume t: "t \<in> running w" "kernel_may_fail 65536 k"
  note next1 = mmsg_progress [OF run(3) t]
  show "\<exists>fuel. next_call fuel k t w \<noteq> None" by (rule next1(1))
  fix fuel
  show "call_fails k (thread_stage (own w t)) (thread_io (own w t))"
    "e = Abort ''ensure_success'' \<or> e = Abort ''sendmmsg error''" if "next_call fuel k t w = Some (Inl e)" for e
    using next1(2) [OF that] by blast+
  show "\<exists>w'. pool_step mmsg_call (unat threads) w (t, Does a) w'"
    if "next_call fuel k t w = Some (Inr (a, st, r)) \<and> (thread_stage (own w t) = Loop_top \<or> k = thread_kernel (own w t))"
    for a st r using next1(3) that by blast
qed

lemma to_send_keeps:
  assumes "abs_pool_run frame_step a zs b" and "y \<in> set (to_send (snd a u))" and "\<forall>out. (u, Does (Transmitted out)) \<notin> set zs"
  shows "y \<in> set (to_send (snd b u))"
  using assms
proof induction
  case (abs_does a ls m vs t l m' v)
  then have "y \<in> set (to_send (vs u))" "t = u \<Longrightarrow> \<forall>out. l \<noteq> Transmitted out" by auto
  then show ?case
    using abs_does.hyps(2) by (cases l) (auto simp: frame_step_def split: if_splits list.splits)
qed simp_all

text \<open>C7. It does not matter which workers the kernel gives the datagrams to: when one worker has handled the first
  registration of an identifier, a datagram with that identifier that any worker handles later is in
  the next frame that worker transmits, whole and for the endpoint registered.\<close>

theorem mmsg_registration_shared:
  assumes "\<forall>t < unat threads. io_worker_init z k_mmsg_capacity t (c t) (p t) = Inr (ios t)"
    and "pool_run mmsg_call (unat threads) (pool_start threads (mmsg_thread_start \<circ> ios))
      (xs @ (t, Does (Client_handled src bs)) # ys @ (u, Does (Peer_handled msg)) # zs @ [(u, Does (Transmitted out))]) w"
    and "length bs = 8" and "8 \<le> length msg" and "take 8 msg = bs"
    and "\<forall>(s, b) \<in> set (clients_in handled_clients xs). length b = 8 \<longrightarrow> load_le b \<noteq> load_le bs"
    and "\<forall>o'. (u, Does (Transmitted o')) \<notin> set zs"
  shows "(src, msg) \<in> set out"
proof -
  have good: "\<forall>t < unat threads. mmsg_good t ((mmsg_thread_start \<circ> ios) t)"
    using assms(1) mmsg_start_good by (metis comp_apply)
  let ?ls = "xs @ (t, Does (Client_handled src bs)) # ys"
  from mt.threads_refine(1) [OF good assms(2)] obtain m vs b where
    run: "abs_pool_run frame_step (Map.empty, mmsg_view \<circ> (mmsg_thread_start \<circ> ios)) ?ls (m, vs)"
      "abs_pool_run frame_step (m, vs) ((u, Does (Peer_handled msg)) # zs @ [(u, Does (Transmitted out))]) b"
    using abs_pool_append [of frame_step _ ?ls] by force
  have "m = spec_clients (clients_in handled_clients ?ls) Map.empty" using mt.abs_pool_table [OF run(1)] by simp
  then have m: "m (load_le bs) = Some src" using spec_clients_first [OF assms(3,6)] by simp
  from run(2) obtain c d where steps: "abs_pool_run frame_step (m, vs) [(u, Does (Peer_handled msg))] c"
    "abs_pool_run frame_step c zs d" "abs_pool_run frame_step d [(u, Does (Transmitted out))] b"
    using abs_pool_append [of frame_step "(m, vs)" "[(u, Does (Peer_handled msg))]" "zs @ [(u, Does (Transmitted out))]" b]
      abs_pool_append [of frame_step _ zs "[(u, Does (Transmitted out))]" b] by auto
  have "(src, msg) \<in> set (to_send (snd c u))"
    using steps(1) m assms(4,5) by (auto simp: abs_pool_one frame_step_def spec_peer_def split: list.splits if_splits)
  then have "(src, msg) \<in> set (to_send (snd d u))" by (rule to_send_keeps [OF steps(2) _ assms(7)])
  with steps(3) show ?thesis by (cases d) (auto simp: abs_pool_one frame_step_def split: if_splits)
qed

section \<open>Two workers\<close>

text \<open>A client registers at worker 0, a peer's datagram comes to worker 1.\<close>

definition one_datagram :: "u64 \<Rightarrow> u8 list \<Rightarrow> u64 recv_call" where
  "one_datagram src bs v mem = \<lparr>received = 1, from_addresses = (addresses v)[0 := src],
     lengths = map (\<lambda>_. of_nat (length bs)) (messages v), memory = mem_of bs\<rparr>"

definition client_kernel :: "u64 kernel" where
  "client_kernel = idle_kernel\<lparr>client_ready := True, client_recvmmsg := one_datagram 11 (store_le 8 1)\<rparr>"

definition peer_kernel :: "u64 kernel" where
  "peer_kernel = idle_kernel\<lparr>peer_ready := True, peer_recvmmsg := one_datagram 12 (store_le 8 1 @ [100])\<rparr>"

lemma two_kernels_ok: "kernel_ok 65536 client_kernel" "kernel_ok 65536 peer_kernel"
  by (auto simp: kernel_ok_def client_kernel_def peer_kernel_def one_datagram_def idle_kernel_def recv_ok_def
      send_ok_def arrays_ok_def)

lemma one_datagram_delivered:
  assumes "arrays_ok 65536 v" and "length bs < 2 ^ 32"
  shows "delivered (one_datagram src bs v mem) = [(src, bs)]"
  using assms by (simp add: one_datagram_def delivered_def arrays_ok_def unat_of_nat)

lemma two_kernels_arrivals:
  assumes "worker_ok 65536 (lib r)"
  shows "arrivals client_kernel r = ([(11, store_le 8 1)], [])" "arrivals peer_kernel r = ([], [store_le 8 1 @ [100]])"
  using assms by (simp_all add: arrivals_def Let_def client_kernel_def peer_kernel_def idle_kernel_def worker_ok_def
      one_datagram_delivered del: store_le.simps)

definition two_worker_run :: "(nat \<times> u64 activity pool_label) list" where
  "two_worker_run = [(0, Starts), (1, Starts)]
     @ map (\<lambda>a. (0, Does a)) [Quiet, Client_batch [(11, store_le 8 1)], Client_handled 11 (store_le 8 1), Quiet, Quiet, Quiet,
         Transmitted []]
     @ map (\<lambda>a. (1, Does a)) [Quiet, Quiet, Peer_batch [store_le 8 1 @ [100]], Peer_handled (store_le 8 1 @ [100]), Quiet, Quiet,
         Transmitted [(11, store_le 8 1 @ [100])]]"

lemma two_workers_run:
  "\<exists>ios w. (\<forall>t < unat (2 :: u16). io_worker_init (0 :: u64) k_mmsg_capacity t 3 4 = Inr (ios t))
     \<and> pool_run mmsg_call (unat (2 :: u16)) (pool_start 2 (mmsg_thread_start \<circ> ios)) two_worker_run w"
proof -
  define ios where "ios t = projr (io_worker_init (0 :: u64) k_mmsg_capacity t 3 4)" for t
  have ios: "io_worker_init (0 :: u64) k_mmsg_capacity t 3 4 = Inr (ios t)" "worker_ok 65536 (ios t)" for t
    using io_worker_init_ok [of 65536 "0 :: u64" t 3 4] by (auto simp: ios_def k_mmsg_capacity_def)
  let ?w = "two_running (mmsg_thread_start \<circ> ios) :: (u64, u64 mmsg_thread) thread_pool"
  have w: "registered (common ?w) = Map.empty" "thread_ok 0 (common ?w)" "thread_ok 1 (common ?w)" "running ?w = {0, 1}"
    "\<And>t. own ?w t = mmsg_thread_start (ios t)"
    by (simp_all add: two_running_def relay_init_def registered_def thread_ok_def fun_eq_iff)
  have at_top: "thread_io (mmsg_thread_start io) = io" "thread_stage (mmsg_thread_start io) = Loop_top" for io :: "u64 io_worker"
    by (simp_all add: mmsg_thread_start_def)
  obtain w3 where w3: "pool_run mmsg_call 2 ?w (map (\<lambda>a. (0, Does a)) (frame_activity client_kernel ([(11, store_le 8 1)], []) [])) w3"
    "registered (common w3) = [1 \<mapsto> 11]" "running w3 = {0, 1}" "own w3 1 = mmsg_thread_start (ios 1)"
    using frame_in_pool [of 0 ?w client_kernel 2] two_kernels_ok(1) w ios(2) at_top
      two_kernels_arrivals(1) [of "join_lib (common ?w) (ios 0)"]
    by (auto simp: spec_clients_def spec_client_def simp del: store_le.simps)
  have good: "\<forall>t < unat (2 :: u16). mmsg_good t ((mmsg_thread_start \<circ> ios) t)" using ios(1) mmsg_start_good by fastforce
  have run3: "pool_run mmsg_call 2 (pool_start 2 (mmsg_thread_start \<circ> ios)) ([(0, Starts), (1, Starts)]
      @ map (\<lambda>a. (0, Does a)) (frame_activity client_kernel ([(11, store_le 8 1)], []) [])) w3"
    by (rule pool_run_append [OF w3(1) two_start])
  then have "mt.pool_ok 2 w3" using mt.threads_refine(3) [OF good] by (simp add: comp_def)
  then have "thread_ok 1 (common w3)" using w3(3) by (simp add: mt.pool_ok_def)
  then obtain w4 where
    "pool_run mmsg_call 2 w3 (map (\<lambda>a. (1, Does a)) (frame_activity peer_kernel ([], [store_le 8 1 @ [100]]) [(11, store_le 8 1 @ [100])])) w4"
    using frame_in_pool [of 1 w3 peer_kernel 2] two_kernels_ok(2) w3 ios(2) at_top
      two_kernels_arrivals(2) [of "join_lib (common w3) (ios 1)"]
    by (auto simp: spec_clients_def spec_peer_def simp del: store_le.simps)
  from pool_run_append [OF this run3] have "pool_run mmsg_call 2 (pool_start 2 (mmsg_thread_start \<circ> ios)) two_worker_run w4"
    by (simp add: two_worker_run_def frame_activity_def client_activity_def peer_activity_def client_kernel_def
        peer_kernel_def idle_kernel_def del: store_le.simps)
  with ios(1) show ?thesis by auto
qed

lemma mmsg_workers_refine_witness:
  "\<exists>ios w. pool_run mmsg_call 2 (pool_start 2 (mmsg_thread_start \<circ> ios)) two_worker_run w
     \<and> registered (common w) = spec_clients [(11 :: u64, store_le 8 1)] Map.empty"
proof -
  obtain ios w where w: "\<forall>t < unat (2 :: u16). io_worker_init (0 :: u64) k_mmsg_capacity t 3 4 = Inr (ios t)"
    "pool_run mmsg_call (unat (2 :: u16)) (pool_start 2 (mmsg_thread_start \<circ> ios)) two_worker_run w"
    using two_workers_run by blast
  have "registered (common w) = spec_clients (clients_in handled_clients two_worker_run) Map.empty"
    using mmsg_workers_refine [where c = "\<lambda>_. 3" and p = "\<lambda>_. 4", OF w] by blast
  moreover have "clients_in handled_clients two_worker_run = [(11, store_le 8 1)]"
    by (simp add: two_worker_run_def del: store_le.simps)
  ultimately show ?thesis using w(2) by auto
qed

lemma mmsg_registration_shared_witness:
  "\<exists>xs ys zs out. two_worker_run = xs @ (0, Does (Client_handled 11 (store_le 8 1))) # ys
       @ (1, Does (Peer_handled (store_le 8 1 @ [100]))) # zs @ [(1, Does (Transmitted out))]
     \<and> (11, store_le 8 1 @ [100]) \<in> set out"
proof -
  obtain ios w where w: "\<forall>t < unat (2 :: u16). io_worker_init (0 :: u64) k_mmsg_capacity t 3 4 = Inr (ios t)"
    "pool_run mmsg_call (unat (2 :: u16)) (pool_start 2 (mmsg_thread_start \<circ> ios)) two_worker_run w"
    using two_workers_run by blast
  define xs :: "(nat \<times> u64 activity pool_label) list" where
    "xs = [(0, Starts), (1, Starts), (0, Does Quiet), (0, Does (Client_batch [(11, store_le 8 1)]))]"
  define ys :: "(nat \<times> u64 activity pool_label) list" where
    "ys = [(0, Does Quiet), (0, Does Quiet), (0, Does Quiet), (0, Does (Transmitted [])), (1, Does Quiet), (1, Does Quiet),
      (1, Does (Peer_batch [store_le 8 1 @ [100]]))]"
  define zs :: "(nat \<times> u64 activity pool_label) list" where "zs = [(1, Does Quiet), (1, Does Quiet)]"
  let ?out = "[(11 :: u64, store_le 8 1 @ [100])]"
  have split: "two_worker_run = xs @ (0, Does (Client_handled 11 (store_le 8 1))) # ys
       @ (1, Does (Peer_handled (store_le 8 1 @ [100]))) # zs @ [(1, Does (Transmitted ?out))]"
    by (simp add: two_worker_run_def xs_def ys_def zs_def del: store_le.simps)
  have "(11 :: u64, store_le 8 1 @ [100]) \<in> set ?out"
    by (rule mmsg_registration_shared [where c = "\<lambda>_. 3" and p = "\<lambda>_. 4", OF w(1) w(2) [unfolded split]])
      (simp_all add: xs_def zs_def del: store_le.simps)
  with split show ?thesis by blast
qed

end
