(* ===== verification/Event_Loop_Threads.thy ===== *)
theory Event_Loop_Threads
  imports Uring Libuv Thread_Pool
begin

text \<open>
  The uring and the libuv experiment with all their threads, as interpretations of the locale
  \<open>relay_threads\<close>: a thread is a ring with its context (theory \<open>Uring\<close>), or a libuv loop with its
  buffers (theory \<open>Libuv\<close>), and the relay is shared.
\<close>

section \<open>Rings\<close>

record 'ep ring_thread =
  ring_context :: "'ep listen_context"
  ring_pending :: "sqe list"
  ring_completed :: "cqe list"

text \<open>The ring of a thread with the shared relay, and back.\<close>

definition as_ring :: "('ep, 'ep ring_thread) relay \<Rightarrow> 'ep ring_world" where
  "as_ring r = \<lparr>urelay = join_lib r (ring_context (lib r)), pending = ring_pending (lib r), completed = ring_completed (lib r)\<rparr>"

definition ring_state :: "'ep ring_world \<Rightarrow> 'ep ring_thread" where
  "ring_state w = \<lparr>ring_context = ctx w, ring_pending = pending w, ring_completed = completed w\<rparr>"

inductive uring_call :: "nat \<Rightarrow> ('ep, 'ep ring_thread) relay \<Rightarrow> 'ep ring_label \<Rightarrow> ('ep, 'ep ring_thread) relay \<Rightarrow> bool" where
  ring_steps: "ring_step t (as_ring r) l w \<Longrightarrow> uring_call t r l (join_lib (urelay w) (ring_state w))"

definition ring_good :: "nat \<Rightarrow> 'ep ring_thread \<Rightarrow> bool" where
  "ring_good t s \<longleftrightarrow> ops_ok (ring_context s) (ring_pending s @ submission (ring_context s)) (ring_completed s)
     \<and> census_ok (ring_context s) (in_flight (ring_pending s @ submission (ring_context s)) (ring_completed s))"

definition ring_view :: "'ep ring_thread \<Rightarrow> 'ep datagram list \<times> ('ep \<times> u8 list) multiset" where
  "ring_view s = (inbox (ring_context s) (ring_completed s),
     outgoing (ring_context s) (ring_pending s @ submission (ring_context s)))"

fun handled_datagrams :: "'ep ring_label \<Rightarrow> ('ep \<times> u8 list) list" where
  "handled_datagrams (Handle (Client_dgram src bs)) = [(src, bs)]"
| "handled_datagrams _ = []"

lemma as_ring_simps [simp]:
  "ctx (as_ring r) = ring_context (lib r)" "pending (as_ring r) = ring_pending (lib r)"
  "completed (as_ring r) = ring_completed (lib r)" "thread_ok t (urelay (as_ring r)) = thread_ok t r"
  "registered (urelay (as_ring r)) = registered r" "per_thread_statistics (urelay (as_ring r)) = per_thread_statistics r"
  "this_thread_statistics (urelay (as_ring r)) = this_thread_statistics r"
  by (simp_all add: as_ring_def)

lemma ring_state_as_ring [simp]: "ring_state (as_ring r) = lib r"
  by (simp add: ring_state_def)

lemma ring_good_ok: "ring_ok t (as_ring r) \<longleftrightarrow> thread_ok t r \<and> ring_good t (lib r)"
  by (simp add: ring_ok_def ring_good_def operations_def)

lemma ring_good_state: "ring_ok t w \<Longrightarrow> ring_good t (ring_state w)"
  by (simp add: ring_ok_def ring_good_def operations_def ring_state_def)

lemma ring_view_abs:
  "abs_ring (as_ring r) = (registered r, ring_view (lib r))"
  "abs_ring w = (registered (urelay w), ring_view (ring_state w))"
  by (simp_all add: abs_ring_def ring_view_def operations_def ring_state_def)

lemma ring_table: "abs_step (m, v) l (m', v') \<Longrightarrow> m' = spec_clients (handled_datagrams l) m"
  by (cases rule: abs_step.cases) (auto simp: spec_clients_def)

lemma with_lib_threads: "with_lib f r = Inr r' \<Longrightarrow> same_threads r r'"
  by (auto simp: with_lib_def)

lemma uring_start_send_threads: "uring_start_send t s p r = Inr r' \<Longrightarrow> same_threads r r'"
  by (auto simp: uring_start_send_def)

lemma handle_cqe_threads:
  assumes "handle_cqe t c r = Inr r'"
  shows "same_threads r r'"
proof -
  have peer: "same_threads r r1" if "on_peer_received uring_lib t p r = Inr (b, r1)" for p b r1
    by (rule peer_threads [OF _ that]) (simp add: uring_lib_def uring_start_send_threads)
  have tick: "same_threads r r1" if "on_statistics_tick statistics_print_interval r = Inr (line, r1)" for line r1
    by (rule tick_threads [OF _ that]) (simp add: statistics_print_interval_def)
  show ?thesis
    using assms
    by (auto simp: handle_cqe_def Let_def split: ring_event_type.splits if_splits prod.splits
        dest!: with_lib_threads peer client_threads sent_threads tick intro: same_threads_trans)
qed

lemma ring_step_threads:
  assumes "ring_step t w l w'"
  shows "same_threads (urelay w) (urelay w')"
  using assms by cases (auto simp: set_ctx_def complete_def handle_cqe_threads)

interpretation rt: relay_threads uring_call ring_good abs_step ring_view handled_datagrams
proof unfold_locales
  fix t and r r' :: "('ep, 'ep ring_thread) relay" and l
  assume ok: "thread_ok t r" "ring_good t (lib r)" and "uring_call t r l r'"
  from this(3) show "ring_good t (lib r') \<and> same_threads r r' \<and> abs_step (registered r, ring_view (lib r)) l (registered r', ring_view (lib r'))"
  proof cases
    case (ring_steps w)
    have "ring_ok t (as_ring r)" using ok by (simp add: ring_good_ok)
    from ring_step_simulates [OF ring_steps(2) this] ring_step_threads [OF ring_steps(2)] show ?thesis
      by (simp add: ring_steps(1) ring_good_state ring_view_abs same_threads_def)
  qed
qed (rule ring_table)

section \<open>libuv loops\<close>

lemma start_send_threads: "start_send send t s p r = Inr r' \<Longrightarrow> same_threads r r'"
  by (auto simp: start_send_def Let_def split: option.splits if_splits)

lemma release_last_threads: "release_last r = Inr r' \<Longrightarrow> same_threads r r'"
  by (auto simp: release_last_def)

lemma client_recv_cb_threads: "client_recv_cb send t nread buf src flags r = Inr r' \<Longrightarrow> same_threads r r'"
  by (auto simp: client_recv_cb_def dest!: client_threads release_last_threads split: if_splits intro: same_threads_trans)

lemma peer_recv_cb_threads:
  assumes "peer_recv_cb send t nread buf src flags r = Inr r'"
  shows "same_threads r r'"
proof -
  have peer: "same_threads r r1" if "on_peer_received (libuv_lib send) t p r = Inr (b, r1)" for p b r1
    by (rule peer_threads [OF _ that]) (simp add: libuv_lib_def start_send_threads)
  show ?thesis
    using assms
    by (auto simp: peer_recv_cb_def dest!: peer release_last_threads split: if_splits option.splits intro: same_threads_trans)
qed

lemma send_cb_threads:
  assumes "send_cb t q status r = Inr r'"
  shows "same_threads r r'"
proof -
  have "same_threads r (r1\<lparr>lib := th\<rparr>)" if "on_session_sent f t k r = Inr r1" for f k r1 th
    using sent_threads [OF that] by (simp add: same_threads_def)
  then show ?thesis using assms by (auto simp: send_cb_def Let_def split: option.splits if_splits)
qed

lemma chunk_callbacks_threads:
  assumes cb: "\<And>n b s fl r r'. cb n b s fl r = Inr r' \<Longrightarrow> same_threads r r'" and "chunk_callbacks cb b k ds r = Inr r'"
  shows "same_threads r r'"
  using assms(2)
proof (induction ds arbitrary: k r)
  case (Cons d ds)
  obtain src bs where "d = (src, bs)" by (cases d)
  with Cons.prems obtain r1 where r1: "cb (int (length bs)) (b, k * slot_bytes) src UV_UDP_MMSG_CHUNK r = Inr r1"
    "chunk_callbacks cb b (k + 1) ds r1 = Inr r'" by auto
  show ?case by (rule same_threads_trans [OF cb [OF r1(1)] Cons.IH [OF r1(2)]])
qed simp

lemma uv_receive_threads:
  assumes cb: "\<And>n b s fl r r'. cb n b s fl r = Inr r' \<Longrightarrow> same_threads r r'" and "uv_receive m z cb ds r = Inr r'"
  shows "same_threads r r'"
proof -
  obtain b len th where "alloc_buffer m (lib r) = ((b, len), th)" by (metis surj_pair)
  then obtain l where recv: "uv_receive m z cb ds r = (if m
         then (if ds = [] then cb 0 (b, 0) z 0 (r\<lparr>lib := l\<rparr>)
               else bindR (chunk_callbacks cb b 0 ds (r\<lparr>lib := l\<rparr>)) (cb 0 (b, 0) z UV_UDP_MMSG_FREE))
         else (case ds of
                [] \<Rightarrow> cb 0 (b, 0) z 0 (r\<lparr>lib := l\<rparr>)
              | (src, bs) # _ \<Rightarrow> cb (int (length bs)) (b, 0) src 0 (r\<lparr>lib := l\<rparr>)))"
    unfolding uv_receive_def Let_def by fastforce
  have chunks: "same_threads r1 r2" if "chunk_callbacks cb b 0 ds r1 = Inr r2" for r1 r2
    by (rule chunk_callbacks_threads [OF _ that]) (rule cb)
  have "same_threads (r\<lparr>lib := l\<rparr>) r'"
    using trans [OF sym [OF recv] assms(2)]
    by (auto split: if_splits list.splits intro: same_threads_trans dest!: chunks cb)
  then show ?thesis by (simp add: same_threads_def)
qed

lemma uv_step_threads:
  assumes "uv_step m send z t r l r'"
  shows "same_threads r r'"
  using assms
proof cases
  case (clients ds)
  show ?thesis by (rule uv_receive_threads [OF client_recv_cb_threads clients(3)])
next
  case (peers ds)
  show ?thesis by (rule uv_receive_threads [OF peer_recv_cb_threads peers(3)])
next
  case (sent q)
  from send_cb_threads [OF sent(3)] show ?thesis by (simp add: same_threads_def)
qed

fun handled_batch :: "'ep uv_label \<Rightarrow> ('ep \<times> u8 list) list" where
  "handled_batch (From_clients ds) = ds"
| "handled_batch _ = []"

lemma uv_table: "uv_abs_step (m, v) l (m', v') \<Longrightarrow> m' = spec_clients (handled_batch l) m"
  by (cases l) (auto simp: spec_clients_def elim: uv_abs_step.cases)

text \<open>A libuv thread satisfies the locale for every \<open>uv_udp_send\<close> that does not fail.\<close>

lemma uv_relay_threads:
  assumes "\<forall>a p. 0 \<le> send a p"
  shows "relay_threads (uv_step m send z) (\<lambda>_. buffers_ok m {}) uv_abs_step (\<lambda>th. mset (uv_outbox th)) handled_batch"
proof unfold_locales
  fix t and r r' :: "('a, 'a uv_thread) relay" and l
  assume ok: "thread_ok t r" "buffers_ok m {} (lib r)" and step: "uv_step m send z t r l r'"
  have "uv_ok m t r" using ok by (simp add: uv_ok_def)
  from uv_step_simulates [OF step this assms] uv_step_threads [OF step]
  show "buffers_ok m {} (lib r') \<and> same_threads r r'
    \<and> uv_abs_step (registered r, mset (uv_outbox (lib r))) l (registered r', mset (uv_outbox (lib r')))"
    by (simp add: uv_ok_def uv_abs_def)
qed (rule uv_table)

lemma thread_init_buffers: "buffers_ok m {} (thread_init :: 'ep uv_thread)" "uv_outbox thread_init = []"
proof -
  define r :: "('ep, 'ep uv_thread) relay" where "r = (relay_init 1 thread_init)\<lparr>this_thread_statistics := [0 \<mapsto> 0]\<rparr>"
  have "on_thread_start 0 0 (relay_init 1 thread_init) = Inr r"
    by (simp add: r_def on_thread_start_def relay_init_def)
  from thread_init_ok(1) [OF this, of m] show "buffers_ok m {} (thread_init :: 'ep uv_thread)"
    by (simp add: uv_ok_def r_def relay_init_def)
  show "uv_outbox thread_init = []" by (simp add: uv_outbox_def thread_init_def)
qed

section \<open>Properties\<close>

text \<open>C8. All the threads of the uring experiment are one relay: from any start of the workers, in any interleaving
  of their loops and whatever the kernel does, each ring does what the abstract relay does with
  its own datagrams and one table for all, the table holds what all of them registered, and a peer
  datagram that any worker handles next adds to its sends exactly what that table says.\<close>

theorem uring_threads_refine:
  assumes "\<forall>t < unat threads. uring_worker_start z t t (relay_init threads l0) (os t) [] = (Inr (r t), calls t)"
    and "pool_run uring_call (unat threads) (pool_start threads (\<lambda>t. ring_state (ring_start (r t)))) ls w"
  shows "(\<forall>t < unat threads. ring_view (ring_state (ring_start (r t))) = ([], {#}))
    \<and> abs_pool_run abs_step (Map.empty, \<lambda>t. ring_view (ring_state (ring_start (r t)))) ls
        (registered (common w), \<lambda>t. ring_view (own w t))
    \<and> registered (common w) = spec_clients (clients_in handled_datagrams ls) Map.empty
    \<and> (\<forall>t msg w'. pool_step uring_call (unat threads) w (t, Does (Handle (Peer_dgram msg))) w' \<longrightarrow>
        snd (ring_view (own w' t)) = snd (ring_view (own w t))
          + mset (spec_peers (spec_clients (clients_in handled_datagrams ls) Map.empty) [msg]))"
proof (intro conjI allI impI)
  have start: "ring_ok t (ring_start (r t)) \<and> abs_ring (ring_start (r t)) = (Map.empty, [], {#})" if "t < unat threads" for t
    using uring_worker_start_result [OF that assms(1) [rule_format, OF that]] by blast
  then show "ring_view (ring_state (ring_start (r t))) = ([], {#})" if "t < unat threads" for t
    using that by (simp add: ring_view_abs(2))
  have "\<forall>t < unat threads. ring_good t (ring_state (ring_start (r t)))" using start ring_good_state by blast
  note run = rt.threads_refine [OF this assms(2)]
  show "abs_pool_run abs_step (Map.empty, \<lambda>t. ring_view (ring_state (ring_start (r t)))) ls
      (registered (common w), \<lambda>t. ring_view (own w t))" using run(1) by (simp add: comp_def)
  show table: "registered (common w) = spec_clients (clients_in handled_datagrams ls) Map.empty" by (rule run(2))
  fix t msg w' assume "pool_step uring_call (unat threads) w (t, Does (Handle (Peer_dgram msg))) w'"
  then have "abs_step (registered (common w), ring_view (own w t)) (Handle (Peer_dgram msg)) (registered (common w'), ring_view (own w' t))"
    by (rule rt.thread_simulates [OF run(3)])
  then show "snd (ring_view (own w' t)) = snd (ring_view (own w t))
      + mset (spec_peers (spec_clients (clients_in handled_datagrams ls) Map.empty) [msg])"
    unfolding table by (auto elim: abs_step.cases)
qed

text \<open>So are all the threads of the libuv experiment, with and without recvmmsg, each batch being one step.
  Every event that libuv can raise on a running thread is handled.\<close>

theorem libuv_threads_refine:
  fixes w :: "('ep, 'ep uv_thread) thread_pool"
  assumes "\<forall>a p. 0 \<le> send a p"
    and "pool_run (uv_step m send z) (unat threads) (pool_start threads (\<lambda>_. thread_init)) ls w"
  shows "abs_pool_run uv_abs_step (Map.empty, \<lambda>_. {#}) ls (registered (common w), \<lambda>t. mset (uv_outbox (own w t)))
    \<and> registered (common w) = spec_clients (clients_in handled_batch ls) Map.empty
    \<and> (\<forall>t ds w'. pool_step (uv_step m send z) (unat threads) w (t, Does (From_peers ds)) w' \<longrightarrow>
        mset (uv_outbox (own w' t)) = mset (uv_outbox (own w t))
          + mset (spec_peers (spec_clients (clients_in handled_batch ls) Map.empty) (map snd ds)))
    \<and> (\<forall>t \<in> running w. \<forall>ds. batch_ok m ds \<longrightarrow>
        (\<exists>w'. pool_step (uv_step m send z) (unat threads) w (t, Does (From_clients ds)) w')
      \<and> (\<exists>w'. pool_step (uv_step m send z) (unat threads) w (t, Does (From_peers ds)) w'))"
proof (intro conjI allI impI ballI)
  note T = uv_relay_threads [OF assms(1), of m z]
  have "\<forall>t < unat threads. buffers_ok m {} thread_init" using thread_init_buffers by blast
  note run = relay_threads.threads_refine [OF T this assms(2)]
  show "abs_pool_run uv_abs_step (Map.empty, \<lambda>_. {#}) ls (registered (common w), \<lambda>t. mset (uv_outbox (own w t)))"
    using run(1) by (simp add: comp_def thread_init_buffers(2))
  show table: "registered (common w) = spec_clients (clients_in handled_batch ls) Map.empty" by (rule run(2))
  show "mset (uv_outbox (own w' t)) = mset (uv_outbox (own w t))
      + mset (spec_peers (spec_clients (clients_in handled_batch ls) Map.empty) (map snd ds))"
    if "pool_step (uv_step m send z) (unat threads) w (t, Does (From_peers ds)) w'" for t ds w'
    using relay_threads.thread_simulates [OF T run(3) that] unfolding table by simp
  fix t and ds :: "('ep \<times> u8 list) list" assume t: "t \<in> running w" and ds: "batch_ok m ds"
  have "uv_ok m t (seen_by t w)"
    using run(3) t by (auto simp: relay_threads.pool_ok_def [OF T] uv_ok_def seen_by_def)
  note next_event = uv_progress(1,2) [OF this assms(1) ds, of z]
  then show "\<exists>w'. pool_step (uv_step m send z) (unat threads) w (t, Does (From_clients ds)) w'"
    "\<exists>w'. pool_step (uv_step m send z) (unat threads) w (t, Does (From_peers ds)) w'"
    using does [where step = "uv_step m send z", OF t] by blast+
qed


section \<open>Witnesses\<close>

text \<open>A run of one ring is a run of the pool in which only that thread does something.\<close>

lemma ring_world_eq: "as_ring (join_lib (urelay w) (ring_state w)) = w"
  by (cases w) (simp add: as_ring_def ring_state_def join_lib_def)

lemma ring_run_in_pool:
  assumes "ring_run t w0 ls w1" and "t \<in> running p" and "seen_by t p = join_lib (urelay w0) (ring_state w0)"
  shows "\<exists>p'. pool_run uring_call n p (map (\<lambda>l. (t, Does l)) ls) p' \<and> running p' = running p
     \<and> seen_by t p' = join_lib (urelay w1) (ring_state w1)"
  using assms
proof (induction rule: ring_run.induct)
  case (run_start w)
  then show ?case by (auto intro: pool_stay)
next
  case (run_step w ls w1 l w2)
  then obtain p1 where p1: "pool_run uring_call n p (map (\<lambda>l. (t, Does l)) ls) p1" "running p1 = running p"
    "seen_by t p1 = join_lib (urelay w1) (ring_state w1)" by blast
  have "uring_call t (seen_by t p1) l (join_lib (urelay w2) (ring_state w2))"
    using run_step.hyps(2) by (intro ring_steps) (simp add: p1(3) ring_world_eq)
  from pool_more [OF p1(1) does [where step = uring_call, OF _ this]] show ?case
    using p1(2) run_step.prems(1) by (auto simp: seen_by_def)
qed

definition demo_label :: "u64 ring_label list" where
  "demo_label = [Internal, Deliver (Client_dgram 11 (store_le 8 1)), Handle (Client_dgram 11 (store_le 8 1))]"

lemma demo_ring_pool:
  "\<exists>w. pool_run uring_call 1 (pool_start 1 (\<lambda>_. ring_state (ring_start demo_ring)))
     ((0, Starts) # map (\<lambda>l. (0, Does l)) demo_label) w"
proof -
  let ?start = "pool_start 1 (\<lambda>_. ring_state (ring_start demo_ring))"
  let ?w = "?start\<lparr>common := (relay_init 1 ())\<lparr>this_thread_statistics := [0 \<mapsto> 0]\<rparr>, running := {0}\<rparr>"
  have "pool_step uring_call 1 ?start (0, Starts) ?w"
    using starts [of 0 1 ?start "(relay_init 1 ())\<lparr>this_thread_statistics := [0 \<mapsto> 0]\<rparr>" uring_call]
    by (simp add: pool_start_def on_thread_start_def relay_init_def)
  from pool_more [OF pool_stay this] have start: "pool_run uring_call 1 ?start [(0, Starts)] ?w" by simp
  obtain w1 where "ring_run 0 (ring_start demo_ring) demo_label w1"
    unfolding demo_label_def using demo_ring_run by blast
  from ring_run_in_pool [OF this, of ?w 1] obtain w where
    "pool_run uring_call 1 ?w (map (\<lambda>l. (0, Does l)) demo_label) w"
    by (auto simp: seen_by_def pool_start_def ring_start_def demo_ring_def started_def relay_init_def join_lib_def ring_state_def)
  from pool_run_append [OF this start] show ?thesis by auto
qed

lemma uring_threads_refine_witness:
  "\<exists>w. pool_run uring_call 1 (pool_start 1 (\<lambda>_. ring_state (ring_start demo_ring)))
       ((0, Starts) # map (\<lambda>l. (0, Does l)) demo_label) w
     \<and> registered (common w) = spec_clients [(11 :: u64, store_le 8 1)] Map.empty"
proof -
  obtain calls where c: "uring_worker_start 0 0 0 (relay_init 1 (0 :: nat)) (\<lambda>_ _. 0) [] = (Inr demo_ring, calls)"
    using demo_ring_start by blast
  obtain w where w: "pool_run uring_call 1 (pool_start 1 (\<lambda>_. ring_state (ring_start demo_ring)))
      ((0, Starts) # map (\<lambda>l. (0, Does l)) demo_label) w" using demo_ring_pool by blast
  have "registered (common w) = spec_clients (clients_in handled_datagrams ((0, Starts) # map (\<lambda>l. (0, Does l)) demo_label)) Map.empty"
    using uring_threads_refine [where threads = 1 and z = 0 and ?l0.0 = "0 :: nat" and os = "\<lambda>_ _ _. 0"
        and r = "\<lambda>_. demo_ring" and calls = "\<lambda>_. calls" and w = w] c w by simp
  with w show ?thesis by (auto simp: demo_label_def simp del: store_le.simps)
qed

lemma libuv_threads_refine_witness:
  "\<exists>ls w. pool_run (uv_step True (\<lambda>_ _. 0) 0) 2 (pool_start 2 (\<lambda>_. thread_init)) ls w
     \<and> ls = [(0, Starts), (1, Starts), (0, Does (From_clients [(11, store_le 8 1)])), (1, Does (From_peers [(7 :: u64, store_le 8 1)]))]
     \<and> registered (common w) = spec_clients [(11, store_le 8 1)] Map.empty"
proof -
  let ?step = "uv_step True (\<lambda>(_ :: u64) _. 0) 0" and ?start = "pool_start 2 (\<lambda>_. thread_init)"
  have send: "\<forall>(a :: u64) (p :: uv_packet). (0 :: int) \<le> (\<lambda>_ _. 0) a p" by simp
  note all = libuv_threads_refine [where threads = 2, OF send, of True 0, simplified]
  have next_event: "(\<exists>w'. pool_step ?step 2 w (t, Does (From_clients [(src, store_le 8 1)])) w')
      \<and> (\<exists>w'. pool_step ?step 2 w (t, Does (From_peers [(src, store_le 8 1)])) w')"
    if "pool_run ?step 2 ?start ls w" "t \<in> running w" for t ls w src
  proof -
    have "batch_ok True [(src, store_le 8 1)]" by (simp add: batch_ok_def slot_bytes_def del: store_le.simps)
    with all [OF that(1)] that(2) show ?thesis by blast
  qed
  note w2 = two_start [of ?step "\<lambda>_. thread_init"]
  obtain w3 where w3: "pool_step ?step 2 (two_running (\<lambda>_. thread_init)) (0, Does (From_clients [(11, store_le 8 1)])) w3"
    using next_event [OF w2, of 0 11] by (auto simp: two_running_def)
  note r3 = pool_more [OF w2 w3]
  have "running w3 = {0, 1}" using w3 by cases (auto simp: two_running_def)
  then obtain w4 where w4: "pool_step ?step 2 w3 (1, Does (From_peers [(7, store_le 8 1)])) w4"
    using next_event [OF r3, of 1 7] by auto
  note r4 = pool_more [OF r3 w4]
  from all [OF this] have "registered (common w4) = spec_clients [(11, store_le 8 1)] Map.empty"
    by (simp del: store_le.simps)
  with r4 show ?thesis by (auto simp del: store_le.simps)
qed

end
