(* ===== verification/Unit_Tests.thy ===== *)
theory Unit_Tests
  imports Relay Session_Concurrency Intrusive_Stack
begin

text \<open>
  The unit tests of the repository, \<^verbatim>\<open>urn/relay.test.cpp\<close>, \<^verbatim>\<open>urn/intrusive_stack.test.cpp\<close> and
  \<^verbatim>\<open>urn/mutex.test.cpp\<close>, run on the model: a test is the list of its calls and checks, and every check
  holds. The library of the first is \<open>test_lib\<close> of theory \<open>Relay\<close>.
\<close>

section \<open>urn/relay.test.cpp\<close>

text \<open>\<open>Created\<close> is \<open>last_created()\<close>: the endpoint of the last session constructed since it was last
  asked for; the three flags are reset by asking, as \<open>std::exchange\<close> does.\<close>

datatype relay_test =
    Client_gets u64 "u8 list"
  | Peer_gets "u8 list" bool
  | Session_is_sent "u8 list"
  | Client_start_recv bool
  | Peer_start_recv bool
  | Created "u64 option"
  | Start_send u64 bool

fun relay_test_run :: "relay_test list \<Rightarrow> u64 option \<Rightarrow> (u64, test_state) relay \<Rightarrow> bool" where
  "relay_test_run [] made r \<longleftrightarrow> True"
| "relay_test_run (Client_gets src bs # ts) made r \<longleftrightarrow>
     (case on_client_received test_lib 0 src bs r of
        Inl e \<Rightarrow> False
      | Inr r' \<Rightarrow> relay_test_run ts
          (if length bs = 8 \<and> sessions r (load_le bs) = None \<and> sessions r' (load_le bs) \<noteq> None then Some src else made) r')"
| "relay_test_run (Peer_gets bs expected # ts) made r \<longleftrightarrow>
     (case on_peer_received test_lib 0 bs r of
        Inl e \<Rightarrow> False
      | Inr (b, r') \<Rightarrow> b = expected \<and> relay_test_run ts made r')"
| "relay_test_run (Session_is_sent bs # ts) made r \<longleftrightarrow>
     (case on_session_sent (peer_start_receive test_lib) 0 (packet_size test_lib bs) r of
        Inl e \<Rightarrow> False
      | Inr r' \<Rightarrow> relay_test_run ts made r')"
| "relay_test_run (Client_start_recv b # ts) made r \<longleftrightarrow>
     client_start_recv_invoked (lib r) = b \<and> relay_test_run ts made (r\<lparr>lib := (lib r)\<lparr>client_start_recv_invoked := False\<rparr>\<rparr>)"
| "relay_test_run (Peer_start_recv b # ts) made r \<longleftrightarrow>
     peer_start_recv_invoked (lib r) = b \<and> relay_test_run ts made (r\<lparr>lib := (lib r)\<lparr>peer_start_recv_invoked := False\<rparr>\<rparr>)"
| "relay_test_run (Created ep # ts) made r \<longleftrightarrow> made = ep \<and> relay_test_run ts None r"
| "relay_test_run (Start_send ep b # ts) made r \<longleftrightarrow>
     (\<lparr>client_endpoint = ep\<rparr> \<in> set (start_send_invoked (lib r))) = b
     \<and> relay_test_run ts made (r\<lparr>lib := (lib r)\<lparr>start_send_invoked := removeAll \<lparr>client_endpoint = ep\<rparr> (start_send_invoked (lib r))\<rparr>\<rparr>)"

text \<open>The sections of the test case; \<open>a_id\<close> and \<open>b_id\<close> are 1 and 2, \<open>a_src\<close> and \<open>b_src\<close> are 11 and 22.\<close>

definition word_data :: "u64 list \<Rightarrow> u8 list" where
  "word_data ws = concat (map (store_le 8) ws)"

definition registration :: "u64 \<Rightarrow> u64 \<Rightarrow> relay_test list" where
  "registration i src =
     [Client_gets src (word_data [i]), Client_start_recv True, Peer_start_recv True, Created (Some src)]"

definition relay_tests :: "relay_test list list" where
  "relay_tests =
    [[Client_gets 11 (word_data [1, 100]), Created None, Client_start_recv True, Peer_start_recv False],
     registration 1 11,
     [Client_gets 11 (word_data [1]), Created (Some 11), Client_gets 22 (word_data [1]), Created None],
     registration 1 11 @ registration 2 22,
     [Peer_gets [97] False, Client_start_recv False, Peer_start_recv True],
     registration 1 11 @ [Peer_gets (word_data [2, 100]) False, Peer_start_recv True, Start_send 11 False],
     registration 1 11 @ [Peer_gets (word_data [1, 100]) True, Start_send 11 True, Peer_start_recv False,
       Session_is_sent (word_data [1, 100]), Peer_start_recv True],
     registration 1 11 @ registration 2 22 @ [Peer_gets (word_data [1, 100]) True, Start_send 11 True,
       Start_send 22 False, Session_is_sent (word_data [1, 100]), Peer_start_recv True]]"

lemma word_data_simps [simp]:
  "length (word_data [i]) = 8" "length (word_data [i, j]) = 16" "load_le (word_data [i]) = i"
  "take 8 (word_data [i, j]) = store_le 8 i" "take 8 (word_data [i]) = store_le 8 i"
  by (simp_all add: word_data_def del: store_le.simps)

lemmas relay_test_eval = on_client_received_eq on_peer_received_def on_session_sent_def count_defs update_this_thread_def
  get_session_id_def find_session_def restart_peer_receive_def restart_client_receive_def test_lib_def test_relay_def
  relay_init_def test_init_def registration_def

lemma relay_tests_pass: "\<forall>ts \<in> set relay_tests. relay_test_run ts None test_relay"
  by (simp add: relay_tests_def relay_test_eval del: store_le.simps) (simp add: word_le_nat_alt)

section \<open>urn/intrusive_stack.test.cpp\<close>

datatype stack_test = Push_node nat | Pops "nat option" | Has_top "nat option" | Is_empty bool

fun stack_test_run :: "stack_test list \<Rightarrow> nat intrusive_stack \<Rightarrow> bool" where
  "stack_test_run [] s \<longleftrightarrow> True"
| "stack_test_run (Push_node n # ts) s \<longleftrightarrow>
     (case stack_push (Some n) s of Inl e \<Rightarrow> False | Inr s' \<Rightarrow> stack_test_run ts s')"
| "stack_test_run (Pops p # ts) s \<longleftrightarrow> fst (stack_try_pop s) = p \<and> stack_test_run ts (snd (stack_try_pop s))"
| "stack_test_run (Has_top p # ts) s \<longleftrightarrow> stack_top s = p \<and> stack_test_run ts s"
| "stack_test_run (Is_empty b # ts) s \<longleftrightarrow> stack_empty s = b \<and> stack_test_run ts s"

definition expect_empty :: "stack_test list" where
  "expect_empty = [Is_empty True, Has_top None, Pops None]"

definition expect_node :: "nat \<Rightarrow> stack_test list" where
  "expect_node n = [Is_empty False, Has_top (Some n), Pops (Some n)]"

definition stack_tests :: "stack_test list list" where
  "stack_tests =
    [[Push_node 1] @ expect_node 1,
     [Push_node 1, Push_node 2, Push_node 3] @ expect_node 3 @ expect_node 2 @ expect_node 1,
     [Push_node 1, Push_node 2] @ expect_node 2 @ [Push_node 3] @ expect_node 3 @ [Push_node 3]
       @ expect_node 3 @ expect_node 1]"

lemma stack_tests_pass:
  "\<forall>ts \<in> set stack_tests. stack_test_run (expect_empty @ ts @ expect_empty) (stack_init hooks)"
  by (simp add: stack_tests_def expect_empty_def expect_node_def stack_init_def stack_push_def stack_try_pop_def
      stack_top_def stack_empty_def Let_def)

section \<open>urn/mutex.test.cpp\<close>

text \<open>A guard takes and releases either mutex; the dummy one can be locked twice, the real one cannot.\<close>

lemma mutex_tests_pass:
  "map_option (unlock mt 0) (lock mt 0 \<lparr>writer = None, readers = {}\<rparr>) = Some \<lparr>writer = None, readers = {}\<rparr>"
  "Option.bind (lock False 0 \<lparr>writer = None, readers = {}\<rparr>) (lock False 0) \<noteq> None"
  "Option.bind (lock True 0 \<lparr>writer = None, readers = {}\<rparr>) (lock True 0) = None"
  by (simp_all add: lock_def unlock_def)

end
