(* ===== verification/Invoke.thy ===== *)
theory Invoke
  imports Urn_Prelude
begin

text \<open>
  The micro-benchmarks of \<^verbatim>\<open>bench/invoke.cpp\<close>: one computation reached through seven ways to call. The State
  of google benchmark is a parameter: it lies at an address, the loop over it has a memory for each pass, and
  \<open>iterations\<close> reads a counter of it. A benchmark gives the values that it hands to \<open>DoNotOptimize\<close>.
  What is shown is that they compare like with like: all of them compute the same values.
\<close>

type_synonym address = nat
type_synonym 'st memory = "address \<rightharpoonup> 'st"

definition deref :: "'st memory \<Rightarrow> address \<Rightarrow> 'st res" where
  "deref m a = (case m a of None \<Rightarrow> Inl Undefined_behaviour | Some s \<Rightarrow> Inr s)"

text \<open>\<open>r * state.iterations()\<close> in \<open>size_t\<close>, for the global \<open>r\<close>, through a reference to the State.\<close>

definition scaled_iterations :: "u64 \<Rightarrow> ('st \<Rightarrow> u64) \<Rightarrow> address \<Rightarrow> 'st memory \<Rightarrow> u64 res" where
  "scaled_iterations r iterations state m = bindR (deref m state) (\<lambda>s. Inr (r * iterations s))"

text \<open>\<open>for (auto _ : state) DoNotOptimize(...)\<close>\<close>

fun for_each_pass :: "('st memory \<Rightarrow> u64 res) \<Rightarrow> 'st memory list \<Rightarrow> u64 list res" where
  "for_each_pass call [] = Inr []"
| "for_each_pass call (m # ms) = bindR (call m) (\<lambda>v. bindR (for_each_pass call ms) (\<lambda>vs. Inr (v # vs)))"

section \<open>Static ways to call\<close>

text \<open>The lambda captures the reference, the object of the class \<open>op\<close> holds it, the static method gets it.\<close>

definition invoke_lambda :: "u64 \<Rightarrow> ('st \<Rightarrow> u64) \<Rightarrow> address \<Rightarrow> 'st memory list \<Rightarrow> u64 list res" where
  "invoke_lambda r iterations state ms = (let f = scaled_iterations r iterations state in for_each_pass f ms)"

record method_op =
  op_state :: address

definition method_run :: "u64 \<Rightarrow> ('st \<Rightarrow> u64) \<Rightarrow> method_op \<Rightarrow> 'st memory \<Rightarrow> u64 res" where
  "method_run r iterations op = scaled_iterations r iterations (op_state op)"

definition invoke_method :: "u64 \<Rightarrow> ('st \<Rightarrow> u64) \<Rightarrow> address \<Rightarrow> 'st memory list \<Rightarrow> u64 list res" where
  "invoke_method r iterations state ms =
     (let f = \<lparr>op_state = state\<rparr> in for_each_pass (method_run r iterations f) ms)"

definition static_run :: "u64 \<Rightarrow> ('st \<Rightarrow> u64) \<Rightarrow> address \<Rightarrow> 'st memory \<Rightarrow> u64 res" where
  "static_run r iterations state = scaled_iterations r iterations state"

definition invoke_static_method :: "u64 \<Rightarrow> ('st \<Rightarrow> u64) \<Rightarrow> address \<Rightarrow> 'st memory list \<Rightarrow> u64 list res" where
  "invoke_static_method r iterations state ms = for_each_pass (static_run r iterations state) ms"

section \<open>Virtual calls\<close>

text \<open>The classes derived from \<open>base_op\<close>: that of \<open>invoke_virtual_method\<close>, and the template \<open>op\<close>, whose
  object holds a function as well. A call of \<open>run\<close> goes by the class of the object.\<close>

datatype 'st base_op =
    Virtual_op address
  | Function_op "address \<Rightarrow> 'st memory \<Rightarrow> u64 res" address

fun virtual_run :: "u64 \<Rightarrow> ('st \<Rightarrow> u64) \<Rightarrow> 'st base_op \<Rightarrow> 'st memory \<Rightarrow> u64 res" where
  "virtual_run r iterations (Virtual_op state) m = scaled_iterations r iterations state m"
| "virtual_run r iterations (Function_op fn state) m = fn state m"

definition invoke_virtual_method :: "u64 \<Rightarrow> ('st \<Rightarrow> u64) \<Rightarrow> address \<Rightarrow> 'st memory list \<Rightarrow> u64 list res" where
  "invoke_virtual_method r iterations state ms =
     (let impl = Virtual_op state in for_each_pass (virtual_run r iterations impl) ms)"

definition invoke_virtual_method_with_lambda ::
  "u64 \<Rightarrow> ('st \<Rightarrow> u64) \<Rightarrow> address \<Rightarrow> 'st memory list \<Rightarrow> u64 list res" where
  "invoke_virtual_method_with_lambda r iterations state ms =
     (let impl = Function_op (\<lambda>state. scaled_iterations r iterations state) state
      in for_each_pass (virtual_run r iterations impl) ms)"

section \<open>Calls through a value\<close>

text \<open>A function pointer may be null, and a \<open>std::function\<close> empty, which throws.\<close>

definition call_pointer :: "(address \<Rightarrow> 'st memory \<Rightarrow> u64 res) option \<Rightarrow> address \<Rightarrow> 'st memory \<Rightarrow> u64 res" where
  "call_pointer fp state m = (case fp of None \<Rightarrow> Inl Null_deref | Some f \<Rightarrow> f state m)"

definition call_function :: "(address \<Rightarrow> 'st memory \<Rightarrow> u64 res) option \<Rightarrow> address \<Rightarrow> 'st memory \<Rightarrow> u64 res" where
  "call_function fn state m = (case fn of None \<Rightarrow> Inl (Runtime_error ''bad_function_call'') | Some f \<Rightarrow> f state m)"

definition invoke_function_ptr :: "u64 \<Rightarrow> ('st \<Rightarrow> u64) \<Rightarrow> address \<Rightarrow> 'st memory list \<Rightarrow> u64 list res" where
  "invoke_function_ptr r iterations state ms =
     (let fp = Some (scaled_iterations r iterations) in for_each_pass (call_pointer fp state) ms)"

definition invoke_std_function :: "u64 \<Rightarrow> ('st \<Rightarrow> u64) \<Rightarrow> address \<Rightarrow> 'st memory list \<Rightarrow> u64 list res" where
  "invoke_std_function r iterations state ms =
     (let f = Some (\<lambda>s. scaled_iterations r iterations s) in for_each_pass (call_function f state) ms)"

section \<open>What they compute\<close>

lemma for_each_pass_map:
  assumes "\<forall>m \<in> set ms. call m = Inr (val m)"
  shows "for_each_pass call ms = Inr (map val ms)"
  using assms by (induction ms) simp_all

text \<open>In the order of the file.\<close>

definition benchmarks :: "(u64 \<Rightarrow> ('st \<Rightarrow> u64) \<Rightarrow> address \<Rightarrow> 'st memory list \<Rightarrow> u64 list res) list" where
  "benchmarks = [invoke_lambda, invoke_method, invoke_static_method, invoke_virtual_method,
     invoke_virtual_method_with_lambda, invoke_function_ptr, invoke_std_function]"

lemma benchmarks_alike:
  assumes "b \<in> set benchmarks" and "\<forall>m \<in> set ms. state \<in> dom m"
  shows "b r iterations state ms = Inr (map (\<lambda>m. r * iterations (the (m state))) ms)"
proof -
  have "\<forall>m \<in> set ms. scaled_iterations r iterations state m = Inr (r * iterations (the (m state)))"
    using assms(2) by (auto simp: scaled_iterations_def deref_def)
  then show ?thesis
    using assms(1) unfolding benchmarks_def
    by (auto simp: invoke_lambda_def invoke_method_def method_run_def invoke_static_method_def static_run_def
        invoke_virtual_method_def invoke_virtual_method_with_lambda_def invoke_function_ptr_def call_pointer_def
        invoke_std_function_def call_function_def intro!: for_each_pass_map)
qed

end
