(* ===== verification/Relay_Object.thy ===== *)
theory Relay_Object
  imports Libuv_Setup Relay_Soundness
begin

text \<open>
  The class \<open>relay\<close> of \<^verbatim>\<open>libuv/relay.hpp\<close>: it owns the configuration, an address and the logic, an
  \<open>urn::relay\<close>, and passes every call of the event loops on to it. The classes of \<^verbatim>\<open>mmsg/relay.hpp\<close>,
  \<^verbatim>\<open>uring/relay.hpp\<close> and \<^verbatim>\<open>demi/relay.hpp\<close> are the same without the address. The other theories call the
  logic directly, which the lemmas here justify: the object makes the same calls on its logic, its
  constant members stay what they were, and the interval of the statistics is never zero.
\<close>

record ('ep, 'l) relay_object =
  object_config :: "u16 config"
  object_address :: "string \<times> u16"
  object_logic :: "('ep, 'l) relay"

text \<open>The members are initialised in the order of their declarations, so the logic gets the thread count
  of the configuration already copied.\<close>

definition object_construct :: "u16 config \<Rightarrow> 'l \<Rightarrow> ('ep, 'l) relay_object prog" where
  "object_construct conf l =
     bindP (make_ip4_addr_any_with_port (conf_client_port conf)) (\<lambda>address.
     returnP \<lparr>object_config = conf, object_address = address, object_logic = relay_init (conf_threads conf) l\<rparr>)"

definition with_logic ::
  "(('ep, 'l) relay \<Rightarrow> ('a \<times> ('ep, 'l) relay) res) \<Rightarrow> ('ep, 'l) relay_object \<Rightarrow> ('a \<times> ('ep, 'l) relay_object) res"
where
  "with_logic f obj = bindR (f (object_logic obj)) (\<lambda>(x, r). Inr (x, obj\<lparr>object_logic := r\<rparr>))"

definition returning_nothing :: "'s res \<Rightarrow> (unit \<times> 's) res" where
  "returning_nothing m = bindR m (\<lambda>s. Inr ((), s))"

definition object_on_thread_start :: "nat \<Rightarrow> u16 \<Rightarrow> ('ep, 'l) relay_object \<Rightarrow> (unit \<times> ('ep, 'l) relay_object) res" where
  "object_on_thread_start t thread_index =
     with_logic (\<lambda>logic. returning_nothing (on_thread_start t thread_index logic))"

definition object_on_client_received ::
  "('ep, 'p, 'l) library \<Rightarrow> nat \<Rightarrow> 'ep \<Rightarrow> 'p \<Rightarrow> ('ep, 'l) relay_object \<Rightarrow> (unit \<times> ('ep, 'l) relay_object) res"
where
  "object_on_client_received L t src packet =
     with_logic (\<lambda>logic. returning_nothing (on_client_received L t src packet logic))"

definition object_on_peer_received ::
  "('ep, 'p, 'l) library \<Rightarrow> nat \<Rightarrow> 'p \<Rightarrow> ('ep, 'l) relay_object \<Rightarrow> (bool \<times> ('ep, 'l) relay_object) res"
where
  "object_on_peer_received L t packet = with_logic (on_peer_received L t packet)"

definition object_on_session_sent ::
  "('ep, 'p, 'l) library \<Rightarrow> nat \<Rightarrow> 'p \<Rightarrow> ('ep, 'l) relay_object \<Rightarrow> (unit \<times> ('ep, 'l) relay_object) res"
where
  "object_on_session_sent L t packet =
     with_logic (\<lambda>logic. returning_nothing (on_session_sent (peer_start_receive L) t (packet_size L packet) logic))"

definition config_interval :: u64 where "config_interval = 5"

definition object_on_statistics_tick :: "('ep, 'l) relay_object \<Rightarrow> (string \<times> ('ep, 'l) relay_object) res" where
  "object_on_statistics_tick = with_logic (on_statistics_tick config_interval)"

section \<open>Sequences of calls\<close>

datatype ('ep, 'p) object_call =
    Call_thread_start nat u16
  | Call_client_received nat 'ep 'p
  | Call_peer_received nat 'p
  | Call_session_sent nat 'p
  | Call_statistics_tick

definition ignoring :: "('a \<times> 's) res \<Rightarrow> 's res" where
  "ignoring m = bindR m (\<lambda>(_, s). Inr s)"

fun object_step :: "('ep, 'p, 'l) library \<Rightarrow> ('ep, 'p) object_call \<Rightarrow> ('ep, 'l) relay_object \<Rightarrow> ('ep, 'l) relay_object res" where
  "object_step L (Call_thread_start t i) obj = ignoring (object_on_thread_start t i obj)"
| "object_step L (Call_client_received t src p) obj = ignoring (object_on_client_received L t src p obj)"
| "object_step L (Call_peer_received t p) obj = ignoring (object_on_peer_received L t p obj)"
| "object_step L (Call_session_sent t p) obj = ignoring (object_on_session_sent L t p obj)"
| "object_step L Call_statistics_tick obj = ignoring (object_on_statistics_tick obj)"

fun logic_event :: "('ep, 'p, 'l) library \<Rightarrow> ('ep, 'p) object_call \<Rightarrow> ('ep, 'p) relay_event" where
  "logic_event L (Call_thread_start t i) = Thread_start t i"
| "logic_event L (Call_client_received t src p) = Client_received t src p"
| "logic_event L (Call_peer_received t p) = Peer_received t p"
| "logic_event L (Call_session_sent t p) = Session_sent t (packet_size L p)"
| "logic_event L Call_statistics_tick = Statistics_tick config_interval"

text \<open>A thread is started, with an index below the thread count, before it calls anything else.\<close>

fun object_calls_ordered :: "nat \<Rightarrow> nat set \<Rightarrow> ('ep, 'p) object_call list \<Rightarrow> bool" where
  "object_calls_ordered n T [] \<longleftrightarrow> True"
| "object_calls_ordered n T (Call_thread_start t i # cs) \<longleftrightarrow> unat i < n \<and> object_calls_ordered n (insert t T) cs"
| "object_calls_ordered n T (Call_client_received t src p # cs) \<longleftrightarrow> t \<in> T \<and> object_calls_ordered n T cs"
| "object_calls_ordered n T (Call_peer_received t p # cs) \<longleftrightarrow> t \<in> T \<and> object_calls_ordered n T cs"
| "object_calls_ordered n T (Call_session_sent t p # cs) \<longleftrightarrow> t \<in> T \<and> object_calls_ordered n T cs"
| "object_calls_ordered n T (Call_statistics_tick # cs) \<longleftrightarrow> object_calls_ordered n T cs"

lemma object_step_logic:
  "object_step L c obj = bindR (relay_step L (logic_event L c) (object_logic obj)) (\<lambda>r. Inr (obj\<lparr>object_logic := r\<rparr>))"
  by (cases c) (auto simp: object_on_thread_start_def object_on_client_received_def object_on_peer_received_def
      object_on_session_sent_def object_on_statistics_tick_def with_logic_def returning_nothing_def ignoring_def
      bindR_assoc case_prod_beta)

lemma object_run_logic:
  "foldR (object_step L) cs obj
     = bindR (relay_run L (map (logic_event L) cs) (object_logic obj)) (\<lambda>r. Inr (obj\<lparr>object_logic := r\<rparr>))"
  by (induction cs arbitrary: obj) (simp_all add: relay_run_def object_step_logic bindR_assoc)

lemma ordered_calls_typed: "object_calls_ordered n T cs \<Longrightarrow> calls_typed n T (map (logic_event L) cs)"
  by (induction n T cs rule: object_calls_ordered.induct) (simp_all add: config_interval_def)

text \<open>A constructed object never faults under calls in that order, and its configuration stays.\<close>

lemma object_sound:
  assumes "library_typed L" and "object_construct conf l os tr = (Inr obj, tr')"
    and "object_calls_ordered (unat (conf_threads conf)) {} cs"
  shows "\<exists>obj'. foldR (object_step L) cs obj = Inr obj' \<and> object_config obj' = conf \<and> object_address obj' = object_address obj
    \<and> relay_run L (map (logic_event L) cs) (relay_init (conf_threads conf) l) = Inr (object_logic obj')"
proof -
  have obj: "object_logic obj = relay_init (conf_threads conf) l" "object_config obj = conf"
    using assms(2) by (auto simp: object_construct_def bindP_address prog_defs split: prod.splits sum.splits)
  have "state_typed (unat (conf_threads conf)) {} (relay_init (conf_threads conf) l)"
    by (simp add: state_typed_def relay_init_def)
  from relay_run_typed [OF assms(1) ordered_calls_typed [OF assms(3)] this] obtain r where
    "relay_run L (map (logic_event L) cs) (relay_init (conf_threads conf) l) = Inr r" by blast
  then show ?thesis by (simp add: object_run_logic obj)
qed

end
