(* ===== verification/Steering.thy ===== *)
theory Steering
  imports Setup
begin

text \<open>
  Which worker of the mmsg experiment gets a datagram: the filter of \<open>attach_bpf\<close> of \<^verbatim>\<open>mmsg/relay.cpp\<close>, run by
  an interpreter for its two classic BPF instructions, and what the kernel documents of sockets with
  \<open>SO_REUSEPORT\<close>: those bound to one port are a group, in the order in which they were bound; the
  filter attached to its first socket gives the index of the socket that a datagram goes to, and
  when that is no index of the group, the kernel picks one by a hash of its own (\<open>pick\<close>).
\<close>

section \<open>The filter\<close>

datatype bpf_instruction = Ld_w_abs u32 | Ret_a

text \<open>An offset of the packet that cannot be loaded ends a filter with 0.\<close>

fun bpf_run :: "(u32 \<Rightarrow> u32 option) \<Rightarrow> bpf_instruction list \<Rightarrow> u32 \<Rightarrow> u32" where
  "bpf_run load [] a = 0"
| "bpf_run load (Ld_w_abs k # is) a = (case load k of None \<Rightarrow> 0 | Some v \<Rightarrow> bpf_run load is v)"
| "bpf_run load (Ret_a # is) a = a"

definition SKF_AD_OFF :: int where "SKF_AD_OFF = - 4096"

definition SKF_AD_CPU :: int where "SKF_AD_CPU = 36"

definition cpu_filter :: "bpf_instruction list" where
  "cpu_filter = [Ld_w_abs (word_of_int (SKF_AD_OFF + SKF_AD_CPU)), Ret_a]"

text \<open>Offsets from \<open>SKF_AD_OFF\<close> on, as unsigned numbers, are not in the packet; this one is the CPU.\<close>

definition datagram_load :: "u32 \<Rightarrow> (u32 \<Rightarrow> u32 option) \<Rightarrow> u32 \<Rightarrow> u32 option" where
  "datagram_load cpu others k = (if k = word_of_int (SKF_AD_OFF + SKF_AD_CPU) then Some cpu else others k)"

lemma cpu_filter_cpu [simp]: "bpf_run (datagram_load cpu others) cpu_filter a = cpu"
  by (simp add: cpu_filter_def datagram_load_def)

section \<open>The group of a port\<close>

fun bound_fd :: "addrinfo \<Rightarrow> syscall \<Rightarrow> int list" where
  "bound_fd port (Bind fd address) = (if address = port then [fd] else [])"
| "bound_fd port _ = []"

definition reuseport_group :: "addrinfo \<Rightarrow> syscall list \<Rightarrow> int list" where
  "reuseport_group port calls = concat (map (bound_fd port) calls)"

definition filtered :: "addrinfo \<Rightarrow> syscall list \<Rightarrow> int \<Rightarrow> bool" where
  "filtered port calls fd \<longleftrightarrow>
     Setsockopt fd SO_ATTACH_REUSEPORT_CBPF 2 \<in> set (takeWhile (\<lambda>c. c \<noteq> Bind fd port) calls)"

definition receiving_socket :: "addrinfo \<Rightarrow> syscall list \<Rightarrow> nat \<Rightarrow> u32 \<Rightarrow> (u32 \<Rightarrow> u32 option) \<Rightarrow> int option" where
  "receiving_socket port calls pick cpu others =
     (case reuseport_group port calls of
        [] \<Rightarrow> None
      | fd # fds \<Rightarrow>
          let i = (if filtered port calls fd then unat (bpf_run (datagram_load cpu others) cpu_filter 0)
                   else length (fd # fds))
          in Some ((fd # fds) ! (if i < length (fd # fds) then i else pick mod length (fd # fds))))"

text \<open>The sockets that a worker is started with.\<close>

definition worker_given :: "syscall list \<Rightarrow> nat \<Rightarrow> int \<Rightarrow> int \<Rightarrow> bool" where
  "worker_given calls i c p \<longleftrightarrow> Spawn_worker i c p \<in> set calls \<or> Run_worker i c p \<in> set calls"

section \<open>The groups that run sets up\<close>

lemma ports_differ [simp]: "client_port \<noteq> peer_port" "peer_port \<noteq> client_port"
  by (simp_all add: client_port_def peer_port_def)

lemma group_append [simp]: "reuseport_group port (xs @ ys) = reuseport_group port xs @ reuseport_group port ys"
  by (simp add: reuseport_group_def)

lemma group_Cons: "reuseport_group port (c # cs) = bound_fd port c @ reuseport_group port cs"
  by (simp add: reuseport_group_def)

lemma bound_fd_other: "(\<And>fd. c \<noteq> Bind fd port) \<Longrightarrow> bound_fd port c = []"
  by (cases c) auto

lemma group_quiet:
  assumes "\<forall>fd. Bind fd port \<notin> set calls"
  shows "reuseport_group port calls = []"
  unfolding reuseport_group_def concat_eq_Nil_conv using assms by (auto intro!: bound_fd_other)

lemma pair_calls_bind: "pair_calls s cs \<Longrightarrow> Bind fd port \<notin> set cs"
  by (auto simp: pair_calls_def socket_calls_def option_calls_def)

lemma group_binds:
  "reuseport_group client_port (bind_calls sockets) = map fst sockets"
  "reuseport_group peer_port (bind_calls sockets) = map snd sockets"
  by (induction sockets) (simp_all add: bind_calls_def group_Cons, simp_all add: reuseport_group_def)

lemma start_calls_quiet:
  "Bind fd port \<notin> set (start_calls sockets)" "Setsockopt fd opt n \<notin> set (start_calls sockets)"
  by (auto simp: start_calls_def)

lemma started_workers:
  assumes "0 < length sockets" and "\<forall>i c p. Spawn_worker i c p \<notin> set cs \<and> Run_worker i c p \<notin> set cs"
  shows "worker_given (cs @ start_calls sockets) i c p \<longleftrightarrow> i < length sockets \<and> sockets ! i = (c, p)"
  using assms by (cases i) (auto simp: worker_given_def start_calls_def prod_eq_iff)

text \<open>What a completed \<open>run\<close> leaves behind.\<close>

lemma run_groups:
  assumes "run_trace n calls" and "0 < n"
  obtains sockets where "length sockets = n"
    "reuseport_group client_port calls = map fst sockets" "reuseport_group peer_port calls = map snd sockets"
    "filtered client_port calls (fst (sockets ! 0))" "filtered peer_port calls (snd (sockets ! 0))"
    "\<And>i c p. worker_given calls i c p \<longleftrightarrow> i < n \<and> sockets ! i = (c, p)"
proof -
  from assms(1) obtain sockets css where s: "length sockets = n" "length css = n"
    "\<forall>i < n. pair_calls (sockets ! i) (css ! i)"
    "calls = [Getaddrinfo client_port, Getaddrinfo peer_port, Print_address client_port, Print_address peer_port]
       @ concat css @ bind_calls sockets @ start_calls sockets" by (auto simp: run_trace_def)
  define pre where "pre = [Getaddrinfo client_port, Getaddrinfo peer_port, Print_address client_port, Print_address peer_port]
       @ concat css"
  have calls: "calls = pre @ bind_calls sockets @ start_calls sockets" by (simp add: s(4) pre_def)
  have pairs: "\<forall>cs \<in> set css. \<exists>s. pair_calls s cs" using s(2,3) by (metis in_set_conv_nth)
  then have pre: "Bind fd port \<notin> set pre" for fd port by (auto simp: pre_def dest: pair_calls_bind)
  have "quiet pre" using pairs by (auto simp: pre_def quiet_def dest!: quiet_pair_calls)
  then have "quiet (pre @ bind_calls sockets)" using quiet_bind_calls [of sockets] by (auto simp: quiet_def)
  then have "\<forall>i c p. Spawn_worker i c p \<notin> set (pre @ bind_calls sockets) \<and> Run_worker i c p \<notin> set (pre @ bind_calls sockets)"
    unfolding quiet_def by (metis starts_worker.simps(1,2))
  from started_workers [OF _ this, of sockets] have given: "worker_given calls i c p \<longleftrightarrow> i < n \<and> sockets ! i = (c, p)" for i c p
    using s(1) assms(2) by (simp add: calls)
  have taken: "takeWhile (\<lambda>c. c \<noteq> Bind fd port) calls
      = pre @ takeWhile (\<lambda>c. c \<noteq> Bind fd port) (bind_calls sockets @ start_calls sockets)" for fd port
    unfolding calls using pre [of fd port] by (intro takeWhile_append2) auto
  have "pair_calls (sockets ! 0) (css ! 0)" and first: "css ! 0 \<in> set css" using s(2,3) assms(2) by auto
  then have "Setsockopt (fst (sockets ! 0)) SO_ATTACH_REUSEPORT_CBPF 2 \<in> set (css ! 0)"
    "Setsockopt (snd (sockets ! 0)) SO_ATTACH_REUSEPORT_CBPF 2 \<in> set (css ! 0)" by (auto simp: pair_calls_def)
  then have "Setsockopt (fst (sockets ! 0)) SO_ATTACH_REUSEPORT_CBPF 2 \<in> set pre"
    "Setsockopt (snd (sockets ! 0)) SO_ATTACH_REUSEPORT_CBPF 2 \<in> set pre"
    using first by (auto simp: pre_def)
  then have "filtered client_port calls (fst (sockets ! 0))" "filtered peer_port calls (snd (sockets ! 0))"
    by (simp_all add: filtered_def taken)
  moreover have "reuseport_group client_port calls = map fst sockets" "reuseport_group peer_port calls = map snd sockets"
    using pre by (simp_all add: calls group_quiet group_binds start_calls_quiet)
  ultimately show thesis using that s(1) given by blast
qed

text \<open>The socket of the group that a datagram goes to.\<close>

lemma receives:
  assumes "reuseport_group port calls = fds" and "fds \<noteq> []" and "filtered port calls (hd fds)"
  shows "receiving_socket port calls pick cpu others
    = Some (fds ! (if unat cpu < length fds then unat cpu else pick mod length fds))"
  using assms by (cases fds) (simp_all add: receiving_socket_def Let_def)

section \<open>Properties\<close>

text \<open>C37. Datagrams follow the CPU: when \<open>run\<close> has made its calls, a datagram that is processed on CPU \<open>i\<close>, of a client or
  of a peer, goes to the socket of worker \<open>i\<close>, if there is such a worker, and worker \<open>i\<close> first of
  all pins itself to CPU \<open>i\<close>; on any other CPU it goes to the socket of some worker, the same
  one for both ports if the kernel picks the same. So no datagram is left to a socket that nobody
  reads, which binding in the order of the workers, on one thread, is there for.\<close>

theorem mmsg_datagrams_follow_cpu:
  assumes "run_mmsg threads os [] = (Inr x, calls)"
  shows "(unat cpu < max 1 (unat threads) \<longrightarrow>
      (\<forall>c p. worker_given calls (unat cpu) c p \<longleftrightarrow>
         receiving_socket client_port calls pick cpu others = Some c
         \<and> receiving_socket peer_port calls pick cpu others = Some p))
    \<and> (\<exists>i c p. i < max 1 (unat threads) \<and> worker_given calls i c p
         \<and> receiving_socket client_port calls pick cpu others = Some c
         \<and> receiving_socket peer_port calls pick cpu others = Some p)
    \<and> (\<exists>rest. snd (mmsg_worker_start t i r os' tr) = tr @ Set_affinity i # rest)"
proof (intro conjI)
  let ?n = "max 1 (unat threads)"
  from emits_run_mmsg [of threads] have "run_trace ?n calls"
    unfolding emits_def using assms by (auto dest!: spec [of _ os] spec [of _ "[]"] simp del: One_nat_def)
  then obtain sockets where s: "length sockets = ?n"
    "reuseport_group client_port calls = map fst sockets" "reuseport_group peer_port calls = map snd sockets"
    "filtered client_port calls (fst (sockets ! 0))" "filtered peer_port calls (snd (sockets ! 0))"
    "\<And>i c p. worker_given calls i c p \<longleftrightarrow> i < ?n \<and> sockets ! i = (c, p)"
    by (rule run_groups) (simp, blast)
  define k where "k = (if unat cpu < ?n then unat cpu else pick mod ?n)"
  have k: "k < ?n" by (simp add: k_def)
  have "sockets \<noteq> []" using s(1) by auto
  then have "hd (map fst sockets) = fst (sockets ! 0)" "hd (map snd sockets) = snd (sockets ! 0)"
    by (simp_all add: hd_map hd_conv_nth)
  with s \<open>sockets \<noteq> []\<close> have got: "receiving_socket client_port calls pick cpu others = Some (fst (sockets ! k))"
    "receiving_socket peer_port calls pick cpu others = Some (snd (sockets ! k))"
    using k by (simp_all add: receives k_def del: One_nat_def)
  show "unat cpu < ?n \<longrightarrow> (\<forall>c p. worker_given calls (unat cpu) c p \<longleftrightarrow>
      receiving_socket client_port calls pick cpu others = Some c \<and> receiving_socket peer_port calls pick cpu others = Some p)"
    by (auto simp: got s(6) k_def prod_eq_iff)
  show "\<exists>i c p. i < ?n \<and> worker_given calls i c p \<and> receiving_socket client_port calls pick cpu others = Some c
      \<and> receiving_socket peer_port calls pick cpu others = Some p"
    using k by (intro exI [of _ k] exI [of _ "fst (sockets ! k)"] exI [of _ "snd (sockets ! k)"]) (simp add: got s(6))
  show "\<exists>rest. snd (mmsg_worker_start t i r os' tr) = tr @ Set_affinity i # rest"
    by (auto simp: mmsg_worker_start_def prog_defs split: prod.splits sum.splits)
qed

text \<open>Two workers, on a system that numbers its sockets by the calls made before.\<close>

definition numbering_os :: os where
  "numbering_os tr c = (case c of Socket _ \<Rightarrow> int (length tr) | _ \<Rightarrow> 0)"

lemma numbering_run: "\<exists>calls. run_mmsg 2 numbering_os [] = (Inr 0, calls) \<and> worker_given calls 1 20 27"
proof -
  have "case run_mmsg 2 numbering_os [] of (Inl e, calls) \<Rightarrow> False | (Inr x, calls) \<Rightarrow> x = 0 \<and> worker_given calls 1 20 27"
    by code_simp
  then show ?thesis by (auto split: prod.splits sum.splits)
qed

lemma mmsg_datagrams_follow_cpu_witness:
  "\<exists>calls. run_mmsg 2 numbering_os [] = (Inr 0, calls) \<and> receiving_socket client_port calls 0 1 (\<lambda>_. None) = Some 20
     \<and> receiving_socket peer_port calls 0 1 (\<lambda>_. None) = Some 27"
proof -
  obtain calls where run: "run_mmsg 2 numbering_os [] = (Inr 0, calls)" "worker_given calls 1 20 27"
    using numbering_run by blast
  from mmsg_datagrams_follow_cpu [OF run(1), of 1 0 "\<lambda>_. None", THEN conjunct1] run(2)
  have "receiving_socket client_port calls 0 1 (\<lambda>_. None) = Some 20 \<and> receiving_socket peer_port calls 0 1 (\<lambda>_. None) = Some 27"
    by simp
  with run(1) show ?thesis by blast
qed

end
