(* ===== verification/Libuv_Workers.thy ===== *)
theory Libuv_Workers
  imports Event_Loop_Threads
begin

text \<open>
  The libuv experiment cut at its callbacks. In theory \<open>Libuv\<close> a receive with all its callbacks is one step of a
  thread; here each callback is, so that other threads run in between. A thread is idle or in a
  receive, of which it has the socket, the buffer, the number of the next slot and the datagrams
  still to be handed to callbacks. The calls of a receive with nobody in between are the
  receive of theory \<open>Libuv\<close>. Here \<open>uv_udp_send\<close> and the sends it has begun may fail, at any time.
\<close>

section \<open>A receive, callback by callback\<close>

datatype 'ep uv_stage =
    Idle
  | Receiving uv_socket nat nat "('ep \<times> u8 list) list"

datatype 'ep uv_activity =
    Batch uv_socket "('ep \<times> u8 list) list"
  | Callback uv_socket 'ep "u8 list"
  | Last_callback
  | Sends 'ep "u8 list"

fun recv_cb_of :: "('ep \<Rightarrow> uv_packet \<Rightarrow> int) \<Rightarrow> nat \<Rightarrow> uv_socket \<Rightarrow> 'ep recv_cb" where
  "recv_cb_of send t Client_socket = client_recv_cb send t"
| "recv_cb_of send t Peer_socket = peer_recv_cb send t"

text \<open>libuv asks for a buffer, and the kernel fills its slots.\<close>

definition uv_begin :: "bool \<Rightarrow> ('ep \<times> u8 list) list \<Rightarrow> ('ep, 'ep uv_thread) relay \<Rightarrow> nat \<times> ('ep, 'ep uv_thread) relay" where
  "uv_begin have_mmsg ds r =
     (case alloc_buffer have_mmsg (lib r) of ((b, len), th) \<Rightarrow>
        (b, r\<lparr>lib := set_buf b (\<lambda>buf. buf\<lparr>buf_data := fill_slots 0 ds (buf_data buf)\<rparr>) th\<rparr>))"

text \<open>The next callback. Without recvmmsg a datagram is handed over with its buffer; with it every datagram is
  a chunk, and a last call without data gives the buffer back.\<close>

fun uv_next ::
  "bool \<Rightarrow> ('ep \<Rightarrow> uv_packet \<Rightarrow> int) \<Rightarrow> 'ep \<Rightarrow> nat \<Rightarrow> uv_socket \<Rightarrow> nat \<Rightarrow> nat \<Rightarrow> ('ep \<times> u8 list) list
     \<Rightarrow> ('ep, 'ep uv_thread) relay \<Rightarrow> ('ep uv_activity \<times> 'ep uv_stage \<times> ('ep, 'ep uv_thread) relay) res"
where
  "uv_next have_mmsg send zero_ep t s b k [] r =
     bindR (recv_cb_of send t s 0 (b, 0) zero_ep (if k = 0 then 0 else UV_UDP_MMSG_FREE) r) (\<lambda>r.
       Inr (Last_callback, Idle, r))"
| "uv_next have_mmsg send zero_ep t s b k ((src, bs) # ds) r =
     (if have_mmsg
      then bindR (recv_cb_of send t s (int (length bs)) (b, k * slot_bytes) src UV_UDP_MMSG_CHUNK r) (\<lambda>r.
             Inr (Callback s src bs, Receiving s b (k + 1) ds, r))
      else bindR (recv_cb_of send t s (int (length bs)) (b, 0) src 0 r) (\<lambda>r.
             Inr (Callback s src bs, Idle, r)))"

inductive uv_call ::
  "bool \<Rightarrow> ('ep \<Rightarrow> uv_packet \<Rightarrow> int) \<Rightarrow> 'ep \<Rightarrow> nat \<Rightarrow> 'ep uv_stage \<times> ('ep, 'ep uv_thread) relay
     \<Rightarrow> 'ep uv_activity \<Rightarrow> 'ep uv_stage \<times> ('ep, 'ep uv_thread) relay \<Rightarrow> bool"
  for have_mmsg send zero_ep t
where
  begins: "batch_ok have_mmsg ds \<Longrightarrow> uv_begin have_mmsg ds r = (b, r')
    \<Longrightarrow> uv_call have_mmsg send zero_ep t (Idle, r) (Batch s ds) (Receiving s b 0 ds, r')"
| goes_on: "uv_next have_mmsg send zero_ep t s b k ds r = Inr (a, st, r')
    \<Longrightarrow> uv_call have_mmsg send zero_ep t (Receiving s b k ds, r) a (st, r')"
| completes_send: "q \<in> set (send_queue (lib r)) \<Longrightarrow>
     send_cb t (request_buf q, request_chunk q) status (r\<lparr>lib := (lib r)\<lparr>send_queue := remove1 q (send_queue (lib r))\<rparr>\<rparr>) = Inr r'
     \<Longrightarrow> uv_call have_mmsg send zero_ep t (Idle, r) (Sends (request_addr q) (read_buf (lib r) (request_packet q))) (Idle, r')"

inductive_simps uv_call_Batch: "uv_call m send z t (Idle, r) (Batch s ds) c"
inductive_simps uv_call_Receiving: "uv_call m send z t (Receiving s b k ds, r) a c"

text \<open>Calls with nobody in between.\<close>

fun uv_calls ::
  "bool \<Rightarrow> ('ep \<Rightarrow> uv_packet \<Rightarrow> int) \<Rightarrow> 'ep \<Rightarrow> nat \<Rightarrow> 'ep uv_stage \<times> ('ep, 'ep uv_thread) relay
     \<Rightarrow> 'ep uv_activity list \<Rightarrow> 'ep uv_stage \<times> ('ep, 'ep uv_thread) relay \<Rightarrow> bool"
where
  "uv_calls m send z t c [] c' \<longleftrightarrow> c = c'"
| "uv_calls m send z t c (a # as) c' \<longleftrightarrow> (\<exists>c1. uv_call m send z t c a c1 \<and> uv_calls m send z t c1 as c')"

definition receive_calls :: "bool \<Rightarrow> uv_socket \<Rightarrow> ('ep \<times> u8 list) list \<Rightarrow> 'ep uv_activity list" where
  "receive_calls have_mmsg s ds =
     Batch s ds # map (\<lambda>(src, bs). Callback s src bs) ds @ (if have_mmsg \<or> ds = [] then [Last_callback] else [])"

lemma chunk_calls:
  "uv_calls True send z t (Receiving s b k ds, r) (map (\<lambda>(src, bs). Callback s src bs) ds @ [Last_callback]) (Idle, r')
     \<longleftrightarrow> bindR (chunk_callbacks (recv_cb_of send t s) b k ds r)
          (recv_cb_of send t s 0 (b, 0) z (if k + length ds = 0 then 0 else UV_UDP_MMSG_FREE)) = Inr r'"
proof (induction ds arbitrary: k r)
  case Nil
  show ?case by (auto simp: uv_call_Receiving bindR_eq_Inr)
next
  case (Cons d ds)
  obtain src bs where d: "d = (src, bs)" by (cases d)
  show ?case
    by (auto simp: d uv_call_Receiving Cons.IH bindR_eq_Inr bindR_assoc)
qed

section \<open>The abstract relay\<close>

record 'ep uv_view =
  from_clients :: "('ep \<times> u8 list) list"
  from_peers :: "('ep \<times> u8 list) list"
  in_transit :: "('ep \<times> u8 list) multiset"

text \<open>A thread takes in a batch when it has handled the one before; the datagrams of a batch are handled in order.\<close>

fun uv_abs_next :: "'ep uv_activity \<Rightarrow> (u64 \<rightharpoonup> 'ep) \<times> 'ep uv_view \<Rightarrow> ((u64 \<rightharpoonup> 'ep) \<times> 'ep uv_view) option" where
  "uv_abs_next (Batch s ds) (m, v) =
     (if from_clients v = [] \<and> from_peers v = []
      then Some (m, case s of Client_socket \<Rightarrow> v\<lparr>from_clients := ds\<rparr> | Peer_socket \<Rightarrow> v\<lparr>from_peers := ds\<rparr>) else None)"
| "uv_abs_next (Callback Client_socket src bs) (m, v) =
     (case from_clients v of
        d # ds \<Rightarrow> if d = (src, bs) then Some (spec_client src bs m, v\<lparr>from_clients := ds\<rparr>) else None
      | [] \<Rightarrow> None)"
| "uv_abs_next (Callback Peer_socket src bs) (m, v) =
     (case from_peers v of
        d # ds \<Rightarrow> if d = (src, bs)
          then Some (m, v\<lparr>from_peers := ds, in_transit := in_transit v + mset (spec_peers m [bs])\<rparr>) else None
      | [] \<Rightarrow> None)"
| "uv_abs_next Last_callback (m, v) = (if from_clients v = [] \<and> from_peers v = [] then Some (m, v) else None)"
| "uv_abs_next (Sends ep bs) (m, v) =
     (if (ep, bs) \<in># in_transit v then Some (m, v\<lparr>in_transit := in_transit v - {#(ep, bs)#}\<rparr>) else None)"

definition uv_abs_call :: "(u64 \<rightharpoonup> 'ep) \<times> 'ep uv_view \<Rightarrow> 'ep uv_activity \<Rightarrow> (u64 \<rightharpoonup> 'ep) \<times> 'ep uv_view \<Rightarrow> bool" where
  "uv_abs_call a l b \<longleftrightarrow> uv_abs_next l a = Some b"

fun called_clients :: "'ep uv_activity \<Rightarrow> ('ep \<times> u8 list) list" where
  "called_clients (Callback Client_socket src bs) = [(src, bs)]"
| "called_clients _ = []"

lemma uv_abs_call_table: "uv_abs_call (m, v) l (m', v') \<Longrightarrow> m' = spec_clients (called_clients l) m"
  by (cases "(l, (m, v))" rule: uv_abs_next.cases)
    (auto simp: uv_abs_call_def spec_clients_def split: if_splits list.splits uv_socket.splits)

fun uv_view_of :: "'ep uv_stage \<Rightarrow> 'ep uv_thread \<Rightarrow> 'ep uv_view" where
  "uv_view_of Idle th = \<lparr>from_clients = [], from_peers = [], in_transit = mset (uv_outbox th)\<rparr>"
| "uv_view_of (Receiving Client_socket b k ds) th = \<lparr>from_clients = ds, from_peers = [], in_transit = mset (uv_outbox th)\<rparr>"
| "uv_view_of (Receiving Peer_socket b k ds) th = \<lparr>from_clients = [], from_peers = ds, in_transit = mset (uv_outbox th)\<rparr>"

section \<open>What a call keeps and does\<close>

text \<open>While the callbacks of a client batch run, no send uses the buffer; those of a peer batch have room for a
  send each.\<close>

fun stage_good :: "bool \<Rightarrow> 'ep uv_stage \<Rightarrow> 'ep uv_thread \<Rightarrow> bool" where
  "stage_good m Idle th \<longleftrightarrow> buffers_ok m {} th"
| "stage_good m (Receiving s b k ds) th \<longleftrightarrow> buffers_ok m {b} th \<and> last_alloc th = Some b \<and> slots_hold th b k ds
     \<and> (s = Client_socket \<longrightarrow> refs th b = 0) \<and> refs th b + length ds \<le> chunks_per_buf m
     \<and> (\<not> m \<longrightarrow> k = 0 \<and> refs th b = 0)"

definition call_good :: "bool \<Rightarrow> 'ep uv_stage \<Rightarrow> ('ep, 'ep uv_thread) relay \<Rightarrow> 'ep uv_activity \<Rightarrow> 'ep uv_stage
    \<Rightarrow> ('ep, 'ep uv_thread) relay \<Rightarrow> bool" where
  "call_good m st r a st' r' \<longleftrightarrow> stage_good m st' (lib r') \<and> same_threads r r'
     \<and> uv_abs_next a (registered r, uv_view_of st (lib r)) = Some (registered r', uv_view_of st' (lib r'))"

lemma recv_cb_threads: "recv_cb_of send t s n buf src flags r = Inr r' \<Longrightarrow> same_threads r r'"
  by (cases s) (auto intro: client_recv_cb_threads peer_recv_cb_threads)

lemma begin_good:
  assumes "stage_good m Idle (lib r)" and "batch_ok m ds" and "uv_begin m ds r = (b, r')"
  shows "call_good m Idle r (Batch s ds) (Receiving s b 0 ds) r'"
proof -
  obtain len th1 where alloc: "alloc_buffer m (lib r) = ((b, len), th1)"
    and r': "r' = r\<lparr>lib := set_buf b (\<lambda>buf. buf\<lparr>buf_data := fill_slots 0 ds (buf_data buf)\<rparr>) th1\<rparr>"
    using assms(3) by (auto simp: uv_begin_def split: prod.splits)
  have "length ds \<le> chunks_per_buf m" using assms(2) by (auto simp: batch_ok_def chunks_per_buf_def split: if_splits)
  with receive_start [OF _ assms(2) alloc] assms(1) show ?thesis
    by (cases s) (auto simp: call_good_def r' registered_def)
qed

lemma last_flags: "and (if k = 0 then 0 else UV_UDP_MMSG_FREE) UV_UDP_MMSG_CHUNK = 0"
  by simp

text \<open>The call without data, at the end of either batch.\<close>

lemma last_good:
  assumes "stage_good m (Receiving s b k ds) (lib r)" and "and flags UV_UDP_MMSG_CHUNK = 0"
  shows "\<exists>p. recv_cb_of send t s 0 buf src flags r = Inr (r\<lparr>lib := (lib r)\<lparr>pool := p\<rparr>\<rparr>) \<and> buffers_ok m {} ((lib r)\<lparr>pool := p\<rparr>)"
proof (cases s)
  case Client_socket
  show ?thesis using client_cb_free [of m b r flags send t buf src] assms unfolding Client_socket by simp
next
  case Peer_socket
  show ?thesis using peer_cb_free [of m b r flags send t buf src] assms unfolding Peer_socket by simp
qed

lemma slots_hold_Nil [simp]: "slots_hold th b k []"
  by (simp add: slots_hold_def)

lemma one_datagram_left:
  assumes "stage_good m (Receiving s b k (d # ds)) th" and "\<not> m"
  shows "k = 0" "refs th b = 0" "ds = []"
  using assms by (auto simp: chunks_per_buf_def)

lemma client_callback_good:
  assumes good: "stage_good m (Receiving Client_socket b k ((src, bs) # ds)) (lib r)" and t: "thread_ok t r"
  shows "\<exists>a st' r'. uv_next m send z t Client_socket b k ((src, bs) # ds) r = Inr (a, st', r')
    \<and> call_good m (Receiving Client_socket b k ((src, bs) # ds)) r a st' r'"
proof -
  have "slots_hold (lib r) b k [(src, bs)]" using good by simp
  from client_chunks [OF t this, of send] obtain r1 where
    r1: "client_recv_cb send t (int (length bs)) (b, k * slot_bytes) src UV_UDP_MMSG_CHUNK r = Inr r1"
      "registered r1 = spec_client src bs (registered r)" "lib r1 = lib r" by (auto simp: spec_clients_def bindR_eq_Inr)
  note threads = client_recv_cb_threads [OF r1(1)]
  show ?thesis
  proof (cases m)
    case True
    with r1 threads good show ?thesis by (auto simp: call_good_def)
  next
    case False
    note k = one_datagram_left [OF good this]
    from last_good [of m Client_socket b k "(src, bs) # ds" r1 0 send t "(b, 0)" src] good r1(3) obtain p where
      p: "client_recv_cb send t 0 (b, 0) src 0 r1 = Inr (r1\<lparr>lib := (lib r)\<lparr>pool := p\<rparr>\<rparr>)" "buffers_ok m {} ((lib r)\<lparr>pool := p\<rparr>)"
      by auto
    have "client_recv_cb send t (int (length bs)) (b, 0) src 0 r = client_recv_cb send t 0 (b, 0) src 0 r1"
      using r1(1) unfolding k(1)
      by (cases "bs = []") (auto simp: client_cb_chunk client_recv_cb_def die_on_error_def bindR_def split: sum.splits)
    with p r1(2) threads False k(3) show ?thesis
      by (auto simp: call_good_def registered_def same_threads_def)
  qed
qed

lemma peer_callback_good:
  assumes good: "stage_good m (Receiving Peer_socket b k ((src, bs) # ds)) (lib r)" and t: "thread_ok t r"
    and send: "\<forall>a p. 0 \<le> send a p"
  shows "\<exists>a st' r'. uv_next m send z t Peer_socket b k ((src, bs) # ds) r = Inr (a, st', r')
    \<and> call_good m (Receiving Peer_socket b k ((src, bs) # ds)) r a st' r'"
proof -
  let ?p = "make_packet b (k * slot_bytes) (length bs)"
  have held: "buffers_ok m {b} (lib r)" "last_alloc (lib r) = Some b" "refs (lib r) b < chunks_per_buf m"
    "read_buf (lib r) ?p = bs" "slots_hold (lib r) b (Suc k) ds" using good by simp_all
  show ?thesis
  proof (cases m)
    case chunk: True
    show ?thesis
    proof (cases "bs = []")
      case True
      with good chunk show ?thesis by (auto simp: call_good_def peer_cb_chunk [where n = 0, simplified])
    next
      case False
      from peer_one [OF held(1,2) t held(3) send, of ?p] obtain f r1 where
        r1: "on_peer_received (libuv_lib send) t ?p r = Inr (f, r1)" "registered r1 = registered r" "thread_ok t r1"
          "buffers_ok m {b} (lib r1)" "last_alloc (lib r1) = Some b" "refs (lib r1) b \<le> Suc (refs (lib r) b)"
          "read_buf (lib r1) = read_buf (lib r)" "uv_outbox (lib r1) = uv_outbox (lib r) @ spec_peers (registered r) [bs]"
        using held(4) by (auto split: if_splits)
      have run: "peer_recv_cb send t (int (length bs)) (b, k * slot_bytes) src UV_UDP_MMSG_CHUNK r = Inr r1"
        using r1(1) False by (simp add: peer_cb_chunk)
      from peer_recv_cb_threads [OF run] run r1 good chunk slots_hold_cong [OF r1(7)] show ?thesis
        by (auto simp: call_good_def simp del: spec_peers.simps)
    qed
  next
    case False
    note k = one_datagram_left [OF good this]
    have "\<exists>r1. peer_recv_cb send t (int (length bs)) (b, 0) src 0 r = Inr r1 \<and> registered r1 = registered r
      \<and> buffers_ok m {} (lib r1) \<and> uv_outbox (lib r1) = uv_outbox (lib r) @ spec_peers (registered r) [bs]"
    proof (cases "bs = []")
      case True
      from last_good [OF good, of 0 send t "(b, 0)" src] True show ?thesis by (auto simp: registered_def)
    next
      case False
      from peer_cb_single [OF held(1,2) t k(2) send _ this, of src] held(4) k(1) show ?thesis by auto
    qed
    then obtain r1 where r1: "peer_recv_cb send t (int (length bs)) (b, 0) src 0 r = Inr r1" "registered r1 = registered r"
      "buffers_ok m {} (lib r1)" "uv_outbox (lib r1) = uv_outbox (lib r) @ spec_peers (registered r) [bs]" by blast
    with peer_recv_cb_threads [OF r1(1)] False k(3) show ?thesis by (auto simp: call_good_def simp del: spec_peers.simps)
  qed
qed

lemma next_good:
  assumes "stage_good m (Receiving s b k ds) (lib r)" and "thread_ok t r" and "\<forall>a p. 0 \<le> send a p"
  shows "\<exists>a st' r'. uv_next m send z t s b k ds r = Inr (a, st', r') \<and> call_good m (Receiving s b k ds) r a st' r'"
proof (cases ds)
  case Nil
  from last_good [OF assms(1) last_flags [of k], of send t "(b, 0)" z] obtain p where
    p: "recv_cb_of send t s 0 (b, 0) z (if k = 0 then 0 else UV_UDP_MMSG_FREE) r = Inr (r\<lparr>lib := (lib r)\<lparr>pool := p\<rparr>\<rparr>)"
    "buffers_ok m {} ((lib r)\<lparr>pool := p\<rparr>)" by blast
  have "call_good m (Receiving s b k []) r Last_callback Idle (r\<lparr>lib := (lib r)\<lparr>pool := p\<rparr>\<rparr>)"
    using p(2) by (cases s) (simp_all add: call_good_def registered_def)
  with p(1) show ?thesis unfolding Nil by simp
next
  case (Cons d es)
  obtain src bs where ds: "ds = (src, bs) # es" using Cons by (cases d) simp
  show ?thesis
  proof (cases s)
    case Client_socket
    from client_callback_good [of m b k src bs es r t send z] assms(1,2) show ?thesis unfolding ds Client_socket by blast
  next
    case Peer_socket
    from peer_callback_good [of m b k src bs es r t send z] assms show ?thesis unfolding ds Peer_socket by blast
  qed
qed

section \<open>Sends that fail\<close>

text \<open>A system that takes every send. Where a callback returns it makes no difference which system it is; and with
  \<open>refused_send\<close> the next callback ends the process.\<close>

definition takes_all :: "'ep \<Rightarrow> uv_packet \<Rightarrow> int" where
  "takes_all _ _ = 0"

definition refuses_packet :: "('ep \<Rightarrow> uv_packet \<Rightarrow> int) \<Rightarrow> uv_packet \<Rightarrow> (u64 \<rightharpoonup> 'ep) \<Rightarrow> u8 list \<Rightarrow> bool" where
  "refuses_packet send p table bs = (case spec_peer table bs of None \<Rightarrow> False | Some (ep, _) \<Rightarrow> send ep p < 0)"

text \<open>The next datagram of the receive is one of a peer that is to be forwarded, and \<open>uv_udp_send\<close> refuses it.\<close>

definition refused_send :: "bool \<Rightarrow> ('ep \<Rightarrow> uv_packet \<Rightarrow> int) \<Rightarrow> uv_socket \<Rightarrow> nat \<Rightarrow> nat \<Rightarrow> ('ep \<times> u8 list) list
    \<Rightarrow> (u64 \<rightharpoonup> 'ep) \<Rightarrow> bool" where
  "refused_send m send s b k ds table = (case (s, ds) of
       (Peer_socket, (src, bs) # _) \<Rightarrow> refuses_packet send (make_packet b (if m then k * slot_bytes else 0) (length bs)) table bs
     | _ \<Rightarrow> False)"

lemma takes_all_refuses: "\<not> refused_send m takes_all s b k ds table"
  by (auto simp: refused_send_def refuses_packet_def takes_all_def split: uv_socket.splits list.splits option.splits)

lemma start_send_any:
  "start_send send t s p r = bindR (start_send takes_all t s p r)
     (\<lambda>r'. if send (client_endpoint s) p < 0 then Inl (Abort ''uv_udp_send'') else Inr r')"
  by (simp add: start_send_def Let_def die_on_error_def takes_all_def split: option.split)

lemma peer_handler_any:
  "on_peer_received (libuv_lib send) t p r = bindR (on_peer_received (libuv_lib takes_all) t p r)
     (\<lambda>(f, r'). if refuses_packet send p (registered r) (read_buf (lib r) p) then Inl (Abort ''uv_udp_send'') else Inr (f, r'))"
proof (cases "count_in t (packet_len p) r")
  case (Inl e)
  then show ?thesis by (simp add: on_peer_received_def libuv_lib_def)
next
  case (Inr r1)
  note same = count_frame(1) [OF Inr]
  have len: "8 \<le> packet_len p \<longleftrightarrow> 8 \<le> length (read_buf (lib r) p)" by (simp add: read_buf_def word_le_nat_alt)
  have any: "session_start_send (libuv_lib f) = start_send f" for f :: "'a \<Rightarrow> uv_packet \<Rightarrow> int" by (simp add: libuv_lib_def)
  show ?thesis
    using Inr same len
    by (auto simp: on_peer_received_def any start_send_any [of send] libuv_lib_def refuses_packet_def spec_peer_def
        get_session_id_def find_session_def registered_def restart_peer_receive_def bindR_assoc intro!: bindR_cong split: option.split)
qed

lemma client_handler_any: "on_client_received (libuv_lib send) = on_client_received (libuv_lib takes_all)"
proof -
  have L: "packet_data (libuv_lib f) = read_buf" "packet_size (libuv_lib f) = packet_len"
    "restart_client_receive (libuv_lib f) = (\<lambda>r. r)" "restart_peer_receive (libuv_lib f) = (\<lambda>r. r)"
    for f :: "'a \<Rightarrow> uv_packet \<Rightarrow> int"
    by (simp_all add: libuv_lib_def restart_client_receive_def restart_peer_receive_def fun_eq_iff)
  show ?thesis unfolding on_client_received_def L ..
qed

lemma client_cb_any: "client_recv_cb send = client_recv_cb takes_all"
  by (simp add: fun_eq_iff client_recv_cb_def client_handler_any [of send])

lemma peer_cb_any:
  assumes "peer_recv_cb takes_all t n buf src flags r = Inr r'"
  shows "peer_recv_cb send t n buf src flags r =
    (if 0 < n \<and> refuses_packet send (make_packet (fst buf) (snd buf) (nat n)) (registered r)
        (read_buf (lib r) (make_packet (fst buf) (snd buf) (nat n))) then Inl (Abort ''uv_udp_send'') else Inr r')"
proof (cases "0 < n")
  case True
  let ?p = "make_packet (fst buf) (snd buf) (nat n)"
  obtain f r1 where r1: "on_peer_received (libuv_lib takes_all) t ?p r = Inr (f, r1)"
    using assms True by (auto simp: peer_recv_cb_def die_on_error_def bindR_eq_Inr)
  have "on_peer_received (libuv_lib send) t ?p r =
    (if refuses_packet send ?p (registered r) (read_buf (lib r) ?p) then Inl (Abort ''uv_udp_send'') else Inr (f, r1))"
    unfolding peer_handler_any [of send] r1 by simp
  with assms True r1 show ?thesis by (simp add: peer_recv_cb_def die_on_error_def)
next
  case False
  with assms show ?thesis by (simp add: peer_recv_cb_def)
qed

lemma peer_cb_returns:
  assumes "peer_recv_cb send t n buf src flags r = Inr r'"
  shows "peer_recv_cb takes_all t n buf src flags r = Inr r'"
proof (cases "0 < n")
  case True
  let ?p = "make_packet (fst buf) (snd buf) (nat n)"
  obtain f r1 where r1: "on_peer_received (libuv_lib send) t ?p r = Inr (f, r1)"
    using assms True by (auto simp: peer_recv_cb_def die_on_error_def bindR_eq_Inr)
  moreover from this have "on_peer_received (libuv_lib takes_all) t ?p r = Inr (f, r1)"
    unfolding peer_handler_any [of send] bindR_eq_Inr by (auto split: if_splits)
  ultimately show ?thesis using assms True by (simp add: peer_recv_cb_def die_on_error_def)
next
  case False
  with assms show ?thesis by (simp add: peer_recv_cb_def)
qed

lemma recv_cb_returns: "recv_cb_of send t s n buf src flags r = Inr r' \<Longrightarrow> recv_cb_of takes_all t s n buf src flags r = Inr r'"
  by (cases s) (simp_all add: client_cb_any [of send] peer_cb_returns)

lemma next_returns: "uv_next m send z t s b k ds r = Inr x \<Longrightarrow> uv_next m takes_all z t s b k ds r = Inr x"
  by (cases ds) (fastforce simp: bindR_eq_Inr dest: recv_cb_returns split: if_splits)+

lemma send_cb_status: "send_cb t q status r = (if status < 0 then Inl (Abort ''session: uv_udp_send'') else send_cb t q 0 r)"
  by (simp add: send_cb_def die_on_error_def)

lemma uv_call_returns: "uv_call m send z t c a c' \<Longrightarrow> uv_call m takes_all z t c a c'"
  by (auto elim!: uv_call.cases intro: begins goes_on completes_send next_returns)

text \<open>A receive that fails: libuv calls back with the error.\<close>

definition failed_receive :: "uv_socket \<Rightarrow> string" where
  "failed_receive s = (case s of Client_socket \<Rightarrow> ''client: uv_udp_recv_start'' | Peer_socket \<Rightarrow> ''peer: uv_udp_recv_start'')"

lemma recv_cb_failed: "n < 0 \<Longrightarrow> recv_cb_of send t s n buf src flags r = Inl (Abort (failed_receive s))"
  by (cases s) (simp_all add: client_recv_cb_def peer_recv_cb_def die_on_error_def failed_receive_def)

lemma next_refused:
  assumes good: "stage_good m (Receiving s b k ds) (lib r)" and t: "thread_ok t r"
  shows "uv_next m send z t s b k ds r = (if refused_send m send s b k ds (registered r)
    then Inl (Abort ''uv_udp_send'') else uv_next m takes_all z t s b k ds r)"
proof (cases s)
  case Client_socket
  then show ?thesis by (cases ds) (auto simp: refused_send_def client_cb_any [of send])
next
  case Peer_socket
  from next_good [OF good t, of takes_all z] obtain a st' r' where
    returns: "uv_next m takes_all z t s b k ds r = Inr (a, st', r')" by (auto simp: takes_all_def)
  show ?thesis
  proof (cases ds)
    case Nil
    then obtain r1 where "peer_recv_cb takes_all t 0 (b, 0) z (if k = 0 then 0 else UV_UDP_MMSG_FREE) r = Inr r1"
      using returns Peer_socket by (auto simp: bindR_eq_Inr)
    from peer_cb_any [OF this, of send] this Nil Peer_socket show ?thesis by (simp add: refused_send_def)
  next
    case (Cons d es)
    obtain src bs where d: "d = (src, bs)" by (cases d)
    define off where "off = (if m then k * slot_bytes else 0)"
    define flags where "flags = (if m then UV_UDP_MMSG_CHUNK else 0)"
    have data: "read_buf (lib r) (make_packet b off (length bs)) = bs"
    proof -
      have "off = k * slot_bytes" using good by (auto simp: off_def)
      then show ?thesis using good by (simp add: Cons d)
    qed
    obtain r1 where r1: "peer_recv_cb takes_all t (int (length bs)) (b, off) src flags r = Inr r1"
      using returns Peer_socket Cons d by (auto simp: bindR_eq_Inr off_def flags_def split: if_splits)
    have "spec_peer (registered r) bs = None" if "bs = []" using that by (simp add: spec_peer_def)
    with peer_cb_any [OF r1, of send] data have
      "peer_recv_cb send t (int (length bs)) (b, off) src flags r =
        (if refuses_packet send (make_packet b off (length bs)) (registered r) bs then Inl (Abort ''uv_udp_send'') else Inr r1)"
      by (cases "bs = []") (auto simp: refuses_packet_def)
    with r1 Peer_socket Cons d show ?thesis
      by (cases m) (auto simp: refused_send_def off_def flags_def)
  qed
qed

lemma send_good:
  assumes "stage_good m Idle (lib r)" and "thread_ok t r" and q: "q \<in> set (send_queue (lib r))"
    and run: "send_cb t (request_buf q, request_chunk q) 0 (r\<lparr>lib := (lib r)\<lparr>send_queue := remove1 q (send_queue (lib r))\<rparr>\<rparr>) = Inr r'"
  shows "call_good m Idle r (Sends (request_addr q) (read_buf (lib r) (request_packet q))) Idle r'"
proof -
  have "same_threads r r'" using send_cb_threads [OF run] by (simp add: same_threads_def)
  with send_cb_ok [OF _ q assms(2), of m] assms(1) run show ?thesis by (auto simp: call_good_def)
qed

lemma uv_call_good:
  assumes "uv_call m send z t (st, r) a (st', r')" and "stage_good m st (lib r)" and "thread_ok t r"
  shows "call_good m st r a st' r'"
  using uv_call_returns [OF assms(1)]
proof cases
  case (begins ds b s)
  with begin_good assms(2) show ?thesis by blast
next
  case (goes_on s b k ds)
  with next_good [of m s b k ds r t takes_all z] assms(2,3) show ?thesis by (auto simp: takes_all_def)
next
  case (completes_send q status)
  then have "send_cb t (request_buf q, request_chunk q) 0 (r\<lparr>lib := (lib r)\<lparr>send_queue := remove1 q (send_queue (lib r))\<rparr>\<rparr>) = Inr r'"
    by (simp add: send_cb_status [of _ _ status] split: if_splits)
  with send_good [of m r t q r'] assms(2,3) completes_send show ?thesis by simp
qed

section \<open>A thread of the pool\<close>

text \<open>What the system does with a send that a callback begins may be different in each step.\<close>

record 'ep uv_task =
  task_thread :: "'ep uv_thread"
  task_stage :: "'ep uv_stage"

inductive uv_task_step ::
  "bool \<Rightarrow> 'ep \<Rightarrow> nat \<Rightarrow> ('ep, 'ep uv_task) relay \<Rightarrow> 'ep uv_activity
     \<Rightarrow> ('ep, 'ep uv_task) relay \<Rightarrow> bool"
  for have_mmsg zero_ep t
where
  task_calls: "uv_call have_mmsg send zero_ep t (task_stage (lib r), join_lib r (task_thread (lib r))) a (st, r')
    \<Longrightarrow> uv_task_step have_mmsg zero_ep t r a (join_lib r' \<lparr>task_thread = lib r', task_stage = st\<rparr>)"

definition task_init :: "'ep uv_task" where
  "task_init = \<lparr>task_thread = thread_init, task_stage = Idle\<rparr>"

definition task_view :: "'ep uv_task \<Rightarrow> 'ep uv_view" where
  "task_view s = uv_view_of (task_stage s) (task_thread s)"

lemma uv_task_threads:
  "relay_threads (uv_task_step m z) (\<lambda>_ s. stage_good m (task_stage s) (task_thread s)) uv_abs_call task_view called_clients"
proof unfold_locales
  fix t and r r' :: "('a, 'a uv_task) relay" and l
  assume ok: "thread_ok t r" "stage_good m (task_stage (lib r)) (task_thread (lib r))" and "uv_task_step m z t r l r'"
  from this(3) show "stage_good m (task_stage (lib r')) (task_thread (lib r')) \<and> same_threads r r'
    \<and> uv_abs_call (registered r, task_view (lib r)) l (registered r', task_view (lib r'))"
  proof cases
    case (task_calls send st r1)
    from uv_call_good [OF task_calls(2)] ok show ?thesis
      by (simp add: task_calls(1) call_good_def uv_abs_call_def task_view_def same_threads_def)
  qed
qed (rule uv_abs_call_table)

text \<open>One call of one thread, the others staying where they are.\<close>

definition moves_to :: "('ep, 'ep uv_task) thread_pool \<Rightarrow> nat \<Rightarrow> 'ep uv_stage \<Rightarrow> ('ep, 'ep uv_task) thread_pool \<Rightarrow> bool" where
  "moves_to w t st w' \<longleftrightarrow> task_stage (own w' t) = st \<and> running w' = running w \<and> (\<forall>u. u \<noteq> t \<longrightarrow> own w' u = own w u)"

lemma call_in_pool:
  assumes "t \<in> running w"
    and "uv_call m send z t (task_stage (own w t), join_lib (common w) (task_thread (own w t))) a (st, r')"
  shows "\<exists>w'. pool_step (uv_task_step m z) n w (t, Does a) w' \<and> moves_to w t st w'"
proof -
  have "uv_task_step m z t (seen_by t w) a (join_lib r' \<lparr>task_thread = lib r', task_stage = st\<rparr>)"
    using assms(2) by (intro task_calls) (simp add: seen_by_def)
  from does [where step = "uv_task_step m z", OF assms(1) this, of n] show ?thesis
    by (intro exI conjI) (assumption, simp add: moves_to_def)
qed

text \<open>The relay as thread \<open>t\<close> sees it, and the callback for the send \<open>q\<close>, with the status that libuv reports.\<close>

definition task_relay :: "('ep, 'ep uv_task) thread_pool \<Rightarrow> nat \<Rightarrow> ('ep, 'ep uv_thread) relay" where
  "task_relay w t = join_lib (common w) (task_thread (own w t))"

definition send_completes :: "nat \<Rightarrow> 'ep uv_request \<Rightarrow> int \<Rightarrow> ('ep, 'ep uv_thread) relay \<Rightarrow> ('ep, 'ep uv_thread) relay res" where
  "send_completes t q status r =
     send_cb t (request_buf q, request_chunk q) status (r\<lparr>lib := (lib r)\<lparr>send_queue := remove1 q (send_queue (lib r))\<rparr>\<rparr>)"

lemma send_completes_fails: "status < 0 \<Longrightarrow> send_completes t q status r = Inl (Abort ''session: uv_udp_send'')"
  by (simp add: send_completes_def send_cb_status)

lemma idle_thread_moves:
  assumes "t \<in> running w" and "task_stage (own w t) = Idle"
    and "buffers_ok m {} (task_thread (own w t))" and "thread_ok t (common w)"
  shows "batch_ok m ds \<Longrightarrow> \<exists>b w'. pool_step (uv_task_step m z) n w (t, Does (Batch s ds)) w' \<and> moves_to w t (Receiving s b 0 ds) w'"
    and "q \<in> set (send_queue (task_thread (own w t))) \<Longrightarrow> 0 \<le> status \<Longrightarrow> \<exists>r' w'. send_completes t q status (task_relay w t) = Inr r'
      \<and> pool_step (uv_task_step m z) n w
        (t, Does (Sends (request_addr q) (read_buf (task_thread (own w t)) (request_packet q)))) w' \<and> moves_to w t Idle w'"
proof -
  let ?r = "join_lib (common w) (task_thread (own w t))"
  show "\<exists>b w'. pool_step (uv_task_step m z) n w (t, Does (Batch s ds)) w' \<and> moves_to w t (Receiving s b 0 ds) w'"
    if "batch_ok m ds"
  proof -
    obtain b r' where "uv_begin m ds ?r = (b, r')" by fastforce
    from call_in_pool [OF assms(1), unfolded assms(2), OF begins [OF that this]] show ?thesis by blast
  qed
  show "\<exists>r' w'. send_completes t q status (task_relay w t) = Inr r' \<and> pool_step (uv_task_step m z) n w
      (t, Does (Sends (request_addr q) (read_buf (task_thread (own w t)) (request_packet q)))) w' \<and> moves_to w t Idle w'"
    if q: "q \<in> set (send_queue (task_thread (own w t)))" and status: "0 \<le> status"
  proof -
    have q: "q \<in> set (send_queue (lib ?r))" using q by simp
    have "buffers_ok m {} (lib ?r)" "thread_ok t ?r" using assms(3,4) by simp_all
    from send_cb_ok [OF this(1) q this(2)] status obtain r' where run:
      "send_cb t (request_buf q, request_chunk q) status (?r\<lparr>lib := (lib ?r)\<lparr>send_queue := remove1 q (send_queue (lib ?r))\<rparr>\<rparr>) = Inr r'"
      unfolding send_cb_status [of _ _ status] by fastforce
    with call_in_pool [OF assms(1), unfolded assms(2), OF completes_send [OF q run]] show ?thesis
      by (simp add: send_completes_def task_relay_def)
  qed
qed

text \<open>What the next callback of a receive is, and where it leads.\<close>

definition next_callback :: "bool \<Rightarrow> uv_socket \<Rightarrow> nat \<Rightarrow> nat \<Rightarrow> ('ep \<times> u8 list) list \<Rightarrow> 'ep uv_activity \<times> 'ep uv_stage" where
  "next_callback m s b k ds =
     (case ds of
        [] \<Rightarrow> (Last_callback, Idle)
      | (src, bs) # es \<Rightarrow> (Callback s src bs, if m then Receiving s b (k + 1) es else Idle))"

lemma uv_next_callback: "uv_next m send z t s b k ds r = Inr (a, st, r') \<Longrightarrow> next_callback m s b k ds = (a, st)"
  by (cases ds) (auto simp: next_callback_def bindR_eq_Inr split: if_splits)

lemma receiving_thread_moves:
  assumes "t \<in> running w" and st: "task_stage (own w t) = Receiving s b k ds"
    and "stage_good m (Receiving s b k ds) (task_thread (own w t))" and "thread_ok t (common w)"
    and "\<not> refused_send m send s b k ds (registered (common w))" and "next_callback m s b k ds = (a, st')"
  shows "\<exists>r' w'. uv_next m send z t s b k ds (task_relay w t) = Inr (a, st', r')
    \<and> pool_step (uv_task_step m z) n w (t, Does a) w' \<and> moves_to w t st' w'"
proof -
  have "stage_good m (Receiving s b k ds) (lib (task_relay w t))" "thread_ok t (task_relay w t)"
    using assms(3,4) by (simp_all add: task_relay_def)
  from next_good [OF this, of takes_all z] next_refused [OF this, of send z] assms(5)
  obtain a1 st1 r' where called: "uv_next m send z t s b k ds (task_relay w t) = Inr (a1, st1, r')"
    by (auto simp: takes_all_def task_relay_def)
  moreover from this uv_next_callback assms(6) have "a1 = a" "st1 = st'" by fastforce+
  ultimately show ?thesis
    using call_in_pool [OF assms(1), unfolded st, OF goes_on [OF called [unfolded task_relay_def]]] by blast
qed

text \<open>The same for a thread of a run.\<close>

lemma run_thread_good:
  assumes "t \<in> running w"
    and "pool_run (uv_task_step m z) (unat threads) (pool_start threads (\<lambda>_. task_init :: 'ep uv_task)) ls w"
  shows "stage_good m (task_stage (own w t)) (task_thread (own w t))" "thread_ok t (common w)"
proof -
  have "\<forall>t < unat threads. stage_good m (task_stage (task_init :: 'ep uv_task)) (task_thread task_init)"
    by (simp add: task_init_def thread_init_buffers(1))
  from relay_threads.threads_refine(3) [OF uv_task_threads this assms(2)] assms(1)
  show "stage_good m (task_stage (own w t)) (task_thread (own w t))" "thread_ok t (common w)"
    by (auto simp: relay_threads.pool_ok_def [OF uv_task_threads [of m z]])
qed

lemma run_begins_batch:
  assumes "t \<in> running w" and "task_stage (own w t) = Idle" and "batch_ok m ds"
    and "pool_run (uv_task_step m z) (unat threads) (pool_start threads (\<lambda>_. task_init)) ls w"
  obtains b w' where "pool_run (uv_task_step m z) (unat threads) (pool_start threads (\<lambda>_. task_init)) (ls @ [(t, Does (Batch s ds))]) w'"
    "moves_to w t (Receiving s b 0 ds) w'"
  using run_thread_good [OF assms(1,4)] idle_thread_moves(1) [OF assms(1,2) _ _ assms(3)] pool_more [OF assms(4)] assms(2)
  by (metis stage_good.simps(1))

lemma run_calls_back:
  assumes "t \<in> running w" and "task_stage (own w t) = Receiving s b k ds"
    and "next_callback m s b k ds = (a, st')"
    and "pool_run (uv_task_step m z) (unat threads) (pool_start threads (\<lambda>_. task_init)) ls w"
  obtains w' where "pool_run (uv_task_step m z) (unat threads) (pool_start threads (\<lambda>_. task_init)) (ls @ [(t, Does a)]) w'"
    "moves_to w t st' w'"
  using run_thread_good [OF assms(1,4), unfolded assms(2)] receiving_thread_moves [OF assms(1,2) _ _ takes_all_refuses assms(3)]
    pool_more [OF assms(4)]
  by metis

text \<open>What a started thread can do next, in its event loop and in a receive.\<close>

lemma thread_goes_on:
  assumes t: "t \<in> running w"
    and run: "pool_run (uv_task_step m z) (unat threads) (pool_start threads (\<lambda>_. task_init)) ls w"
  shows "case task_stage (own w t) of
          Idle \<Rightarrow>
            (\<forall>s ds. batch_ok m ds \<longrightarrow> (\<exists>b w'. pool_step (uv_task_step m z) (unat threads) w (t, Does (Batch s ds)) w'
               \<and> moves_to w t (Receiving s b 0 ds) w'))
          \<and> (\<forall>send s n buf src flags. n < 0 \<longrightarrow>
               recv_cb_of send t s n buf src flags (task_relay w t) = Inl (Abort (failed_receive s)))
          \<and> (\<forall>q \<in> set (send_queue (task_thread (own w t))). \<forall>status.
               if status < 0 then send_completes t q status (task_relay w t) = Inl (Abort ''session: uv_udp_send'')
               else \<exists>r' w'. send_completes t q status (task_relay w t) = Inr r'
                 \<and> pool_step (uv_task_step m z) (unat threads) w
                    (t, Does (Sends (request_addr q) (read_buf (task_thread (own w t)) (request_packet q)))) w'
                 \<and> moves_to w t Idle w')
        | Receiving s b k ds \<Rightarrow> \<forall>send.
            if refused_send m send s b k ds (registered (common w))
            then uv_next m send z t s b k ds (task_relay w t) = Inl (Abort ''uv_udp_send'')
            else \<exists>r' w'. uv_next m send z t s b k ds (task_relay w t)
                   = Inr (fst (next_callback m s b k ds), snd (next_callback m s b k ds), r')
               \<and> pool_step (uv_task_step m z) (unat threads) w (t, Does (fst (next_callback m s b k ds))) w'
               \<and> moves_to w t (snd (next_callback m s b k ds)) w'"
proof (cases "task_stage (own w t)")
  case Idle
  then have "buffers_ok m {} (task_thread (own w t))" using run_thread_good [OF t run] by simp
  note idle = idle_thread_moves [OF t Idle this run_thread_good(2) [OF t run]]
  have "if status < 0 then send_completes t q status (task_relay w t) = Inl (Abort ''session: uv_udp_send'')
      else \<exists>r' w'. send_completes t q status (task_relay w t) = Inr r'
        \<and> pool_step (uv_task_step m z) (unat threads) w
           (t, Does (Sends (request_addr q) (read_buf (task_thread (own w t)) (request_packet q)))) w'
        \<and> moves_to w t Idle w'" if "q \<in> set (send_queue (task_thread (own w t)))" for q status
    using idle(2) [OF that, of status z "unat threads"] by (simp add: send_completes_fails)
  with idle(1) show ?thesis
    unfolding Idle uv_stage.case by (intro conjI ballI allI impI) (assumption | rule recv_cb_failed)+
next
  case (Receiving s b k ds)
  then have good: "stage_good m (Receiving s b k ds) (lib (task_relay w t))" "thread_ok t (task_relay w t)"
    using run_thread_good [OF t run] by (simp_all add: task_relay_def)
  have "uv_next m send z t s b k ds (task_relay w t) = Inl (Abort ''uv_udp_send'')"
    if "refused_send m send s b k ds (registered (common w))" for send
    using next_refused [OF good, of send z] that by (simp add: task_relay_def)
  with receiving_thread_moves [OF t Receiving] run_thread_good [OF t run] Receiving show ?thesis by simp
qed

section \<open>Properties\<close>

text \<open>A receive is its calls: when nothing else happens on the thread, the callbacks one by one, from
  the buffer that libuv asks for to the call that gives it back, end in the same state as the
  receive of theory \<open>Libuv\<close>, or do not end without a fault either.\<close>

theorem libuv_receive_is_calls:
  assumes "batch_ok m ds"
  shows "uv_receive m z (recv_cb_of send t s) ds r = Inr r'
    \<longleftrightarrow> uv_calls m send z t (Idle, r) (receive_calls m s ds) (Idle, r')"
proof -
  obtain b len th where alloc: "alloc_buffer m (lib r) = ((b, len), th)" by (metis surj_pair)
  define r2 where "r2 = r\<lparr>lib := set_buf b (\<lambda>buf. buf\<lparr>buf_data := fill_slots 0 ds (buf_data buf)\<rparr>) th\<rparr>"
  have begun: "uv_begin m ds r = (b, r2)" by (simp add: uv_begin_def alloc r2_def)
  have recv: "uv_receive m z cb ds r = (if m
         then (if ds = [] then cb 0 (b, 0) z 0 r2 else bindR (chunk_callbacks cb b 0 ds r2) (cb 0 (b, 0) z UV_UDP_MMSG_FREE))
         else (case ds of [] \<Rightarrow> cb 0 (b, 0) z 0 r2 | (src, bs) # _ \<Rightarrow> cb (int (length bs)) (b, 0) src 0 r2))" for cb
    unfolding uv_receive_def alloc prod.case Let_def r2_def ..
  have first: "uv_calls m send z t (Idle, r) (receive_calls m s ds) c \<longleftrightarrow> uv_calls m send z t (Receiving s b 0 ds, r2)
      (map (\<lambda>(src, bs). Callback s src bs) ds @ (if m \<or> ds = [] then [Last_callback] else [])) c" for c
    using assms begun by (simp add: receive_calls_def uv_call_Batch)
  show ?thesis
  proof (cases m)
    case True
    with chunk_calls [of send z t s b 0 ds r2 r'] show ?thesis
      unfolding first recv by (cases "ds = []") simp_all
  next
    case False
    then consider "ds = []" | src bs where "ds = [(src, bs)]" using assms by (cases ds) (auto simp: batch_ok_def)
    then show ?thesis
      unfolding first recv by cases (auto simp: False uv_call_Receiving bindR_eq_Inr)
  qed
qed

text \<open>C9. All the threads of the libuv experiment are one relay, with other threads running between any two
  callbacks of a receive, and whatever libuv does with their sends: each thread hands every datagram of a batch to
  one callback, in order, what a client callback registers is in the one table when the next callback of any
  thread looks, and what a peer callback adds to the sends in transit is what that table says then. A thread
  in its event loop can take any batch, and the completion of any send; in a receive it goes on to the next
  callback. It aborts exactly when libuv reports an error: a receive or a send that has failed, or
  \<open>uv_udp_send\<close> refusing the datagram that the next peer callback is to forward.\<close>

theorem libuv_calls_refine:
  fixes w :: "('ep, 'ep uv_task) thread_pool"
  assumes "pool_run (uv_task_step m z) (unat threads) (pool_start threads (\<lambda>_. task_init)) ls w"
  shows "abs_pool_run uv_abs_call (Map.empty, \<lambda>_. \<lparr>from_clients = [], from_peers = [], in_transit = {#}\<rparr>) ls
      (registered (common w), \<lambda>t. task_view (own w t))
    \<and> registered (common w) = spec_clients (clients_in called_clients ls) Map.empty
    \<and> (\<forall>t \<in> running w. case task_stage (own w t) of
          Idle \<Rightarrow>
            (\<forall>s ds. batch_ok m ds \<longrightarrow> (\<exists>b w'. pool_step (uv_task_step m z) (unat threads) w (t, Does (Batch s ds)) w'
               \<and> moves_to w t (Receiving s b 0 ds) w'))
          \<and> (\<forall>send s n buf src flags. n < 0 \<longrightarrow>
               recv_cb_of send t s n buf src flags (task_relay w t) = Inl (Abort (failed_receive s)))
          \<and> (\<forall>q \<in> set (send_queue (task_thread (own w t))). \<forall>status.
               if status < 0 then send_completes t q status (task_relay w t) = Inl (Abort ''session: uv_udp_send'')
               else \<exists>r' w'. send_completes t q status (task_relay w t) = Inr r'
                 \<and> pool_step (uv_task_step m z) (unat threads) w
                    (t, Does (Sends (request_addr q) (read_buf (task_thread (own w t)) (request_packet q)))) w'
                 \<and> moves_to w t Idle w')
        | Receiving s b k ds \<Rightarrow> \<forall>send.
            if refused_send m send s b k ds (registered (common w))
            then uv_next m send z t s b k ds (task_relay w t) = Inl (Abort ''uv_udp_send'')
            else \<exists>r' w'. uv_next m send z t s b k ds (task_relay w t)
                   = Inr (fst (next_callback m s b k ds), snd (next_callback m s b k ds), r')
               \<and> pool_step (uv_task_step m z) (unat threads) w (t, Does (fst (next_callback m s b k ds))) w'
               \<and> moves_to w t (snd (next_callback m s b k ds)) w')"
proof (intro conjI)
  have "\<forall>t < unat threads. stage_good m (task_stage (task_init :: 'ep uv_task)) (task_thread task_init)"
    by (simp add: task_init_def thread_init_buffers(1))
  note run = relay_threads.threads_refine [OF uv_task_threads this assms]
  show "abs_pool_run uv_abs_call (Map.empty, \<lambda>_. \<lparr>from_clients = [], from_peers = [], in_transit = {#}\<rparr>) ls
      (registered (common w), \<lambda>t. task_view (own w t))"
    using run(1) by (simp add: comp_def task_view_def task_init_def thread_init_buffers(2))
  show "registered (common w) = spec_clients (clients_in called_clients ls) Map.empty" by (rule run(2))
qed (use thread_goes_on [OF _ assms] in blast)

lemma libuv_receive_is_calls_witness:
  "\<exists>r'. uv_receive True 0 (recv_cb_of (\<lambda>_ _. 0) 0 Client_socket) [(11 :: u64, store_le 8 1), (12, [])] demo_start = Inr r'
     \<and> uv_calls True (\<lambda>_ _. 0) 0 0 (Idle, demo_start)
         [Batch Client_socket [(11, store_le 8 1), (12, [])], Callback Client_socket 11 (store_le 8 1),
          Callback Client_socket 12 [], Last_callback] (Idle, r')"
proof -
  let ?ds = "[(11 :: u64, store_le 8 1), (12, [])]"
  have batch: "batch_ok True ?ds" by (simp add: batch_ok_def slot_bytes_def del: store_le.simps)
  have "uv_ok True 0 demo_start" using thread_init_ok(1) [OF demo_start_eq] .
  then obtain r' where "uv_receive True 0 (client_recv_cb (\<lambda>_ _. 0) 0) ?ds demo_start = Inr r'"
    using receive_from_clients [of True demo_start 0 ?ds 0 "\<lambda>_ _. 0"] batch by (auto simp: uv_ok_def)
  with libuv_receive_is_calls [OF batch, of 0 "\<lambda>_ _. 0" 0 Client_socket demo_start r'] show ?thesis
    by (auto simp: receive_calls_def simp del: store_le.simps uv_calls.simps)
qed

text \<open>Two threads, each with a batch begun before the other's callback.\<close>

definition two_receives :: "(nat \<times> u64 uv_activity pool_label) list" where
  "two_receives = [(0, Starts), (1, Starts), (0, Does (Batch Client_socket [(11, store_le 8 1)])),
     (1, Does (Batch Peer_socket [(7, store_le 8 1 @ [100])])), (0, Does (Callback Client_socket 11 (store_le 8 1))),
     (1, Does (Callback Peer_socket 7 (store_le 8 1 @ [100])))]"

lemma two_receives_run: "\<exists>w. pool_run (uv_task_step True 0) (unat (2 :: u16)) (pool_start 2 (\<lambda>_. task_init)) two_receives w"
proof -
  let ?run = "pool_run (uv_task_step True 0) (unat (2 :: u16)) (pool_start 2 (\<lambda>_. task_init))"
  let ?w2 = "two_running (\<lambda>_. task_init) :: (u64, u64 uv_task) thread_pool"
  let ?peer = "store_le 8 1 @ [100]"
  have batch: "batch_ok True [(11 :: u64, store_le 8 1)]" "batch_ok True [(7 :: u64, ?peer)]"
    by (simp_all add: batch_ok_def slot_bytes_def del: store_le.simps)
  have r2: "?run [(0, Starts), (1, Starts)] ?w2" using two_start by simp
  have w2: "0 \<in> running ?w2" "1 \<in> running ?w2" "task_stage (own ?w2 t) = Idle" for t
    by (simp_all add: two_running_def task_init_def)
  obtain b w3 where r3: "?run ([(0, Starts), (1, Starts)] @ [(0, Does (Batch Client_socket [(11, store_le 8 1)]))]) w3"
    and w3: "moves_to ?w2 0 (Receiving Client_socket b 0 [(11, store_le 8 1)]) w3"
    by (rule run_begins_batch [OF w2(1,3) batch(1) r2])
  have s3: "0 \<in> running w3" "1 \<in> running w3" "task_stage (own w3 1) = Idle" using w2 w3 by (simp_all add: moves_to_def)
  obtain c w4 where r4: "?run (([(0, Starts), (1, Starts)] @ [(0, Does (Batch Client_socket [(11, store_le 8 1)]))])
      @ [(1, Does (Batch Peer_socket [(7, ?peer)]))]) w4" and w4: "moves_to w3 1 (Receiving Peer_socket c 0 [(7, ?peer)]) w4"
    by (rule run_begins_batch [OF s3(2,3) batch(2) r3])
  have s4: "0 \<in> running w4" "1 \<in> running w4" "task_stage (own w4 0) = Receiving Client_socket b 0 [(11, store_le 8 1)]"
    "task_stage (own w4 1) = Receiving Peer_socket c 0 [(7, ?peer)]"
    using s3 w3 w4 by (simp_all add: moves_to_def)
  have "next_callback True Client_socket b 0 [(11, store_le 8 1)] = (Callback Client_socket (11 :: u64) (store_le 8 1), Receiving Client_socket b 1 [])"
    by (simp add: next_callback_def del: store_le.simps)
  from run_calls_back [OF s4(1,3) this r4] obtain w5 where
    r5: "?run ((([(0, Starts), (1, Starts)] @ [(0, Does (Batch Client_socket [(11, store_le 8 1)]))])
      @ [(1, Does (Batch Peer_socket [(7, ?peer)]))]) @ [(0, Does (Callback Client_socket 11 (store_le 8 1)))]) w5"
    and w5: "moves_to w4 0 (Receiving Client_socket b 1 []) w5" by blast
  have s5: "1 \<in> running w5" "task_stage (own w5 1) = Receiving Peer_socket c 0 [(7, ?peer)]"
    using s4 w5 by (simp_all add: moves_to_def)
  have "next_callback True Peer_socket c 0 [(7, ?peer)] = (Callback Peer_socket (7 :: u64) ?peer, Receiving Peer_socket c 1 [])"
    by (simp add: next_callback_def del: store_le.simps)
  from run_calls_back [OF s5 this r5] show ?thesis unfolding two_receives_def append.simps by blast
qed

lemma libuv_calls_refine_witness:
  "\<exists>w. pool_run (uv_task_step True 0) 2 (pool_start 2 (\<lambda>_. task_init)) two_receives w
     \<and> registered (common w) = spec_clients [(11 :: u64, store_le 8 1)] Map.empty"
proof -
  obtain w where w: "pool_run (uv_task_step True 0) (unat (2 :: u16)) (pool_start 2 (\<lambda>_. task_init)) two_receives w"
    using two_receives_run by blast
  have "registered (common w) = spec_clients (clients_in called_clients two_receives) Map.empty"
    using libuv_calls_refine [OF w] by blast
  with w show ?thesis by (auto simp: two_receives_def simp del: store_le.simps)
qed

end
