(* ===== verification/Refused_Sends.thy ===== *)
theory Refused_Sends
  imports Mmsg_Loop
begin

text \<open>
  An endpoint to which the kernel does not send. A client may register from an address that no datagram can be
  sent to (source port 0, say): the relay takes it as any other, and the first peer datagram for its
  identifier makes the send fail. This theory has what that does to a worker of the mmsg experiment, whose
  loop (theory \<open>Mmsg\<close>) retries two kinds of failure and aborts on every other.
\<close>

section \<open>The send loop and a message that is refused\<close>

text \<open>What \<open>sendmmsg\<close> does when some endpoints are refused: the messages it sends are for others, and when
  it fails for good the first message it was offered is for one of them.\<close>

definition refuses :: "('ep \<Rightarrow> bool) \<Rightarrow> ('ep \<times> u8 list) list \<Rightarrow> (nat \<Rightarrow> int \<Rightarrow> send_outcome) \<Rightarrow> bool" where
  "refuses bad out f \<longleftrightarrow> sends_progress f
     \<and> (\<forall>k v. 0 < v \<and> v \<le> int (length out) \<longrightarrow>
          (case f k v of
             Sent n \<Rightarrow> \<forall>m \<in> set (take (nat n) (drop (length out - nat v) out)). \<not> bad (fst m)
           | Send_error \<Rightarrow> bad (fst (out ! (length out - nat v)))
           | _ \<Rightarrow> True))"

lemma refuses_at:
  assumes "refuses bad out f" and "0 < v" and "0 \<le> offset" and "v + offset = int (length out)"
  shows "f k v = Send_error \<Longrightarrow> nat offset < length out \<and> bad (fst (out ! nat offset))"
    and "f k v = Sent n \<Longrightarrow> \<forall>m \<in> set (take (nat n) (drop (nat offset) out)). \<not> bad (fst m)"
proof -
  have at: "length out - nat v = nat offset" "v \<le> int (length out)" "nat offset < length out" using assms(2-4) by linarith+
  have *: "case f k v of
       Sent n \<Rightarrow> \<forall>m \<in> set (take (nat n) (drop (nat offset) out)). \<not> bad (fst m)
     | Send_error \<Rightarrow> bad (fst (out ! nat offset))
     | _ \<Rightarrow> True"
    using assms(1,2) at(2) unfolding refuses_def at(1) [symmetric] by blast
  show "f k v = Send_error \<Longrightarrow> nat offset < length out \<and> bad (fst (out ! nat offset))"
    and "f k v = Sent n \<Longrightarrow> \<forall>m \<in> set (take (nat n) (drop (nat offset) out)). \<not> bad (fst m)"
    using * at(3) by simp_all
qed

definition send_result :: "('ep \<Rightarrow> bool) \<Rightarrow> ('ep \<times> u8 list) list \<Rightarrow> ('ep \<times> u8 list) list res" where
  "send_result bad out = (if \<exists>m \<in> set out. bad (fst m) then Inl (Abort ''sendmmsg error'') else Inr out)"

lemma send_result_Nil [simp]: "send_result bad [] = Inr []"
  by (simp add: send_result_def)

lemma send_result_append:
  "\<forall>m \<in> set xs. \<not> bad (fst m) \<Longrightarrow> send_result bad (xs @ ys) = bindR (send_result bad ys) (\<lambda>out. Inr (xs @ out))"
  by (auto simp: send_result_def)

lemma tx_messages: "map (tx_message io) [i..<i + n] = take n (drop i (mmsg_outbox io))"
  if "i + n \<le> length (mmsg_outbox io)"
  using that by (simp add: mmsg_outbox_def drop_map take_map)

lemma send_loop_refused:
  assumes f: "refuses bad (mmsg_outbox io) f" and "0 \<le> v" and "0 \<le> offset"
    and "v + offset = int (length (mmsg_outbox io))"
  shows "\<exists>fuel. send_loop fuel f io k v offset = Some (send_result bad (drop (nat offset) (mmsg_outbox io)))"
proof -
  let ?out = "mmsg_outbox io"
  have "sends_progress f" using f by (simp add: refuses_def)
  from this assms(2,3,4) show ?thesis
  proof (induction k v offset rule: send_loop_rule)
    case (base k offset)
    then show ?case by (simp add: send_loop.simps)
  next
    case (retry k v offset)
    then show ?case by (metis send_loop_retry)
  next
    case (failed k v offset)
    with refuses_at(1) [OF f] have "nat offset < length ?out" "bad (fst (?out ! nat offset))" by blast+
    then have "?out ! nat offset \<in> set (drop (nat offset) ?out)" "bad (fst (?out ! nat offset))"
      by (simp_all add: Cons_nth_drop_Suc [symmetric])
    then have "send_result bad (drop (nat offset) ?out) = Inl (Abort ''sendmmsg error'')"
      unfolding send_result_def by auto
    with failed show ?case by (intro exI [of _ 1]) (simp add: send_loop.simps)
  next
    case (sent k v offset n)
    then have at: "nat (offset + n) = nat offset + nat n" "nat offset + nat n \<le> length ?out"
      by linarith+
    from sent obtain fuel where
      rest: "send_loop fuel f io (Suc k) (v - n) (offset + n) = Some (send_result bad (drop (nat offset + nat n) ?out))"
      by (auto simp: at(1))
    have "\<forall>m \<in> set (take (nat n) (drop (nat offset) ?out)). \<not> bad (fst m)"
      using refuses_at(2) [OF f _ _ _ sent.hyps(1)] sent by force
    from send_result_append [OF this, of "drop (nat offset + nat n) ?out"]
    have "send_result bad (drop (nat offset) ?out) = bindR (send_result bad (drop (nat offset + nat n) ?out))
        (\<lambda>out. Inr (take (nat n) (drop (nat offset) ?out) @ out))"
      using append_take_drop_id [of "nat n" "drop (nat offset) ?out"] by (simp add: add.commute)
    moreover have "map (tx_message io) [nat offset..<nat (offset + n)] = take (nat n) (drop (nat offset) ?out)"
      unfolding at(1) by (rule tx_messages [OF at(2)])
    ultimately show ?case
      using rest sent by (intro exI [of _ "Suc fuel"]) (simp add: send_loop.simps [of "Suc fuel"])
  qed
qed

lemma send_frame_refused:
  assumes "refuses bad (mmsg_outbox io) f"
  shows "\<exists>fuel. \<forall>more. io_run_client_send_frame (fuel + more) f io = Some (send_result bad (mmsg_outbox io))"
proof -
  have "length (mmsg_outbox io) = tx_length (clients_io io)" by (simp add: mmsg_outbox_def)
  with send_loop_refused [OF assms, of "int (tx_length (clients_io io))" 0 0] show ?thesis
    by (auto simp: io_run_client_send_frame_def [symmetric] intro: send_frame_mono)
qed

section \<open>The property\<close>

definition to_send :: "'ep kernel \<Rightarrow> ('ep, 'ep io_worker) relay \<Rightarrow> ('ep \<times> u8 list) list" where
  "to_send k r = spec_peers (spec_clients (fst (arrivals k r)) (registered r)) (snd (arrivals k r))"

text \<open>C12. One client can stop the relay for all: an iteration of a worker whose peer datagrams include one for a
  client at an endpoint the kernel refuses to send to aborts the process, whatever else is to be sent and
  whoever sent it; in an iteration without such a datagram everything is sent. Either way the loop ends.\<close>

theorem mmsg_refused_send_aborts:
  assumes "worker_ok n (lib r)" and "thread_ok t r"
    and "recv_ok n (client_recvmmsg k)" and "recv_ok n (peer_recvmmsg k)" and "0 \<le> timer_read k"
    and "refuses bad (to_send k r) (sendmmsg k)"
  shows "\<exists>fuel. \<forall>more. case worker_iteration (fuel + more) k t r of
      None \<Rightarrow> False
    | Some (Inl e) \<Rightarrow> e = Abort ''sendmmsg error'' \<and> (\<exists>m \<in> set (to_send k r). bad (fst m))
    | Some (Inr (out, _, _)) \<Rightarrow> out = to_send k r \<and> (\<forall>m \<in> set (to_send k r). \<not> bad (fst m))"
proof -
  from receive_phase_refines [OF assms(1-5)] obtain line r' where
    r': "receive_phase k t (r\<lparr>lib := io_worker_begin_frame (lib r)\<rparr>) = Inr (line, r')"
      "mmsg_outbox (lib r') = to_send k r"
    by (auto simp: Let_def to_send_def arrivals_def)
  from send_frame_refused [of bad "lib r'" "sendmmsg k"] assms(6) obtain fuel where
    "\<forall>more. io_run_client_send_frame (fuel + more) (sendmmsg k) (lib r') = Some (send_result bad (to_send k r))"
    unfolding r'(2) by blast
  then show ?thesis
    by (intro exI [of _ fuel]) (auto simp: worker_iteration_sends [OF r'(1)] send_result_def)
qed

text \<open>The iteration of \<open>demo_kernel\<close>, where endpoint 11 registers and a datagram for it follows, with a kernel
  that refuses to send to 11.\<close>

definition refusing_kernel :: "u64 kernel" where
  "refusing_kernel = demo_kernel\<lparr>sendmmsg := \<lambda>_ _. Send_error\<rparr>"

lemma refusing_kernel_ok:
  "recv_ok 2 (client_recvmmsg refusing_kernel)" "recv_ok 2 (peer_recvmmsg refusing_kernel)" "0 \<le> timer_read refusing_kernel"
  using demo_kernel_ok by (simp_all add: refusing_kernel_def)

lemma mmsg_refused_send_aborts_witness:
  "\<exists>fuel. worker_iteration fuel refusing_kernel 0 demo_relay = Some (Inl (Abort ''sendmmsg error''))"
proof -
  have "registered demo_relay = Map.empty"
    by (simp add: demo_relay_def relay_init_def registered_def fun_eq_iff)
  then have out: "to_send refusing_kernel demo_relay = [(11, store_le 8 1 @ [100])]"
    using demo_delivered
    by (simp add: to_send_def arrivals_def refusing_kernel_def Let_def spec_clients_def spec_client_def spec_peer_def
        demo_kernel_def del: store_le.simps)
  have "refuses (\<lambda>ep. ep = 11) (to_send refusing_kernel demo_relay) (sendmmsg refusing_kernel)"
    unfolding out by (auto simp: refuses_def refusing_kernel_def sends_progress_def)
  from mmsg_refused_send_aborts [OF demo_relay_ok refusing_kernel_ok this] obtain fuel where
    "\<forall>more. case worker_iteration (fuel + more) refusing_kernel 0 demo_relay of
      None \<Rightarrow> False
    | Some (Inl e) \<Rightarrow> e = Abort ''sendmmsg error''
        \<and> (\<exists>m \<in> set [(11 :: u64, store_le 8 (1 :: u64) @ [100 :: u8])]. fst m = 11)
    | Some (Inr (out, _, _)) \<Rightarrow> out = [(11, store_le 8 (1 :: u64) @ [100])]
        \<and> (\<forall>m \<in> set [(11 :: u64, store_le 8 (1 :: u64) @ [100 :: u8])]. fst m \<noteq> 11)"
    unfolding out by blast
  from this [rule_format, of 0] show ?thesis
    by (intro exI [of _ fuel]) (auto split: option.splits sum.splits)
qed

end
