(* ===== verification/Socket_Queues.thy ===== *)
theory Socket_Queues
  imports Mmsg_Loop Uring Thread_Pool
begin

text \<open>
  The worker of the mmsg experiment over sockets that hold queues of datagrams. Theory \<open>Mmsg\<close> asks little of
  \<open>recvmmsg\<close>; here it is a function: it takes datagrams off a queue, one per header, and stores of each
  its source, its length and as many bytes as the vector of the header has room for. The kernel cuts a
  longer datagram and says so in \<open>msg_flags\<close>, which the code does not read.
\<close>

section \<open>recvmmsg over a queue\<close>

text \<open>Message \<open>i\<close> of the call: the address, the length and the bytes it stores.\<close>

definition stored_bytes :: "'ep io_vectors \<Rightarrow> ('ep \<times> u8 list) list \<Rightarrow> nat \<Rightarrow> u8 list" where
  "stored_bytes v q i = take (iov_len (vectors v ! msg_iov (messages v ! i))) (snd (q ! i))"

definition queue_recvmmsg :: "('ep \<times> u8 list) list \<Rightarrow> 'ep recv_call" where
  "queue_recvmmsg q v mem =
     (let n = min (length q) (length (messages v))
      in \<lparr>received = int n,
          from_addresses = fold (\<lambda>i as. as[msg_name (messages v ! i) := fst (q ! i)]) [0..<n] (addresses v),
          lengths = fold (\<lambda>i ls. ls[i := of_nat (length (stored_bytes v q i))]) [0..<n] (map msg_len (messages v)),
          memory = fold (\<lambda>i. write_mem (iov_base (vectors v ! msg_iov (messages v ! i))) (stored_bytes v q i)) [0..<n] mem\<rparr>)"

lemma fold_update_upt:
  assumes "n \<le> length xs"
  shows "length (fold (\<lambda>i xs. xs[i := f i]) [0..<n] xs) = length xs"
    and "i < n \<Longrightarrow> fold (\<lambda>i xs. xs[i := f i]) [0..<n] xs ! i = f i"
  using assms by (induction n) (auto simp: nth_list_update)

lemma read_mem_apart:
  "base + n \<le> base' \<or> base' + length bs \<le> base \<Longrightarrow> read_mem (write_mem base' bs mem) base n = read_mem mem base n"
  by (auto simp: read_mem_def write_mem_def)

text \<open>Slots of one size do not overlap.\<close>

lemma read_slot:
  assumes "\<forall>i < n. length (f i) \<le> k" and "i < n"
  shows "read_mem (fold (\<lambda>i. write_mem (k * i) (f i)) [0..<n] mem) (k * i) (length (f i)) = f i"
  using assms
proof (induction n)
  case (Suc n)
  show ?case
  proof (cases "i = n")
    case True
    then show ?thesis by simp
  next
    case False
    with Suc.prems(2) have i: "i < n" by simp
    then have "k * Suc i \<le> k * n" by (intro mult_le_mono2) simp
    moreover have "length (f i) \<le> k" using Suc.prems i by simp
    ultimately have "k * i + length (f i) \<le> k * n" by simp
    with Suc.IH i Suc.prems(1) show ?thesis by (simp add: read_mem_apart)
  qed
qed simp

section \<open>What a worker finds in its arrays\<close>

definition truncated :: "'ep \<times> u8 list \<Rightarrow> 'ep \<times> u8 list" where
  "truncated d = (fst d, take 1024 (snd d))"

lemma queue_recvmmsg_arrays:
  fixes q :: "('ep \<times> u8 list) list"
  assumes "arrays_ok n v" and "vectors v = slots n 1024"
  defines "m \<equiv> min (length q) n" and "f \<equiv> (\<lambda>i. take 1024 (snd (q ! i)))"
  shows "queue_recvmmsg q v mem =
    \<lparr>received = int m, from_addresses = fold (\<lambda>i xs. xs[i := fst (q ! i)]) [0..<m] (addresses v),
     lengths = fold (\<lambda>i xs. xs[i := of_nat (length (f i))]) [0..<m] (map msg_len (messages v)),
     memory = fold (\<lambda>i. write_mem (1024 * i) (f i)) [0..<m] mem\<rparr>"
proof -
  have at: "msg_name (messages v ! i) = i" "msg_iov (messages v ! i) = i" "vectors v ! i = \<lparr>iov_base = 1024 * i, iov_len = 1024\<rparr>"
    if "i \<in> set [0..<m]" for i
    using assms(1,2) that by (simp_all add: arrays_ok_def m_def)
  have len: "length (messages v) = n" using assms(1) by (simp add: arrays_ok_def)
  show ?thesis
    unfolding queue_recvmmsg_def Let_def len m_def [symmetric] f_def stored_bytes_def
    by (auto simp: at intro!: fold_cong)
qed

lemma queue_recvmmsg_delivers:
  assumes "arrays_ok n v" and "vectors v = slots n 1024"
  shows "delivered (queue_recvmmsg q v mem) = map truncated (take n q)"
proof -
  let ?m = "min (length q) n"
  let ?f = "\<lambda>i. take 1024 (snd (q ! i))"
  have len: "?m \<le> length (addresses v)" "?m \<le> length (map msg_len (messages v))"
    using assms(1) by (simp_all add: arrays_ok_def)
  have "(fold (\<lambda>i xs. xs[i := fst (q ! i)]) [0..<?m] (addresses v) ! i,
      read_mem (fold (\<lambda>i. write_mem (1024 * i) (?f i)) [0..<?m] mem) (1024 * i)
        (unat (fold (\<lambda>i xs. xs[i := of_nat (length (?f i))]) [0..<?m] (map msg_len (messages v)) ! i))) = truncated (q ! i)"
    if i: "i < ?m" for i
  proof -
    have "unat (of_nat (length (?f i)) :: u32) = length (?f i)" by (simp add: unat_of_nat)
    with fold_update_upt(2) [OF len(1) i, of "\<lambda>i. fst (q ! i)"] fold_update_upt(2) [OF len(2) i, of "\<lambda>i. of_nat (length (?f i))"]
      read_slot [of ?m ?f 1024 i mem] i
    show ?thesis by (simp only: truncated_def) simp
  qed
  then show ?thesis
    unfolding delivered_def queue_recvmmsg_arrays [OF assms]
    by (simp only: recv_result.simps nat_int) (auto intro!: nth_equalityI)
qed

lemma length_fold_update: "length (fold (\<lambda>i xs. xs[g i := f i]) is xs) = length xs"
  by (induction "is" arbitrary: xs) simp_all

lemma queue_recvmmsg_ok: "recv_ok n (queue_recvmmsg q)"
  by (simp add: recv_ok_def queue_recvmmsg_def Let_def arrays_ok_def length_fold_update)

text \<open>Cutting loses no registration, and of a forwarded datagram only the end.\<close>

lemma spec_clients_cut: "spec_clients (map truncated ds) m = spec_clients ds m"
proof -
  have "spec_client src (take 1024 bs) m = spec_client src bs m" for src :: 'a and bs m
    by (simp add: spec_client_def min_def)
  then show ?thesis
    by (induction ds arbitrary: m) (auto simp: spec_clients_def truncated_def)
qed

lemma spec_peers_cut: "spec_peers m (map (snd \<circ> truncated) ds) = map truncated (spec_peers m (map snd ds))"
proof -
  have "spec_peer m (take 1024 bs) = map_option truncated (spec_peer m bs)" for bs
    by (simp add: spec_peer_def truncated_def option.map_comp comp_def min_def)
  then show ?thesis
    by (induction ds) (auto simp: truncated_def split: option.split)
qed

section \<open>One iteration, and many\<close>

definition socket_kernel :: "('ep \<times> u8 list) list \<Rightarrow> ('ep \<times> u8 list) list \<Rightarrow> 'ep kernel \<Rightarrow> bool" where
  "socket_kernel cq pq k \<longleftrightarrow>
     client_ready k = (cq \<noteq> []) \<and> peer_ready k = (pq \<noteq> []) \<and> client_recvmmsg k = queue_recvmmsg cq
   \<and> peer_recvmmsg k = queue_recvmmsg pq \<and> send_ok (sendmmsg k) \<and> 0 \<le> timer_read k"

text \<open>An iteration takes as many datagrams off each queue as the worker has headers.\<close>

lemma iteration_over_queues:
  assumes "worker_ok n (lib r)" and "thread_ok t r" and "socket_kernel cq pq k"
  shows "\<exists>fuel line r'. worker_iteration fuel k t r
      = Some (Inr (map truncated (spec_peers (registered r') (map snd (take n pq))), line, r'))
    \<and> registered r' = spec_clients (take n cq) (registered r) \<and> worker_ok n (lib r') \<and> thread_ok t r'"
proof -
  note k = assms(3) [unfolded socket_kernel_def]
  have rx: "arrays_ok n (rx (clients_io (lib r)))" "vectors (rx (clients_io (lib r))) = slots n 1024"
    "arrays_ok n (rx (peers_io (lib r)))" "vectors (rx (peers_io (lib r))) = slots n 1024"
    using assms(1) by (simp_all add: worker_ok_def)
  note delivers = queue_recvmmsg_delivers [OF rx(1,2)] queue_recvmmsg_delivers [OF rx(3,4)]
  have "(if cq \<noteq> [] then map truncated (take n cq) else []) = map truncated (take n cq)"
    "(if pq \<noteq> [] then map snd (map truncated (take n pq)) else []) = map (snd \<circ> truncated) (take n pq)" by simp_all
  with worker_iteration_returns [OF assms(1,2), of k] k delivers obtain fuel line r' where
    "worker_iteration fuel k t r = Some (Inr (map truncated (spec_peers (spec_clients (take n cq) (registered r))
        (map snd (take n pq))), line, r'))"
    "registered r' = spec_clients (take n cq) (registered r)" "worker_ok n (lib r')" "thread_ok t r'"
    by (auto simp: Let_def queue_recvmmsg_ok spec_clients_cut spec_peers_cut)
  then show ?thesis by (intro exI [of _ fuel] exI [of _ line] exI [of _ r']) simp
qed

text \<open>Registrations in between do not change where the datagrams of registered identifiers go.\<close>

lemma spec_clients_extend: "m \<subseteq>\<^sub>m spec_clients ds m"
  by (auto simp: map_le_def dom_def spec_clients_stands)

definition known_to :: "(u64 \<rightharpoonup> 'ep) \<Rightarrow> 'ep \<times> u8 list \<Rightarrow> bool" where
  "known_to m d \<longleftrightarrow> m (load_le (take 8 (snd d))) \<noteq> None"

lemma known_truncated [simp]: "known_to m (truncated d) = known_to m d"
  by (simp add: known_to_def truncated_def min_def)

lemma spec_peers_known:
  assumes "m \<subseteq>\<^sub>m m'"
  shows "filter (known_to m) (spec_peers m' bss) = spec_peers m bss"
proof (induction bss)
  case (Cons bs bss)
  have "m' (load_le (take 8 bs)) = m (load_le (take 8 bs))" if "m (load_le (take 8 bs)) \<noteq> None"
    using assms that by (auto simp: map_le_def dom_def)
  then show ?case using Cons.IH by (auto simp: spec_peer_def known_to_def split: option.split)
qed simp

lemma burst_forwarded:
  assumes "worker_ok n (lib r)" and "thread_ok t r" and "m \<subseteq>\<^sub>m registered r"
    and "\<forall>i < length ks. socket_kernel (drop (i * n) cq) (drop (i * n) pq) (ks ! i)"
  shows "\<exists>fuels fs r'. length fuels = length ks \<and> worker_loop (zip fuels ks) t r = Some (Inr (fs, r'))
    \<and> registered r' = spec_clients (take (length ks * n) cq) (registered r)
    \<and> filter (known_to m) (concat (map transmitted fs)) = map truncated (spec_peers m (map snd (take (length ks * n) pq)))
    \<and> worker_ok n (lib r') \<and> thread_ok t r'"
  using assms
proof (induction ks arbitrary: r cq pq)
  case Nil
  then show ?case by (simp add: spec_clients_def)
next
  case (Cons k ks)
  have "socket_kernel cq pq k" using Cons.prems(4) by auto
  from iteration_over_queues [OF Cons.prems(1,2) this] obtain fuel line r1 where
    r1: "worker_iteration fuel k t r = Some (Inr (map truncated (spec_peers (registered r1) (map snd (take n pq))), line, r1))"
      "registered r1 = spec_clients (take n cq) (registered r)" "worker_ok n (lib r1)" "thread_ok t r1" by blast
  have m: "m \<subseteq>\<^sub>m registered r1" using map_le_trans [OF Cons.prems(3) spec_clients_extend] by (simp add: r1(2))
  have "\<forall>i < length ks. socket_kernel (drop (i * n) (drop n cq)) (drop (i * n) (drop n pq)) (ks ! i)"
    using Cons.prems(4) by (auto simp: add.commute)
  from Cons.IH [OF r1(3,4) m this] obtain fuels fs r' where
    rest: "length fuels = length ks" "worker_loop (zip fuels ks) t r1 = Some (Inr (fs, r'))"
      "registered r' = spec_clients (take (length ks * n) (drop n cq)) (registered r1)"
      "filter (known_to m) (concat (map transmitted fs))
         = map truncated (spec_peers m (map snd (take (length ks * n) (drop n pq))))"
      "worker_ok n (lib r')" "thread_ok t r'" by blast
  have first: "filter (known_to m) (map truncated (spec_peers (spec_clients (take n cq) (registered r)) bss))
      = map truncated (spec_peers m bss)" for bss
    using spec_peers_known [OF m [unfolded r1(2)]] by (simp add: filter_map comp_def)
  have take: "take (length (k # ks) * n) xs = take n xs @ take (length ks * n) (drop n xs)" for xs :: "('a \<times> u8 list) list"
    by (simp add: take_add)
  show ?case
    using r1 rest unfolding take by (intro exI [of _ "fuel # fuels"]) (simp add: first spec_peers_append spec_clients_append)
qed

section \<open>The property\<close>

text \<open>C11. A burst is forwarded, complete and in order, however long it is: with queues of any length in its two
  sockets, after any number of iterations of an mmsg worker the clients at the front of their queue, as
  many as the worker has headers per iteration, are registered, and the messages transmitted for the
  identifiers that were registered before are exactly those of the peer datagrams at the front of theirs, whoever
  registered meanwhile. Only, of a datagram of more than 1024 bytes the rest is lost.\<close>

theorem mmsg_burst_forwarded:
  assumes "worker_ok n (lib r)" and "thread_ok t r"
    and "\<forall>i < length ks. socket_kernel (drop (i * n) cq) (drop (i * n) pq) (ks ! i)"
  shows "\<exists>fuels fs r'. length fuels = length ks \<and> worker_loop (zip fuels ks) t r = Some (Inr (fs, r'))
    \<and> registered r' = spec_clients (take (length ks * n) cq) (registered r)
    \<and> filter (known_to (registered r)) (concat (map transmitted fs))
        = map truncated (spec_peers (registered r) (map snd (take (length ks * n) pq)))
    \<and> worker_ok n (lib r') \<and> thread_ok t r'"
  by (rule burst_forwarded [OF assms(1,2) map_le_refl assms(3)])

text \<open>Three datagrams for a client, the second of 1025 bytes, and a worker with two headers.\<close>

definition known_client :: "(u64, u64 io_worker) relay" where
  "known_client = demo_relay\<lparr>sessions := [1 \<mapsto> \<lparr>client_endpoint = 11\<rparr>]\<rparr>"

definition burst :: "(u64 \<times> u8 list) list" where
  "burst = [(12, store_le 8 1), (12, store_le 8 1 @ replicate 1017 7), (13, store_le 8 1 @ [8])]"

definition burst_kernel :: "nat \<Rightarrow> u64 kernel" where
  "burst_kernel i = demo_kernel\<lparr>client_ready := False, client_recvmmsg := queue_recvmmsg [],
     peer_recvmmsg := queue_recvmmsg (drop (i * 2) burst)\<rparr>"

lemma mmsg_burst_forwarded_witness:
  "\<exists>fuels fs r'. worker_loop (zip fuels [burst_kernel 0, burst_kernel 1]) 0 known_client = Some (Inr (fs, r'))
     \<and> filter (known_to (registered known_client)) (concat (map transmitted fs))
       = [(11, store_le 8 1), (11, store_le 8 1 @ replicate 1016 7), (11, store_le 8 1 @ [8])]"
proof -
  have ok: "worker_ok 2 (lib known_client)" "thread_ok 0 known_client"
    using demo_relay_ok by (simp_all add: known_client_def thread_ok_def)
  let ?ks = "[burst_kernel 0, burst_kernel 1]"
  have "\<forall>i < length ?ks. socket_kernel (drop (i * 2) []) (drop (i * 2) burst) (?ks ! i)"
    using demo_kernel_ok(3,4) by (auto simp: less_Suc_eq socket_kernel_def burst_kernel_def demo_kernel_def burst_def)
  from mmsg_burst_forwarded [OF ok this] obtain fuels fs r' where
    "worker_loop (zip fuels ?ks) 0 known_client = Some (Inr (fs, r'))"
    "filter (known_to (registered known_client)) (concat (map transmitted fs))
       = map truncated (spec_peers (registered known_client) (map snd (take 4 burst)))" by auto
  moreover have "map truncated (spec_peers (registered known_client) (map snd (take 4 burst)))
      = [(11, store_le 8 1), (11, store_le 8 1 @ replicate 1016 7), (11, store_le 8 1 @ [8])]"
    by (simp add: registered_def known_client_def burst_def spec_peer_def truncated_def del: store_le.simps)
  ultimately show ?thesis by metis
qed

end
