(* ===== verification/Uring_Sockets.thy ===== *)
theory Uring_Sockets
  imports Uring
begin

text \<open>
  Which socket an operation of the io_uring worker is for. The submissions name a socket by its place in the
  table of files that the worker registered with the ring (\<open>IOSQE_FIXED_FILE\<close>), the handlers go by
  the type of the event; that the two agree with the ports the sockets were bound to is decided in
  three different places of \<^verbatim>\<open>uring/relay.cpp\<close>.
\<close>

section \<open>The registered files\<close>

fun files_of :: "syscall \<Rightarrow> int list" where
  "files_of (Register_files fds) = fds"
| "files_of _ = []"

text \<open>The descriptor the kernel uses for a submission, after the calls that set the ring up.\<close>

definition target_fd :: "syscall list \<Rightarrow> sqe \<Rightarrow> int option" where
  "target_fd calls s =
     (if fixed_file s
      then let files = concat (map files_of calls)
           in if 0 \<le> sqe_fd s \<and> nat (sqe_fd s) < length files then Some (files ! nat (sqe_fd s)) else None
      else Some (sqe_fd s))"

definition uses_port :: "syscall list \<Rightarrow> sqe \<Rightarrow> addrinfo \<Rightarrow> bool" where
  "uses_port calls s port \<longleftrightarrow> (case target_fd calls s of None \<Rightarrow> False | Some fd \<Rightarrow> Bind fd port \<in> set calls)"

lemma files_of_options [simp]: "concat (map files_of (option_calls fd)) = []"
  by (simp add: option_calls_def)

lemma start_calls_files: "concat (map files_of (uring_start_calls i c p)) = [p, c]"
  by (simp add: uring_start_calls_def)

lemma start_calls_binds: "Bind c client_port \<in> set (uring_start_calls i c p)" "Bind p peer_port \<in> set (uring_start_calls i c p)"
  by (simp_all add: uring_start_calls_def)

lemma started_port:
  assumes "fixed_file s"
  shows "sqe_fd s = 1 \<Longrightarrow> uses_port (uring_start_calls i c p) s client_port"
    and "sqe_fd s = 0 \<Longrightarrow> uses_port (uring_start_calls i c p) s peer_port"
  using assms start_calls_binds by (simp_all add: uses_port_def target_fd_def start_calls_files)

section \<open>The property\<close>

text \<open>C17. The datagrams of port 3478 are handled as those of clients, those of port 3479 as those of peers, and what
  is forwarded leaves from port 3478, where the client sent its registration: in every state that a
  worker can reach, an operation that is queued or in flight is, by the table of registered files, on the
  socket bound to the port that the type of its event stands for.\<close>

theorem uring_sockets_follow_ports:
  assumes "i < unat threads" and "uring_worker_start z t i (relay_init threads l) os [] = (Inr r, calls)"
    and "ring_run t (ring_start r) ls w" and "s \<in> set (operations w)"
  shows "case event_type (io_events (ctx w) ! sqe_event s) of
      Type_client_rx \<Rightarrow> op s = Op_recvmsg \<and> uses_port calls s client_port
    | Type_peer_rx \<Rightarrow> op s = Op_recvmsg \<and> uses_port calls s peer_port
    | Type_peer_tx \<Rightarrow> op s = Op_sendmsg \<and> uses_port calls s client_port
    | Type_timer \<Rightarrow> op s = Op_timeout
    | Type_invalid \<Rightarrow> False"
proof -
  from uring_worker_start_result [OF assms(1,2)] obtain c p where calls: "calls = uring_start_calls i c p" by blast
  from ring_reachable [OF assms(1-3)] assms(4) have "sqe_ok (ctx w) s"
    "ring_client_socket (ctx w) = 1" "ring_peer_socket (ctx w) = 0"
    by (simp_all add: ring_ok_def ops_ok_def)
  then show ?thesis
    unfolding calls sqe_ok_def by (auto intro: started_port split: ring_event_type.splits)
qed

text \<open>An operating system whose sockets are 3 for the clients and 4 for the peers.\<close>

definition two_sockets :: os where
  "two_sockets tr c = (case c of Socket a \<Rightarrow> if a = client_port then 3 else 4 | _ \<Rightarrow> 0)"

lemma two_sockets_start:
  "\<exists>r. uring_worker_start (0 :: u64) 0 0 (relay_init 1 (0 :: nat)) two_sockets [] = (Inr r, uring_start_calls 0 3 4)
     \<and> lib r = armed_context (initial_context 0 0 3 4)"
proof -
  have thread: "on_thread_start 0 0 (relay_init 1 (0 :: nat) :: (u64, nat) relay)
      = Inr ((relay_init 1 0)\<lparr>this_thread_statistics := [0 \<mapsto> 0]\<rparr>)"
    by (simp add: on_thread_start_def relay_init_def)
  define calls where "calls = takeWhile (\<lambda>c. c \<noteq> Latch_wait) (uring_start_calls 0 3 4)"
  have init: "listen_context_initialize (0 :: u64) 0 two_sockets [] = (Inr (initial_context 0 0 3 4), calls)"
    by (simp add: listen_context_initialize_def prog_defs initial_context_def num_events_def is_main_worker_def
        two_sockets_def calls_def uring_start_calls_def option_calls_def create_udp_socket_uring_def set_udp_options_def
        ensure_successP_def client_port_def peer_port_def ring_entries_def memory_per_packet_def)
  have step: "bindP (listen_context_initialize (0 :: u64) 0) f two_sockets [] = f (initial_context 0 0 3 4) two_sockets calls"
    for f :: "u64 listen_context \<Rightarrow> (u64, u64 listen_context) relay prog"
    by (simp add: bindP_def init)
  show ?thesis
    unfolding uring_worker_start_def step
    by (simp add: arm_worker_eq thread lift_res_def)
      (simp add: prog_defs two_sockets_def bind_socket_def calls_def uring_start_calls_def option_calls_def initial_context_def)
qed

lemma uring_sockets_follow_ports_witness:
  "\<exists>r calls. uring_worker_start (0 :: u64) 0 0 (relay_init 1 (0 :: nat)) two_sockets [] = (Inr r, calls)
     \<and> uses_port calls (recv_sqe 15 1) client_port \<and> \<not> uses_port calls (recv_sqe 15 1) peer_port
     \<and> target_fd calls (recv_sqe 15 1) = Some 3 \<and> target_fd calls (recv_sqe 14 0) = Some 4"
proof -
  from two_sockets_start obtain r :: "(u64, u64 listen_context) relay" where
    r: "uring_worker_start 0 0 0 (relay_init 1 (0 :: nat)) two_sockets [] = (Inr r, uring_start_calls 0 3 4)"
      "lib r = armed_context (initial_context 0 0 3 4)" by blast
  have "recv_sqe 15 1 \<in> set (operations (ring_start r))"
    "event_type (io_events (ctx (ring_start r)) ! 15) = Type_client_rx"
    by (simp_all add: operations_def ring_start_def r(2) armed_context_def initial_context_def Let_def)
  with uring_sockets_follow_ports [OF _ r(1) run_start this(1)] have "uses_port (uring_start_calls 0 3 4) (recv_sqe 15 1) client_port"
    by simp
  with r(1) show ?thesis
    by (intro exI conjI) (assumption, assumption, auto simp: uses_port_def target_fd_def uring_start_calls_def option_calls_def
      client_port_def peer_port_def)
qed

end
