(* ===== verification/Mmsg_Service.thy ===== *)
theory Mmsg_Service
  imports Mmsg_Workers
begin

text \<open>
  The mmsg experiment from its command line to forwarding, with all the workers that \<open>run\<close> of
  \<^verbatim>\<open>mmsg/relay.cpp\<close> starts on the one relay of the process. What the workers do in whatever
  order their calls come is in theory \<open>Mmsg_Workers\<close>; here are their starts, and whole iterations of
  their loops in which no system call fails.
\<close>

section \<open>A worker starts\<close>


section \<open>Whole iterations of the workers\<close>







section \<open>The property\<close>




end
