(* ===== verification/Libuv_Service.thy ===== *)
theory Libuv_Service
  imports Libuv_Workers Libuv_Setup
begin

text \<open>
  The libuv experiment from its command line to forwarding: the threads that \<open>run\<close> of
  \<^verbatim>\<open>libuv/relay.cpp\<close> starts (theory \<open>Libuv_Setup\<close>), on the one relay that its constructor sets up,
  with their callbacks in any order (theory \<open>Libuv_Workers\<close>).
\<close>

section \<open>The threads that are started\<close>

fun started_thread :: "syscall \<Rightarrow> nat list" where
  "started_thread (Uv (Start_sys_thread t)) = [t]"
| "started_thread _ = []"

definition started_threads :: "syscall list \<Rightarrow> nat list" where
  "started_threads calls = concat (map started_thread calls)"

lemma started_threads_simps [simp]:
  "started_threads [] = []" "started_threads (c # cs) = started_thread c @ started_threads cs"
  "started_threads (cs @ ds) = started_threads cs @ started_threads ds"
  by (simp_all add: started_threads_def)

lemma listener_starts [simp]: "started_threads (listener_calls pf m i s port) = []"
  by (cases pf) (simp_all add: listener_calls_def reuse_calls_def)

lemma run_starts: "started_threads (run_calls pf m conf) = [0..<unat (conf_threads conf)]"
proof -
  have "started_threads (concat (map (thread_calls pf m conf) is)) = is" for "is"
    by (induction "is") (simp_all add: thread_calls_def)
  then show ?thesis by (simp add: run_calls_def)
qed

text \<open>The calls made before a failure start the first threads.\<close>

lemma upt_prefix: "xs @ ys = [0..<n] \<Longrightarrow> \<exists>k \<le> n. xs = [0..<k]"
proof -
  assume *: "xs @ ys = [0..<n]"
  then have "length (xs @ ys) = n" by simp
  then have "length xs \<le> n" by simp
  moreover have "xs = take (length xs) [0..<n]" by (simp add: * [symmetric])
  then have "xs = [0..<length xs]" using calculation by simp
  ultimately show ?thesis by blast
qed

lemma run_starts_prefix: "\<exists>i \<le> unat (conf_threads conf). started_threads (take k (run_calls pf m conf)) = [0..<i]"
proof -
  have "started_threads (take k (run_calls pf m conf)) @ started_threads (drop k (run_calls pf m conf))
      = [0..<unat (conf_threads conf)]"
    by (simp flip: started_threads_simps(3) add: run_starts)
  from upt_prefix [OF this] show ?thesis by blast
qed

section \<open>A thread starts\<close>

lemma thread_start_in_pool:
  assumes len: "length (per_thread_statistics (common w)) = n" and n: "n < 2 ^ 16" and t: "t < n" "t \<notin> running w"
  shows "\<exists>r. thread_main t t (common w) = Inr r
    \<and> pool_step (uv_task_step m z) n w (t, Starts) (w\<lparr>common := r, running := insert t (running w)\<rparr>)"
proof -
  have "unat (of_nat t :: u16) = t" using t(1) n by (simp add: unat_of_nat)
  then obtain r where r: "on_thread_start t (of_nat t) (common w) = Inr r"
    using t(1) len by (simp add: on_thread_start_def)
  from starts [OF t r, of "uv_task_step m z"] r show ?thesis by (auto simp: thread_main_def)
qed

section \<open>What becomes of a send\<close>

lemma in_transit_keeps:
  assumes "abs_pool_run uv_abs_call a zs b" and "(ep, bs) \<in># in_transit (snd a u)" and "(u, Does (Sends ep bs)) \<notin> set zs"
  shows "(ep, bs) \<in># in_transit (snd b u)"
  using assms
proof induction
  case (abs_does a ls m vs t l m' v)
  then have "(ep, bs) \<in># in_transit (vs u)" "t = u \<Longrightarrow> l \<noteq> Sends ep bs" by auto
  then show ?case
    using abs_does.hyps(2)
    by (cases "(l, (m, vs t))" rule: uv_abs_next.cases)
      (auto simp: uv_abs_call_def in_diff_count split: if_splits list.splits uv_socket.splits)
qed simp_all

text \<open>A registration that one thread has handled is there for every thread.\<close>

lemma registration_shared:
  assumes run: "pool_run (uv_task_step m z) (unat threads) (pool_start threads (\<lambda>_. task_init))
      (xs @ (t, Does (Callback Client_socket src bs)) # ys @ (u, Does (Callback Peer_socket from msg)) # zs) w"
    and len: "length bs = 8" "8 \<le> length msg" "take 8 msg = bs"
    and new: "\<forall>(s, b) \<in> set (clients_in called_clients xs). length b = 8 \<longrightarrow> load_le b \<noteq> load_le bs"
    and kept: "(u, Does (Sends src msg)) \<notin> set zs"
  shows "(src, msg) \<in> set (uv_outbox (task_thread (own w u)))"
proof -
  let ?ls = "xs @ (t, Does (Callback Client_socket src bs)) # ys"
  have "\<forall>t < unat threads. stage_good m (task_stage (task_init :: 'a uv_task)) (task_thread task_init)"
    by (simp add: task_init_def thread_init_buffers(1))
  from relay_threads.threads_refine(1) [OF uv_task_threads this run] obtain a b where
    steps: "abs_pool_run uv_abs_call (Map.empty, task_view \<circ> (\<lambda>_. task_init)) ?ls a"
      "abs_pool_run uv_abs_call a [(u, Does (Callback Peer_socket from msg))] b"
      "abs_pool_run uv_abs_call b zs (registered (common w), task_view \<circ> own w)"
    using abs_pool_append [of uv_abs_call _ ?ls "[(u, Does (Callback Peer_socket from msg))] @ zs"]
      abs_pool_append [of uv_abs_call _ "[(u, Does (Callback Peer_socket from msg))]" zs] by force
  have "fst a = spec_clients (clients_in called_clients ?ls) Map.empty"
    using relay_threads.abs_pool_table [OF uv_task_threads steps(1)] by simp
  then have "fst a (load_le bs) = Some src" using spec_clients_first [OF len(1) new] by simp
  then have "(src, msg) \<in># in_transit (snd b u)"
    using steps(2) len by (auto simp: abs_pool_one uv_abs_call_def spec_peer_def split: list.splits if_splits)
  from in_transit_keeps [OF steps(3) this kept] have "(src, msg) \<in># in_transit (task_view (own w u))" by simp
  then show ?thesis
    by (cases "(task_stage (own w u), task_thread (own w u))" rule: uv_view_of.cases) (simp_all add: task_view_def)
qed

section \<open>The property\<close>

text \<open>C26. The libuv experiment from its command line to forwarding. If the arguments are accepted there is at
  least one thread; \<open>run\<close> makes the calls that start exactly the threads below that number, in order, or
  aborts after the calls for the first of them; the constructor sets up the relay with which the threads begin. On
  this one relay, in any state that the threads can reach, whatever libuv does with their sends: a thread that
  has not started gets its counters; and when a thread has handled the first registration of an
  identifier, a datagram with that identifier that any thread handles later is in flight in a send of that
  thread, whole and for the endpoint registered, until it is transmitted (a send that libuv refuses, or reports
  as failed, ends the process instead).\<close>

theorem libuv_threads_serve:
  fixes z :: 'ep
  assumes "libuv_config hc args = Inr conf" and "relay_construct conf () os tr = (Inr (addr, r), tr')"
  shows "0 < unat (conf_threads conf)
    \<and> (case run_libuv pf have_mmsg conf os' [] of
        (Inr x, calls) \<Rightarrow> started_threads calls = [0..<unat (conf_threads conf)]
      | (Inl e, calls) \<Rightarrow> (\<exists>s. e = Abort s) \<and> (\<exists>i \<le> unat (conf_threads conf). started_threads calls = [0..<i]))
    \<and> common (pool_start (conf_threads conf) (\<lambda>_. task_init)) = r
    \<and> (\<forall>ls w. pool_run (uv_task_step have_mmsg z) (unat (conf_threads conf)) (pool_start (conf_threads conf) (\<lambda>_. task_init)) ls w \<longrightarrow>
        (\<forall>t < unat (conf_threads conf). t \<notin> running w \<longrightarrow>
          (\<exists>r'. thread_main t t (common w) = Inr r' \<and> pool_step (uv_task_step have_mmsg z) (unat (conf_threads conf)) w (t, Starts)
            (w\<lparr>common := r', running := insert t (running w)\<rparr>)))
      \<and> (\<forall>xs t src bs ys u from msg zs.
          ls = xs @ (t, Does (Callback Client_socket src bs)) # ys @ (u, Does (Callback Peer_socket from msg)) # zs
          \<and> length bs = 8 \<and> 8 \<le> length msg \<and> take 8 msg = bs
          \<and> (\<forall>(s, b) \<in> set (clients_in called_clients xs). length b = 8 \<longrightarrow> load_le b \<noteq> load_le bs)
          \<and> (u, Does (Sends src msg)) \<notin> set zs
          \<longrightarrow> (src, msg) \<in> set (uv_outbox (task_thread (own w u)))))"
proof (intro conjI allI impI)
  let ?n = "unat (conf_threads conf)"
  show "0 < ?n" using assms(1)
    by (auto simp: libuv_config_def at_least_one_thread_def unat_gt_0 split: if_splits)
  show "case run_libuv pf have_mmsg conf os' [] of
        (Inr x, calls) \<Rightarrow> started_threads calls = [0..<?n]
      | (Inl e, calls) \<Rightarrow> (\<exists>s. e = Abort s) \<and> (\<exists>i \<le> ?n. started_threads calls = [0..<i])"
    using conjunct1 [OF libuv_run_order [of pf have_mmsg conf os']]
    by (auto simp: run_starts run_starts_prefix split: prod.splits sum.splits)
  show "common (pool_start (conf_threads conf) (\<lambda>_. task_init)) = r"
    using assms(2) by (auto simp: pool_start_def relay_construct_def bindP_address prog_defs split: prod.splits sum.splits)
  have n: "?n < 2 ^ 16" using unsigned_less [of "conf_threads conf", where ?'a = nat] by simp
  fix ls w assume run: "pool_run (uv_task_step have_mmsg z) ?n (pool_start (conf_threads conf) (\<lambda>_. task_init)) ls w"
  have "\<forall>t < ?n. stage_good have_mmsg (task_stage (task_init :: 'ep uv_task)) (task_thread task_init)"
    by (simp add: task_init_def thread_init_buffers(1))
  from relay_threads.threads_refine(3) [OF uv_task_threads this run]
  have len: "length (per_thread_statistics (common w)) = ?n" by (simp add: relay_threads.pool_ok_def [OF uv_task_threads])
  show "\<exists>r'. thread_main t t (common w) = Inr r' \<and> pool_step (uv_task_step have_mmsg z) ?n w (t, Starts)
      (w\<lparr>common := r', running := insert t (running w)\<rparr>)" if "t < ?n" "t \<notin> running w" for t
    by (rule thread_start_in_pool [OF len n that])
  show "(src, msg) \<in> set (uv_outbox (task_thread (own w u)))"
    if "ls = xs @ (t, Does (Callback Client_socket src bs)) # ys @ (u, Does (Callback Peer_socket from msg)) # zs
          \<and> length bs = 8 \<and> 8 \<le> length msg \<and> take 8 msg = bs
          \<and> (\<forall>(s, b) \<in> set (clients_in called_clients xs). length b = 8 \<longrightarrow> load_le b \<noteq> load_le bs)
          \<and> (u, Does (Sends src msg)) \<notin> set zs" for xs t src bs ys u "from" msg zs
    using registration_shared [of have_mmsg z "conf_threads conf" xs t src bs ys u "from" msg zs w] run that by blast
qed

text \<open>The run of two threads of theory \<open>Libuv_Workers\<close>: thread 0 registers a client, thread 1 forwards to it.\<close>

lemma libuv_threads_serve_witness:
  "\<exists>(conf :: u16 config) w. libuv_config 2 [] = Inr conf \<and> unat (conf_threads conf) = 2
     \<and> pool_run (uv_task_step True (0 :: u64)) 2 (pool_start 2 (\<lambda>_. task_init)) two_receives w
     \<and> (11, store_le 8 1 @ [100]) \<in> set (uv_outbox (task_thread (own w 1)))"
proof -
  define conf :: "u16 config" where "conf = \<lparr>conf_threads = 2, conf_client_port = 3478, conf_peer_port = 3479\<rparr>"
  have conf: "libuv_config 2 [] = Inr conf"
    by (simp add: conf_def libuv_config_def at_least_one_thread_def)
  have con: "relay_construct conf () (\<lambda>_ _. 0) [] = (Inr ((''0.0.0.0'', 3478), relay_init 2 () :: (u64, unit) relay),
        [Uv (Uv_ip4_addr ''0.0.0.0'' 3478)])"
    by (simp add: conf_def relay_construct_def make_ip4_addr_any_with_port_def libuv_call_def die_on_error_def prog_defs)
  have two: "conf_threads conf = 2" "unat (2 :: u16) = 2" by (simp_all add: conf_def)
  obtain w where w: "pool_run (uv_task_step True (0 :: u64)) 2 (pool_start 2 (\<lambda>_. task_init)) two_receives w"
    using two_receives_run two(2) by auto
  let ?xs = "[(0, Starts), (1, Starts), (0, Does (Batch Client_socket [(11, store_le 8 1)])),
     (1, Does (Batch Peer_socket [(7, store_le 8 1 @ [100])]))] :: (nat \<times> u64 uv_activity pool_label) list"
  have "two_receives = ?xs @ (0, Does (Callback Client_socket 11 (store_le 8 1))) # []
      @ (1, Does (Callback Peer_socket 7 (store_le 8 1 @ [100]))) # []"
    by (simp add: two_receives_def)
  then have "(11, store_le 8 1 @ [100]) \<in> set (uv_outbox (task_thread (own w 1)))"
    using libuv_threads_serve [OF conf con, of Other_platform True "\<lambda>_ _. 0" 0, THEN conjunct2, THEN conjunct2, THEN conjunct2,
        unfolded two, rule_format, OF w, THEN conjunct2, rule_format,
        of ?xs 0 11 "store_le 8 1" "[]" 1 7 "store_le 8 1 @ [100]" "[]"]
    by (simp del: store_le.simps)
  with conf two w show ?thesis by auto
qed

end
