(* ===== verification/Spec2Isabelle.thy ===== *)
theory Spec2Isabelle
  imports Intrusive_Stack Statistics Relay Mmsg Sockets Setup Uring Libuv Args Latch Libuv_Setup
    Relay_Soundness Session_Concurrency Seastar Demi Statistics_Concurrency Uring_Loop Startup
    Mmsg_Loop Programs Printing Mmsg_Workers Event_Loop_Threads Unit_Tests Invoke
    Relay_Object Steering Libuv_Workers Refused_Sends
    Socket_Queues Uring_Sockets Mmsg_Service Libuv_Service
begin

text \<open>
  A verification development for \<^verbatim>\<open>urn\<close>, a UDP relay written five times over one core. A client sends
  an identifier of eight bytes and is registered for it; a peer sends datagrams that start with an
  identifier, and each is forwarded, whole, to the client registered for it. The core is the class
  template \<open>urn::relay<Library, MultiThreaded>\<close> of \<^verbatim>\<open>urn/relay.hpp\<close>; each experiment gives it a
  \<open>Library\<close> (endpoints, packets, sockets, a session that can send) and drives it from its
  own event loop: recvmmsg and sendmmsg (\<^verbatim>\<open>mmsg\<close>), io_uring (\<^verbatim>\<open>uring\<close>), libuv, seastar, demikernel.

  \<^bold>\<open>How the parts correspond to the code.\<close>

  \<^item> \<open>Urn_Prelude\<close>: words of 8 to 64 bits, the faults a call can end with (\<open>fault\<close>: null
    dereference, access out of bounds, exceptions, \<open>abort\<close>, an exit, undefined behaviour), their
    sequencing (\<open>bindR\<close>, \<open>foldR\<close>), little-endian loads (\<open>get_session_id\<close>).
  \<^item> \<open>Intrusive_Stack\<close>: \<^verbatim>\<open>urn/intrusive_stack.hpp\<close> over a heap of hooks, with the locale \<open>lifo\<close> of what a
    container of free things promises, interpreted on it and on the event pool of \<open>Uring\<close>.
  \<^item> \<open>Statistics\<close>: the counters of \<^verbatim>\<open>urn/relay.hpp\<close>, their collection, the printed distribution (IEEE
    double arithmetic as rounding of reals) and bit rates.
  \<^item> \<open>Relay\<close>: every operation of the class; its state is the record \<open>relay\<close>, whose field \<open>lib\<close> is the
    state of the library. The abstract specification is \<open>spec_client\<close> (a registration map) and
    \<open>spec_peer\<close> (what is forwarded where). The locales \<open>relay_library\<close>, \<open>forwarding_library\<close>,
    \<open>zero_copy_library\<close> say what the class needs of a library; the handlers are proved against
    them once, and each experiment interprets the one it satisfies on its own model.
  \<^item> \<open>Relay_Soundness\<close>: which sequences of calls into the class can never fault.
  \<^item> \<open>Session_Concurrency\<close>: \<^verbatim>\<open>urn/mutex.hpp\<close> and the locking of the session table, statement by
    statement under every interleaving. \<open>Statistics_Concurrency\<close>: the counters, which no lock protects,
    load by load and store by store.
  \<^item> \<open>Mmsg\<close>: the worker of \<^verbatim>\<open>mmsg/relay.cpp\<close>, its message arrays, frames and send loop; \<open>Mmsg_Loop\<close>: its
    endless loop, and \<open>main\<close>. \<open>Sockets\<close>, \<open>Setup\<close>: socket creation, \<open>run\<close> and the start of a worker,
    in \<^verbatim>\<open>mmsg\<close> and \<^verbatim>\<open>uring\<close>, as programs over a trace of system calls; \<open>Steering\<close>: the filter
    of \<open>attach_bpf\<close> and the sockets that datagrams reach. \<open>Latch\<close>: \<^verbatim>\<open>common/latch.h\<close>;
    \<open>Startup\<close>: workers that start with their calls around it.
  \<^item> \<open>Uring\<close>: \<^verbatim>\<open>uring/relay.cpp\<close>, its event pool, submissions and completions; the kernel is the
    environment of the step relation \<open>ring_step\<close>. \<open>Uring_Loop\<close>: the loop of \<open>worker\<close> in the order
    of its code, with the flag that SIGINT sets. \<open>Uring_Sockets\<close>: which socket an operation is for, through the
    table of registered files.
  \<^item> \<open>Libuv\<close>: \<^verbatim>\<open>libuv/relay.cpp\<close>, its buffer pool and callbacks, with and without recvmmsg.
    \<open>Libuv_Setup\<close>: its \<open>run\<close>. \<open>Args\<close>: the command lines of all the experiments. \<open>Programs\<close>: the
    \<open>main\<close> functions of uring, libuv and demi. \<open>Printing\<close>: the texts printed while a program starts.
  \<^item> \<open>Thread_Pool\<close>: many threads around one relay. A thread sees the shared members and a state of its own
    (the \<open>thread_local\<close> pointers of the code); the locale \<open>relay_threads\<close> says what its loop has to
    satisfy. \<open>Mmsg_Workers\<close> cuts the loop of \<open>Mmsg\<close> at its calls (\<open>worker_next\<close>) and interprets the
    locale on it, \<open>Event_Loop_Threads\<close> on the steps of \<open>Uring\<close> and \<open>Libuv\<close>; \<open>Libuv_Workers\<close> on libuv
    with each callback a step, whose calls with nobody in between are the receive of \<open>Libuv\<close>.
    \<open>Mmsg_Service\<close> and \<open>Libuv_Service\<close> lead from the command line to these pools.
  \<^item> \<open>Socket_Queues\<close>: a worker of mmsg over sockets that hold queues, with \<open>recvmmsg\<close> as a function.
    \<open>Refused_Sends\<close>: what a client at an address the kernel does not send to does to a worker of mmsg.
  \<^item> \<open>Seastar\<close>: \<^verbatim>\<open>seastar/main.cpp\<close>. \<open>Demi\<close>: \<^verbatim>\<open>demi/relay.cpp\<close>.
  \<^item> \<open>Relay_Object\<close>: the class \<open>relay\<close> that each experiment wraps around its \<open>urn::relay\<close>; the other theories
    call the latter directly.
  \<^item> \<open>Unit_Tests\<close>: the test files of \<^verbatim>\<open>urn\<close>, run on the models; every check holds. \<open>Invoke\<close>: the
    micro-benchmarks of \<^verbatim>\<open>bench/invoke.cpp\<close>, which compare seven ways to make one call.

  \<^bold>\<open>What the lemmas show.\<close> The class implements its specification and never faults under its calling
  discipline; the counters lose nothing between collections. For mmsg, uring, libuv and seastar every
  run of the event loop, whatever the environment does, is a run of the abstract relay: what is
  transmitted is what the specification forwards. For mmsg, uring and libuv this holds of all the threads
  together: they are one relay with one table, so it does not matter which thread the kernel hands
  a datagram to; under mmsg, datagrams follow the CPU to the worker pinned to it. Calls of the system
  may fail: in the pools of mmsg and of libuv with each callback a step, and in the runs of uring and of
  the demikernel worker, any of them may return an error, and the theorems say which of these end the process,
  and that nothing else does. (The iteration of \<open>Mmsg\<close> and what is built on it without the pool is about
  system calls that do not fail, but for the sends of \<open>Refused_Sends\<close>; \<open>Libuv\<close> and
  \<open>Event_Loop_Threads\<close> about sends that libuv takes.) Resources are conserved (events of the ring, receive buffers, the message slots), loops end (the send loop, the latch, the bit-rate scaling), the session table is race free and
  linearizable under the real mutex, and start-up completes, in the stated order, or aborts.

  Where the code does not do what it means to, the theorem says what it does: the demikernel experiment
  echoes instead of forwarding and loses pops, one client registered from an address the kernel does
  not send to ends the mmsg process for all (and libuv's, whose send callback dies on an error), mmsg
  forwards only the first 1024 bytes of a datagram (the buffers of uring have that size too),
  seastar shares a table without a lock and stops forwarding after one failed send, uring counts failed sends as sent, aborts under a burst and
  does not end after SIGINT without traffic, a collection of the counters can report a datagram any
  number of times, ports and thread counts of the command lines are ignored or truncated.

  \<^bold>\<open>Bounds and fuel.\<close> \<open>send_loop\<close> takes fuel because the kernel may interrupt or refuse a call any number of
  times; its property says that for every kernel that makes progress some fuel is enough, and more does no
  harm. Words have the width of the code;
  packets are shorter than 2^64 bytes, the one bound that every machine meets. The capacity of
  the arrays and pools is that of the code: 65536 messages of 1024 bytes for mmsg, 16 events for uring, 32 sends
  per buffer for libuv. The number of threads is any 16-bit number (seastar's \<open>main\<close> fails with more).

  \<^bold>\<open>What is taken from outside the repository.\<close> The operating system, io_uring, libuv, seastar's
  reactor, the demikernel libOS and google benchmark are parameters or the environment of a step relation;
  what the code relies on is stated at the head of each theory. Of the standard library, what is used is
  modelled: \<open>unordered_map\<close>, \<open>shared_mutex\<close>, \<open>mutex\<close> and \<open>condition_variable\<close> (with spurious wake-ups),
  \<open>stoull\<close>, \<open>atoi\<close>, stream output of numbers.

  \<^bold>\<open>How fine the interleavings are.\<close> In the pools of threads (for libuv in \<open>Libuv_Workers\<close>) a call into the relay is
  one step, which \<open>Session_Concurrency\<close> justifies for the table; the counters are the subject of
  \<open>Statistics_Concurrency\<close>, which is not part of the pools. Seastar shares the table between shards without a
  lock; \<open>Seastar\<close> is about executions in which the continuations of different shards do not overlap,
  and for one shard that is all. The memory model is sequential consistency.

  \<^bold>\<open>Not modelled.\<close> The headers of the libOS (\<^verbatim>\<open>demi/dmtr\<close>), which declare third-party code that is not in
  the repository; the runner of the unit tests; build files. Printing is
  modelled where the text is computed (statistics, addresses, failures, features of the ring); the
  progress messages with fixed text are left out.
\<close>

end
